(* ===== verification/Prelude.thy ===== *)
theory Prelude
  imports Main "HOL-Library.Word"
begin

unbundle bit_operations_syntax

text \<open>
  Shared vocabulary of the development: the machine-integer types of the C++ sources, the
  error values that stand for the ways the program can stop (an abort of \<open>UNEXPECTED\<close>, a
  thrown exception, an access outside memory), the bind of the result type, and the lemmas on
  lists, words and results that more than one component uses.
\<close>

section \<open>Machine types\<close>

type_synonym byte = "8 word"
type_synonym u16 = "16 word"
type_synonym u32 = "32 word"
type_synonym u64 = "64 word"

section \<open>Failures as values\<close>

text \<open>
  \<open>Out_Of_Bounds\<close> is a read or write through a pointer or index outside the object (undefined
  behaviour in C++), \<open>Null_Deref\<close> a dereference of a null pointer, \<open>Unexpected\<close> the abort of
  \<open>OB::UNEXPECTED\<close> with its message, \<open>Runtime_Error\<close> a thrown \<open>std::runtime_error\<close>,
  \<open>Div_By_Zero\<close> an integer division by zero, \<open>Signed_Overflow\<close> a signed result outside its type
  (undefined behaviour), \<open>Aborted\<close> a plain \<open>std::abort\<close>.
\<close>

datatype error =
    Out_Of_Bounds
  | Null_Deref
  | Unexpected string
  | Runtime_Error string
  | Div_By_Zero
  | Signed_Overflow
  | Aborted

type_synonym 'a result = "error + 'a"

fun rbind :: "'a result \<Rightarrow> ('a \<Rightarrow> 'b result) \<Rightarrow> 'b result" where
  "rbind (Inl e) f = Inl e"
| "rbind (Inr x) f = f x"

definition is_ok :: "'a result \<Rightarrow> bool" where
  "is_ok r = (case r of Inl _ \<Rightarrow> False | Inr _ \<Rightarrow> True)"

lemma rbind_cong [fundef_cong]:
  "r = r' \<Longrightarrow> (\<And>x. r' = Inr x \<Longrightarrow> f x = g x) \<Longrightarrow> rbind r f = rbind r' g"
  by (cases r') auto

lemma rbind_split:
  "P (rbind r f) \<longleftrightarrow> (\<forall>e. r = Inl e \<longrightarrow> P (Inl e)) \<and> (\<forall>x. r = Inr x \<longrightarrow> P (f x))"
  by (cases r) auto

lemma rbind_eq_Inr: "rbind r f = Inr y \<longleftrightarrow> (\<exists>x. r = Inr x \<and> f x = Inr y)"
  by (cases r) auto

lemma rbind_eq_Inl: "rbind r f = Inl e \<longleftrightarrow> r = Inl e \<or> (\<exists>x. r = Inr x \<and> f x = Inl e)"
  by (cases r) auto

lemma rbind_assoc: "rbind (rbind r f) g = rbind r (\<lambda>x. rbind (f x) g)"
  by (cases r) auto

lemma rbind_Inr_right [simp]: "rbind r Inr = r"
  by (cases r) auto

lemma is_ok_simps [simp]: "is_ok (Inl e) = False" "is_ok (Inr x) = True"
  by (simp_all add: is_ok_def)

lemma is_ok_iff: "is_ok r \<longleftrightarrow> (\<exists>x. r = Inr x)"
  by (cases r) auto

section \<open>Lists\<close>

lemma take_drop_append_mid [simp]:
  "length ys = n \<Longrightarrow> take n (drop (length xs) (xs @ ys @ zs)) = ys"
  by simp

lemma nth_append_mid:
  "i < length ys \<Longrightarrow> (xs @ ys @ zs) ! (length xs + i) = ys ! i"
  by (simp add: nth_append)

lemma list_split_at: "i < length xs \<Longrightarrow> xs = take i xs @ xs ! i # drop (Suc i) xs"
  by (simp add: id_take_nth_drop)

text \<open>\<open>std::vector::insert\<close> and \<open>std::vector::erase\<close> at an index.\<close>

definition vec_insert :: "nat \<Rightarrow> 'a \<Rightarrow> 'a list \<Rightarrow> 'a list" where
  "vec_insert i x xs = take i xs @ x # drop i xs"

definition vec_erase :: "nat \<Rightarrow> 'a list \<Rightarrow> 'a list" where
  "vec_erase i xs = take i xs @ drop (Suc i) xs"

lemma length_vec_insert [simp]: "length (vec_insert i x xs) = Suc (length xs)"
  by (simp add: vec_insert_def)

lemma length_vec_erase [simp]: "i < length xs \<Longrightarrow> length (vec_erase i xs) = length xs - 1"
  by (simp add: vec_erase_def)

lemma vec_insert_not_Nil [simp]: "vec_insert i x xs \<noteq> []"
  by (simp add: vec_insert_def)

lemma map_vec_insert: "map f (vec_insert i x xs) = vec_insert i (f x) (map f xs)"
  by (simp add: vec_insert_def take_map drop_map)

lemma map_vec_erase: "map f (vec_erase i xs) = vec_erase i (map f xs)"
  by (simp add: vec_erase_def take_map drop_map)

lemma zip_vec_insert:
  "length xs = length ys \<Longrightarrow> zip (vec_insert i x xs) (vec_insert i y ys) = vec_insert i (x, y) (zip xs ys)"
  by (simp add: vec_insert_def take_zip drop_zip zip_append1 min_def)

lemma zip_vec_erase:
  "length xs = length ys \<Longrightarrow> zip (vec_erase i xs) (vec_erase i ys) = vec_erase i (zip xs ys)"
  by (simp add: vec_erase_def take_zip drop_zip zip_append1 min_def)

section \<open>Bytes and characters\<close>

text \<open>C++ \<open>char\<close> fields are modelled as HOL characters, eight bits as well.\<close>

definition char_of_byte :: "byte \<Rightarrow> char" where
  "char_of_byte b = char_of (unat b)"

definition byte_of_char :: "char \<Rightarrow> byte" where
  "byte_of_char c = of_char c"

lemma char_of_byte_of_char [simp]: "char_of_byte (byte_of_char c) = c"
proof -
  have less: "of_char c < (256 :: nat)"
    by simp
  have "unat (of_char c :: byte) = unat (of_nat (of_char c) :: byte)"
    by (simp only: of_nat_of_char)
  also have "\<dots> = of_char c"
    using less by (simp add: unat_of_nat take_bit_nat_eq_self)
  finally show ?thesis
    by (simp add: char_of_byte_def byte_of_char_def)
qed

lemma byte_of_char_of_byte [simp]: "byte_of_char (char_of_byte b) = b"
proof -
  have "of_char (char_of (unat b) :: char) = (of_nat (of_char (char_of (unat b) :: char)) :: byte)"
    by (simp only: of_nat_of_char)
  also have "\<dots> = of_nat (unat b mod 256)"
    by (simp only: of_char_of)
  also have "\<dots> = b"
    by (simp add: unsigned_less [of b, where 'a = nat, simplified])
  finally show ?thesis
    by (simp add: char_of_byte_def byte_of_char_def)
qed

end
