(* ===== verification/Wire.thy ===== *)
theory Wire
  imports Prelude
begin

text \<open>
  The wire layer of \<open>include/itch_parser.hpp\<close>: the big-endian loads \<open>load_be\<close>, the field
  descriptors \<open>Field\<close> with their sizes, the compile-time offsets \<open>OffsetAt\<close>, and the generic
  routines \<open>load_into\<close>, \<open>parse_impl\<close> and \<open>parse_itch\<close> that fill a message struct from a
  layout. A pointer into the receive buffer is an offset into the list of accessible bytes; a
  load past its end is \<open>Out_Of_Bounds\<close>. An encoder is given as the reference for the round trips.
\<close>

section \<open>Loads\<close>

definition rd :: "byte list \<Rightarrow> nat \<Rightarrow> byte result" where
  "rd mem i = (if i < length mem then Inr (mem ! i) else Inl Out_Of_Bounds)"

definition load_be_char :: "byte list \<Rightarrow> nat \<Rightarrow> char result" where
  "load_be_char mem p = rbind (rd mem p) (\<lambda>b. Inr (char_of_byte b))"

definition load_be_u16 :: "byte list \<Rightarrow> nat \<Rightarrow> u16 result" where
  "load_be_u16 mem p =
     rbind (rd mem p) (\<lambda>b0. rbind (rd mem (p + 1)) (\<lambda>b1.
       Inr (push_bit 8 (ucast b0) OR ucast b1)))"

definition load_be_u32 :: "byte list \<Rightarrow> nat \<Rightarrow> u32 result" where
  "load_be_u32 mem p =
     rbind (rd mem p) (\<lambda>b0. rbind (rd mem (p + 1)) (\<lambda>b1.
     rbind (rd mem (p + 2)) (\<lambda>b2. rbind (rd mem (p + 3)) (\<lambda>b3.
       Inr (push_bit 24 (ucast b0) OR push_bit 16 (ucast b1) OR push_bit 8 (ucast b2) OR
            ucast b3)))))"

definition load_be_u64 :: "byte list \<Rightarrow> nat \<Rightarrow> u64 result" where
  "load_be_u64 mem p =
     rbind (rd mem p) (\<lambda>b0. rbind (rd mem (p + 1)) (\<lambda>b1.
     rbind (rd mem (p + 2)) (\<lambda>b2. rbind (rd mem (p + 3)) (\<lambda>b3.
     rbind (rd mem (p + 4)) (\<lambda>b4. rbind (rd mem (p + 5)) (\<lambda>b5.
     rbind (rd mem (p + 6)) (\<lambda>b6. rbind (rd mem (p + 7)) (\<lambda>b7.
       Inr (push_bit 56 (ucast b0) OR push_bit 48 (ucast b1) OR push_bit 40 (ucast b2) OR
            push_bit 32 (ucast b3) OR push_bit 24 (ucast b4) OR push_bit 16 (ucast b5) OR
            push_bit 8 (ucast b6) OR ucast b7)))))))))"

text \<open>
  \<open>load_be(p, be48)\<close> reads its high 32 bits and its low 16 bits, both at \<open>p\<close>, as the source
  does.
\<close>

definition load_be48 :: "byte list \<Rightarrow> nat \<Rightarrow> u64 result" where
  "load_be48 mem p =
     rbind (load_be_u32 mem p) (\<lambda>hi. rbind (load_be_u16 mem p) (\<lambda>lo.
       Inr (push_bit 16 (ucast hi) OR ucast lo)))"

text \<open>\<open>std::memcpy(m.*Member, p, N)\<close> into a \<open>char[N]\<close>.\<close>

definition load_chars :: "byte list \<Rightarrow> nat \<Rightarrow> nat \<Rightarrow> string result" where
  "load_chars mem p n =
     (if p + n \<le> length mem then Inr (map char_of_byte (take n (drop p mem)))
      else Inl Out_Of_Bounds)"

section \<open>Fields, offsets and the generic parser\<close>

text \<open>
  A \<open>Field<Member, Encoding>\<close> names a data member and its encoding. The member pointer is the
  pair of the member's selector and its update; the constructor is the member's type (and \<open>be48\<close>
  for a \<open>uint64_t\<close> member read from six bytes, the only encoding the \<open>static_assert\<close> admits).
\<close>

datatype 'm Field =
    F_char "'m \<Rightarrow> char" "char \<Rightarrow> 'm \<Rightarrow> 'm"
  | F_u16 "'m \<Rightarrow> u16" "u16 \<Rightarrow> 'm \<Rightarrow> 'm"
  | F_u32 "'m \<Rightarrow> u32" "u32 \<Rightarrow> 'm \<Rightarrow> 'm"
  | F_u64 "'m \<Rightarrow> u64" "u64 \<Rightarrow> 'm \<Rightarrow> 'm"
  | F_be48 "'m \<Rightarrow> u64" "u64 \<Rightarrow> 'm \<Rightarrow> 'm"
  | F_array nat "'m \<Rightarrow> string" "string \<Rightarrow> 'm \<Rightarrow> 'm"

fun field_size :: "'m Field \<Rightarrow> nat" where
  "field_size (F_char _ _) = 1"
| "field_size (F_u16 _ _) = 2"
| "field_size (F_u32 _ _) = 4"
| "field_size (F_u64 _ _) = 8"
| "field_size (F_be48 _ _) = 6"
| "field_size (F_array n _ _) = n"

fun OffsetAt :: "nat \<Rightarrow> 'm Field list \<Rightarrow> nat" where
  "OffsetAt 0 L = 0"
| "OffsetAt (Suc i) L = OffsetAt i L + field_size (L ! i)"

fun load_into :: "byte list \<Rightarrow> 'm \<Rightarrow> nat \<Rightarrow> 'm Field \<Rightarrow> 'm result" where
  "load_into mem m p (F_char get put) = rbind (load_be_char mem p) (\<lambda>v. Inr (put v m))"
| "load_into mem m p (F_u16 get put) = rbind (load_be_u16 mem p) (\<lambda>v. Inr (put v m))"
| "load_into mem m p (F_u32 get put) = rbind (load_be_u32 mem p) (\<lambda>v. Inr (put v m))"
| "load_into mem m p (F_u64 get put) = rbind (load_be_u64 mem p) (\<lambda>v. Inr (put v m))"
| "load_into mem m p (F_be48 get put) = rbind (load_be48 mem p) (\<lambda>v. Inr (put v m))"
| "load_into mem m p (F_array n get put) = rbind (load_chars mem p n) (\<lambda>v. Inr (put v m))"

fun parse_impl :: "'m Field list \<Rightarrow> 'm \<Rightarrow> byte list \<Rightarrow> nat \<Rightarrow> nat list \<Rightarrow> 'm result" where
  "parse_impl L m mem src [] = Inr m"
| "parse_impl L m mem src (i # idxs) =
     rbind (load_into mem m (src + OffsetAt i L) (L ! i)) (\<lambda>m'. parse_impl L m' mem src idxs)"

text \<open>\<open>Msg m;\<close> leaves the struct uninitialised: its indeterminate contents are the argument \<open>m\<close>.\<close>

definition parse_itch :: "'m Field list \<Rightarrow> 'm \<Rightarrow> byte list \<Rightarrow> nat \<Rightarrow> 'm result" where
  "parse_itch L m mem src = parse_impl L m mem src [0..<length L]"

section \<open>The reference encoder\<close>

definition be_bytes :: "nat \<Rightarrow> 'a::len word \<Rightarrow> byte list" where
  "be_bytes n w = map (\<lambda>i. ucast (drop_bit (8 * (n - 1 - i)) w)) [0..<n]"

fun encode_field :: "'m \<Rightarrow> 'm Field \<Rightarrow> byte list" where
  "encode_field m (F_char get put) = [byte_of_char (get m)]"
| "encode_field m (F_u16 get put) = be_bytes 2 (get m)"
| "encode_field m (F_u32 get put) = be_bytes 4 (get m)"
| "encode_field m (F_u64 get put) = be_bytes 8 (get m)"
| "encode_field m (F_be48 get put) = be_bytes 6 (get m)"
| "encode_field m (F_array n get put) = map byte_of_char (get m)"

definition encode :: "'m Field list \<Rightarrow> 'm \<Rightarrow> byte list" where
  "encode L m = concat (map (encode_field m) L)"

definition layout_size :: "'m Field list \<Rightarrow> nat" where
  "layout_size L = sum_list (map field_size L)"

fun field_ok :: "'m \<Rightarrow> 'm Field \<Rightarrow> bool" where
  "field_ok m (F_array n get put) = (length (get m) = n)"
| "field_ok m _ = True"

text \<open>
  What the \<open>be48\<close> load makes of a 48-bit big-endian value \<open>x\<close>: bits 16 to 47 keep their
  place, and bits 32 to 47 are read a second time in place of bits 0 to 15.
\<close>

definition be48_as_loaded :: "u64 \<Rightarrow> u64" where
  "be48_as_loaded x =
     push_bit 16 (ucast (ucast (drop_bit 16 x) :: u32)) OR ucast (ucast (drop_bit 32 x) :: u16)"

fun copy_field :: "'m \<Rightarrow> 'm Field \<Rightarrow> 'm \<Rightarrow> 'm" where
  "copy_field m (F_char get put) m' = put (get m) m'"
| "copy_field m (F_u16 get put) m' = put (get m) m'"
| "copy_field m (F_u32 get put) m' = put (get m) m'"
| "copy_field m (F_u64 get put) m' = put (get m) m'"
| "copy_field m (F_be48 get put) m' = put (be48_as_loaded (get m)) m'"
| "copy_field m (F_array n get put) m' = put (get m) m'"

definition copy_fields :: "'m Field list \<Rightarrow> 'm \<Rightarrow> 'm \<Rightarrow> 'm" where
  "copy_fields L m m' = fold (copy_field m) L m'"

section \<open>Loads are the inverse of the encoder\<close>

lemma length_be_bytes [simp]: "length (be_bytes n w) = n"
  by (simp add: be_bytes_def)

lemma nth_be_bytes: "i < n \<Longrightarrow> be_bytes n w ! i = ucast (drop_bit (8 * (n - 1 - i)) w)"
  by (simp add: be_bytes_def)

lemma rd_left: "i < length ys \<Longrightarrow> rd (ys @ zs) i = Inr (ys ! i)"
  by (simp add: rd_def nth_append)

lemma rd_pre [simp]:
  "rd (xs @ zs) (length xs) = rd zs 0"
  "rd (xs @ zs) (Suc (length xs)) = rd zs 1"
  "rd (xs @ zs) (Suc (Suc (length xs))) = rd zs 2"
  "rd (xs @ zs) (length xs + i) = rd zs i"
  by (auto simp: rd_def nth_append)

lemma rd_is_ok [simp]: "is_ok (rd mem i) \<longleftrightarrow> i < length mem"
  by (simp add: rd_def)

lemma byte_slice:
  "push_bit k (ucast (ucast (drop_bit k x) :: byte)) = (x :: 'a::len word) AND push_bit k 255"
proof -
  have "push_bit k (ucast (ucast (drop_bit k x) :: byte)) = x AND push_bit k (mask 8)"
    by (rule bit_word_eqI) (auto simp: bit_simps)
  then show ?thesis
    by (simp add: mask_eq_exp_minus_1)
qed

lemmas byte_slice0 = byte_slice [where k = 0, simplified]

lemma be16_of_bytes:
  "push_bit 8 (ucast (ucast (drop_bit 8 x) :: byte)) OR ucast (ucast x :: byte) = (x :: u16)"
proof -
  have "(65535 :: u16) = - 1" by simp
  then have "x AND 65535 = x" by (simp only: and.right_neutral)
  then show ?thesis
    unfolding byte_slice
    by (simp only: byte_slice0 bit.conj_disj_distrib [symmetric]) simp
qed

lemma be32_of_bytes:
  "push_bit 24 (ucast (ucast (drop_bit 24 x) :: byte)) OR
   push_bit 16 (ucast (ucast (drop_bit 16 x) :: byte)) OR
   push_bit 8 (ucast (ucast (drop_bit 8 x) :: byte)) OR ucast (ucast x :: byte) = (x :: u32)"
proof -
  have "(4294967295 :: u32) = - 1" by simp
  then have "x AND 4294967295 = x" by (simp only: and.right_neutral)
  then show ?thesis
    unfolding byte_slice
    by (simp only: byte_slice0 bit.conj_disj_distrib [symmetric]) simp
qed

lemma be64_of_bytes:
  "push_bit 56 (ucast (ucast (drop_bit 56 x) :: byte)) OR
   push_bit 48 (ucast (ucast (drop_bit 48 x) :: byte)) OR
   push_bit 40 (ucast (ucast (drop_bit 40 x) :: byte)) OR
   push_bit 32 (ucast (ucast (drop_bit 32 x) :: byte)) OR
   push_bit 24 (ucast (ucast (drop_bit 24 x) :: byte)) OR
   push_bit 16 (ucast (ucast (drop_bit 16 x) :: byte)) OR
   push_bit 8 (ucast (ucast (drop_bit 8 x) :: byte)) OR ucast (ucast x :: byte) = (x :: u64)"
proof -
  have "(18446744073709551615 :: u64) = - 1" by simp
  then have "x AND 18446744073709551615 = x" by (simp only: and.right_neutral)
  then show ?thesis
    unfolding byte_slice
    by (simp only: byte_slice0 bit.conj_disj_distrib [symmetric]) simp
qed

lemma load_be_char_encoded [simp]:
  "load_be_char (pre @ byte_of_char c # post) (length pre) = Inr c"
  by (simp add: load_be_char_def rd_def nth_append)

lemma load_be_u16_encoded [simp]:
  "load_be_u16 (pre @ be_bytes 2 x @ post) (length pre) = Inr x"
  by (simp add: load_be_u16_def rd_left nth_be_bytes be16_of_bytes)

lemma load_be_u32_encoded [simp]:
  "load_be_u32 (pre @ be_bytes 4 x @ post) (length pre) = Inr x"
  by (simp add: load_be_u32_def rd_left nth_be_bytes be32_of_bytes)

lemma load_be_u64_encoded [simp]:
  "load_be_u64 (pre @ be_bytes 8 x @ post) (length pre) = Inr x"
  by (simp add: load_be_u64_def rd_left nth_be_bytes be64_of_bytes)

lemma be_bytes_split: "be_bytes (a + b) x = be_bytes a (drop_bit (8 * b) x) @ be_bytes b x"
proof (rule nth_equalityI)
  fix i assume "i < length (be_bytes (a + b) x)"
  then have i: "i < a + b" by simp
  show "be_bytes (a + b) x ! i = (be_bytes a (drop_bit (8 * b) x) @ be_bytes b x) ! i"
  proof (cases "i < a")
    case True
    then have "8 * (a + b - 1 - i) = 8 * (a - 1 - i) + 8 * b" by simp
    with True i show ?thesis
      by (simp add: nth_append nth_be_bytes ac_simps)
  next
    case False
    then have "a + b - 1 - i = b - 1 - (i - a)" by simp
    with False i show ?thesis
      by (simp add: nth_append nth_be_bytes)
  qed
qed simp

lemma be_bytes_ucast:
  assumes "8 * n \<le> LENGTH('b)"
  shows "be_bytes n (ucast (w :: 'a::len word) :: 'b::len word) = be_bytes n w"
proof (rule nth_equalityI)
  fix i assume "i < length (be_bytes n (ucast w :: 'b word))"
  then have i: "i < n" by simp
  then have k: "8 * (n - 1 - i) + 8 \<le> LENGTH('b)"
    using assms by linarith
  have "(ucast (drop_bit (8 * (n - 1 - i)) (ucast w :: 'b word)) :: byte) =
        ucast (drop_bit (8 * (n - 1 - i)) w)"
    using k by (intro bit_word_eqI) (auto simp: bit_simps)
  then show "be_bytes n (ucast w :: 'b word) ! i = be_bytes n w ! i"
    using i by (simp add: nth_be_bytes)
qed simp

lemma load_be48_encoded [simp]:
  "load_be48 (pre @ be_bytes 6 x @ post) (length pre) = Inr (be48_as_loaded (x :: u64))"
proof -
  have hi: "be_bytes 6 x = be_bytes 4 (ucast (drop_bit 16 x) :: u32) @ be_bytes 2 x"
    using be_bytes_split [of 4 2 x] by (simp add: be_bytes_ucast)
  have lo: "be_bytes 6 x = be_bytes 2 (ucast (drop_bit 32 x) :: u16) @ be_bytes 4 x"
    using be_bytes_split [of 2 4 x] by (simp add: be_bytes_ucast)
  have "load_be_u32 (pre @ be_bytes 6 x @ post) (length pre) = Inr (ucast (drop_bit 16 x))"
    by (simp only: hi append_assoc load_be_u32_encoded)
  moreover have "load_be_u16 (pre @ be_bytes 6 x @ post) (length pre) = Inr (ucast (drop_bit 32 x))"
    by (simp only: lo append_assoc load_be_u16_encoded)
  ultimately show ?thesis
    by (simp add: load_be48_def be48_as_loaded_def)
qed

lemma load_chars_encoded [simp]:
  "length cs = n \<Longrightarrow> load_chars (pre @ map byte_of_char cs @ post) (length pre) n = Inr cs"
  by (auto simp: load_chars_def comp_def)

section \<open>Parsing an encoded message\<close>

lemma length_encode_field: "field_ok m f \<Longrightarrow> length (encode_field m f) = field_size f"
  by (cases f) auto

lemma length_encode: "list_all (field_ok m) L \<Longrightarrow> length (encode L m) = layout_size L"
  by (induction L) (auto simp: encode_def layout_size_def length_encode_field)

lemma OffsetAt_eq: "i \<le> length L \<Longrightarrow> OffsetAt i L = layout_size (take i L)"
  by (induction i) (auto simp: layout_size_def take_Suc_conv_app_nth)

lemma load_into_encoded:
  assumes "field_ok m f"
  shows "load_into (pre @ encode_field m f @ post) m' (length pre) f = Inr (copy_field m f m')"
  using assms by (cases f) auto

lemma parse_impl_encoded:
  assumes "list_all (field_ok m) L" and "set idxs \<subseteq> {..<length L}"
  shows "parse_impl L m0 (pre @ encode L m @ post) (length pre) idxs =
         Inr (fold (\<lambda>i. copy_field m (L ! i)) idxs m0)"
  using assms(2)
proof (induction idxs arbitrary: m0)
  case Nil
  then show ?case by simp
next
  case (Cons i idxs)
  let ?pre = "pre @ encode (take i L) m"
  let ?post = "encode (drop (Suc i) L) m @ post"
  from Cons.prems have i: "i < length L" by simp
  have ok: "list_all (field_ok m) (take i L)" "field_ok m (L ! i)"
    using assms(1) i by (auto simp: list_all_length)
  have "encode L m = encode (take i L) m @ encode_field m (L ! i) @ encode (drop (Suc i) L) m"
    using arg_cong [OF list_split_at [OF i], of "\<lambda>l. encode l m"] by (simp add: encode_def)
  then have mem: "pre @ encode L m @ post = ?pre @ encode_field m (L ! i) @ ?post"
    by simp
  have at: "length pre + OffsetAt i L = length ?pre"
    using i ok(1) by (simp add: OffsetAt_eq length_encode)
  have "load_into (pre @ encode L m @ post) m0 (length pre + OffsetAt i L) (L ! i) =
        Inr (copy_field m (L ! i) m0)"
    unfolding mem at by (rule load_into_encoded [OF ok(2)])
  with Cons show ?case by simp
qed

lemma parse_itch_encoded:
  assumes "list_all (field_ok m) L"
  shows "parse_itch L m0 (pre @ encode L m @ post) (length pre) = Inr (copy_fields L m m0)"
proof -
  have "fold (\<lambda>i. copy_field m (L ! i)) [0..<length L] m0 = fold (copy_field m) (map ((!) L) [0..<length L]) m0"
    by (simp add: fold_map comp_def)
  then show ?thesis
    using parse_impl_encoded [OF assms, of "[0..<length L]"]
    by (simp add: parse_itch_def copy_fields_def map_nth atLeast0LessThan)
qed

section \<open>When a parse stays inside the buffer\<close>

definition in_bounds :: "byte list \<Rightarrow> nat \<Rightarrow> 'a result \<Rightarrow> bool" where
  "in_bounds mem n r \<longleftrightarrow> (if n \<le> length mem then is_ok r else r = Inl Out_Of_Bounds)"

lemma in_bounds_Inr: "n \<le> length mem \<Longrightarrow> in_bounds mem n (Inr x)"
  by (simp add: in_bounds_def)

lemma in_bounds_rd:
  "(\<And>b. i < length mem \<Longrightarrow> in_bounds mem n (f b)) \<Longrightarrow> i < n \<Longrightarrow> in_bounds mem n (rbind (rd mem i) f)"
  by (auto simp: in_bounds_def rd_def split: if_splits)

lemma in_bounds_map:
  "in_bounds mem n r \<Longrightarrow> in_bounds mem n (rbind r (\<lambda>v. Inr (f v)))"
  by (cases r) (auto simp: in_bounds_def split: if_splits)

lemma in_bounds_loads:
  "in_bounds mem (p + 1) (load_be_char mem p)"
  "in_bounds mem (p + 2) (load_be_u16 mem p)"
  "in_bounds mem (p + 4) (load_be_u32 mem p)"
  "in_bounds mem (p + 8) (load_be_u64 mem p)"
  "in_bounds mem (p + n) (load_chars mem p n)"
proof -
  show "in_bounds mem (p + 1) (load_be_char mem p)"
    unfolding load_be_char_def by (intro in_bounds_rd in_bounds_Inr) auto
  show "in_bounds mem (p + 2) (load_be_u16 mem p)"
    unfolding load_be_u16_def by (intro in_bounds_rd in_bounds_Inr) auto
  show "in_bounds mem (p + 4) (load_be_u32 mem p)"
    unfolding load_be_u32_def by (intro in_bounds_rd in_bounds_Inr) auto
  show "in_bounds mem (p + 8) (load_be_u64 mem p)"
    unfolding load_be_u64_def by (intro in_bounds_rd in_bounds_Inr) auto
  show "in_bounds mem (p + n) (load_chars mem p n)"
    by (simp add: load_chars_def in_bounds_def)
qed

text \<open>The \<open>be48\<close> load touches only the first four of its six bytes.\<close>

lemma load_be48_bounds: "in_bounds mem (p + 4) (load_be48 mem p)"
  using in_bounds_loads(3) [of mem p] in_bounds_loads(2) [of mem p]
  by (auto simp: load_be48_def in_bounds_def is_ok_iff split: if_splits)

lemma load_into_ok: "p + field_size f \<le> length mem \<Longrightarrow> is_ok (load_into mem m p f)"
  using in_bounds_loads(1) [of mem p] in_bounds_loads(2) [of mem p] in_bounds_loads(3) [of mem p]
    in_bounds_loads(4) [of mem p] in_bounds_loads(5) [of mem p "field_size f"] load_be48_bounds [of mem p]
  by (cases f) (auto simp: in_bounds_def is_ok_iff)

lemma load_into_error: "load_into mem m p f = Inl e \<Longrightarrow> e = Out_Of_Bounds"
  using in_bounds_loads(1) [of mem p] in_bounds_loads(2) [of mem p] in_bounds_loads(3) [of mem p]
    in_bounds_loads(4) [of mem p] in_bounds_loads(5) [of mem p "field_size f"] load_be48_bounds [of mem p]
  by (cases f) (auto simp: in_bounds_def is_ok_iff rbind_eq_Inl split: if_splits)

lemma layout_size_take: "i < length L \<Longrightarrow> layout_size (take i L) + field_size (L ! i) \<le> layout_size L"
  using list_split_at [of i L] by (metis layout_size_def list.simps(9) map_append sum_list.Cons
      sum_list_append add.assoc le_add1)

lemma parse_impl_ok:
  assumes "src + layout_size L \<le> length mem" and "set idxs \<subseteq> {..<length L}"
  shows "is_ok (parse_impl L m mem src idxs)"
  using assms(2)
proof (induction idxs arbitrary: m)
  case Nil
  then show ?case by simp
next
  case (Cons i idxs)
  then have "src + OffsetAt i L + field_size (L ! i) \<le> length mem"
    using layout_size_take [of i L] assms(1) by (simp add: OffsetAt_eq)
  then show ?case
    using Cons load_into_ok [of "src + OffsetAt i L" "L ! i" mem m] by (auto simp: is_ok_iff)
qed

lemma parse_itch_ok: "src + layout_size L \<le> length mem \<Longrightarrow> is_ok (parse_itch L m mem src)"
  unfolding parse_itch_def by (rule parse_impl_ok) auto

lemma parse_impl_error: "parse_impl L m mem src idxs = Inl e \<Longrightarrow> e = Out_Of_Bounds"
  by (induction idxs arbitrary: m) (auto simp: rbind_eq_Inl dest: load_into_error)

lemma parse_itch_error: "parse_itch L m mem src = Inl e \<Longrightarrow> e = Out_Of_Bounds"
  unfolding parse_itch_def by (rule parse_impl_error)

end
