(* ===== verification/Messages.thy ===== *)
theory Messages
  imports Wire
begin

text \<open>
  The 22 ITCH 5.0 messages of \<open>include/itch_parser.hpp\<close>: each message struct as a record, its
  \<open>Layout\<close> tuple as the list of its fields in wire order, and the sum of the message types with
  its parser (the instances of \<open>parse_itch\<close>) and reference encoder. The lemmas show that every
  layout assigns every member of its struct, so a parsed message does not depend on the
  uninitialised struct it is parsed into.
\<close>

named_theorems layout_copies

section \<open>Structs and layouts\<close>

record SystemEvent =
  stock_locate :: u16
  tracking_number :: u16
  timestamp :: u64
  event_code :: char

definition SystemEventLayout :: "SystemEvent Field list" where
  "SystemEventLayout = [
     F_u16 SystemEvent.stock_locate (\<lambda>v m. m\<lparr>SystemEvent.stock_locate := v\<rparr>),
     F_u16 SystemEvent.tracking_number (\<lambda>v m. m\<lparr>SystemEvent.tracking_number := v\<rparr>),
     F_be48 SystemEvent.timestamp (\<lambda>v m. m\<lparr>SystemEvent.timestamp := v\<rparr>),
     F_char SystemEvent.event_code (\<lambda>v m. m\<lparr>SystemEvent.event_code := v\<rparr>)]"

definition SystemEvent_uninit :: SystemEvent where
  "SystemEvent_uninit = \<lparr>
     SystemEvent.stock_locate = 0,
     SystemEvent.tracking_number = 0,
     SystemEvent.timestamp = 0,
     SystemEvent.event_code = CHR 0x00\<rparr>"

record StockDirectory =
  stock_locate :: u16
  tracking_number :: u16
  timestamp :: u64
  stock :: string
  market_category :: char
  financial_status_indicator :: char
  round_lot_size :: u32
  round_lots_only :: char
  issue_classification :: char
  issue_sub_type :: string
  authenticity :: char
  short_sale_threshold_indicator :: char
  ipo_flag :: char
  luld_reference_price_tier :: char
  etp_flag :: char
  etp_leverage_factor :: u32
  inverse_indicator :: char

definition StockDirectoryLayout :: "StockDirectory Field list" where
  "StockDirectoryLayout = [
     F_u16 StockDirectory.stock_locate (\<lambda>v m. m\<lparr>StockDirectory.stock_locate := v\<rparr>),
     F_u16 StockDirectory.tracking_number (\<lambda>v m. m\<lparr>StockDirectory.tracking_number := v\<rparr>),
     F_be48 StockDirectory.timestamp (\<lambda>v m. m\<lparr>StockDirectory.timestamp := v\<rparr>),
     F_array 8 StockDirectory.stock (\<lambda>v m. m\<lparr>StockDirectory.stock := v\<rparr>),
     F_char StockDirectory.market_category (\<lambda>v m. m\<lparr>StockDirectory.market_category := v\<rparr>),
     F_char StockDirectory.financial_status_indicator (\<lambda>v m. m\<lparr>StockDirectory.financial_status_indicator := v\<rparr>),
     F_u32 StockDirectory.round_lot_size (\<lambda>v m. m\<lparr>StockDirectory.round_lot_size := v\<rparr>),
     F_char StockDirectory.round_lots_only (\<lambda>v m. m\<lparr>StockDirectory.round_lots_only := v\<rparr>),
     F_char StockDirectory.issue_classification (\<lambda>v m. m\<lparr>StockDirectory.issue_classification := v\<rparr>),
     F_array 2 StockDirectory.issue_sub_type (\<lambda>v m. m\<lparr>StockDirectory.issue_sub_type := v\<rparr>),
     F_char StockDirectory.authenticity (\<lambda>v m. m\<lparr>StockDirectory.authenticity := v\<rparr>),
     F_char StockDirectory.short_sale_threshold_indicator (\<lambda>v m. m\<lparr>StockDirectory.short_sale_threshold_indicator := v\<rparr>),
     F_char StockDirectory.ipo_flag (\<lambda>v m. m\<lparr>StockDirectory.ipo_flag := v\<rparr>),
     F_char StockDirectory.luld_reference_price_tier (\<lambda>v m. m\<lparr>StockDirectory.luld_reference_price_tier := v\<rparr>),
     F_char StockDirectory.etp_flag (\<lambda>v m. m\<lparr>StockDirectory.etp_flag := v\<rparr>),
     F_u32 StockDirectory.etp_leverage_factor (\<lambda>v m. m\<lparr>StockDirectory.etp_leverage_factor := v\<rparr>),
     F_char StockDirectory.inverse_indicator (\<lambda>v m. m\<lparr>StockDirectory.inverse_indicator := v\<rparr>)]"

definition StockDirectory_uninit :: StockDirectory where
  "StockDirectory_uninit = \<lparr>
     StockDirectory.stock_locate = 0,
     StockDirectory.tracking_number = 0,
     StockDirectory.timestamp = 0,
     StockDirectory.stock = replicate 8 (CHR 0x00),
     StockDirectory.market_category = CHR 0x00,
     StockDirectory.financial_status_indicator = CHR 0x00,
     StockDirectory.round_lot_size = 0,
     StockDirectory.round_lots_only = CHR 0x00,
     StockDirectory.issue_classification = CHR 0x00,
     StockDirectory.issue_sub_type = replicate 2 (CHR 0x00),
     StockDirectory.authenticity = CHR 0x00,
     StockDirectory.short_sale_threshold_indicator = CHR 0x00,
     StockDirectory.ipo_flag = CHR 0x00,
     StockDirectory.luld_reference_price_tier = CHR 0x00,
     StockDirectory.etp_flag = CHR 0x00,
     StockDirectory.etp_leverage_factor = 0,
     StockDirectory.inverse_indicator = CHR 0x00\<rparr>"

record TradingAction =
  stock_locate :: u16
  tracking_number :: u16
  timestamp :: u64
  stock :: string
  trading_state :: char
  reserved :: char
  reason :: string

definition TradingActionLayout :: "TradingAction Field list" where
  "TradingActionLayout = [
     F_u16 TradingAction.stock_locate (\<lambda>v m. m\<lparr>TradingAction.stock_locate := v\<rparr>),
     F_u16 TradingAction.tracking_number (\<lambda>v m. m\<lparr>TradingAction.tracking_number := v\<rparr>),
     F_be48 TradingAction.timestamp (\<lambda>v m. m\<lparr>TradingAction.timestamp := v\<rparr>),
     F_array 8 TradingAction.stock (\<lambda>v m. m\<lparr>TradingAction.stock := v\<rparr>),
     F_char TradingAction.trading_state (\<lambda>v m. m\<lparr>TradingAction.trading_state := v\<rparr>),
     F_char TradingAction.reserved (\<lambda>v m. m\<lparr>TradingAction.reserved := v\<rparr>),
     F_array 4 TradingAction.reason (\<lambda>v m. m\<lparr>TradingAction.reason := v\<rparr>)]"

definition TradingAction_uninit :: TradingAction where
  "TradingAction_uninit = \<lparr>
     TradingAction.stock_locate = 0,
     TradingAction.tracking_number = 0,
     TradingAction.timestamp = 0,
     TradingAction.stock = replicate 8 (CHR 0x00),
     TradingAction.trading_state = CHR 0x00,
     TradingAction.reserved = CHR 0x00,
     TradingAction.reason = replicate 4 (CHR 0x00)\<rparr>"

record RegSho =
  locate_code :: u16
  tracking_number :: u16
  timestamp :: u64
  stock :: string
  reg_sho_action :: char

definition RegShoLayout :: "RegSho Field list" where
  "RegShoLayout = [
     F_u16 RegSho.locate_code (\<lambda>v m. m\<lparr>RegSho.locate_code := v\<rparr>),
     F_u16 RegSho.tracking_number (\<lambda>v m. m\<lparr>RegSho.tracking_number := v\<rparr>),
     F_be48 RegSho.timestamp (\<lambda>v m. m\<lparr>RegSho.timestamp := v\<rparr>),
     F_array 8 RegSho.stock (\<lambda>v m. m\<lparr>RegSho.stock := v\<rparr>),
     F_char RegSho.reg_sho_action (\<lambda>v m. m\<lparr>RegSho.reg_sho_action := v\<rparr>)]"

definition RegSho_uninit :: RegSho where
  "RegSho_uninit = \<lparr>
     RegSho.locate_code = 0,
     RegSho.tracking_number = 0,
     RegSho.timestamp = 0,
     RegSho.stock = replicate 8 (CHR 0x00),
     RegSho.reg_sho_action = CHR 0x00\<rparr>"

record MarketParticipantPos =
  stock_locate :: u16
  tracking_number :: u16
  timestamp :: u64
  mpid :: string
  stock :: string
  primary_market_maker :: char
  market_maker_mode :: char
  market_participant_state :: char

definition MarketParticipantPosLayout :: "MarketParticipantPos Field list" where
  "MarketParticipantPosLayout = [
     F_u16 MarketParticipantPos.stock_locate (\<lambda>v m. m\<lparr>MarketParticipantPos.stock_locate := v\<rparr>),
     F_u16 MarketParticipantPos.tracking_number (\<lambda>v m. m\<lparr>MarketParticipantPos.tracking_number := v\<rparr>),
     F_be48 MarketParticipantPos.timestamp (\<lambda>v m. m\<lparr>MarketParticipantPos.timestamp := v\<rparr>),
     F_array 4 MarketParticipantPos.mpid (\<lambda>v m. m\<lparr>MarketParticipantPos.mpid := v\<rparr>),
     F_array 8 MarketParticipantPos.stock (\<lambda>v m. m\<lparr>MarketParticipantPos.stock := v\<rparr>),
     F_char MarketParticipantPos.primary_market_maker (\<lambda>v m. m\<lparr>MarketParticipantPos.primary_market_maker := v\<rparr>),
     F_char MarketParticipantPos.market_maker_mode (\<lambda>v m. m\<lparr>MarketParticipantPos.market_maker_mode := v\<rparr>),
     F_char MarketParticipantPos.market_participant_state (\<lambda>v m. m\<lparr>MarketParticipantPos.market_participant_state := v\<rparr>)]"

definition MarketParticipantPos_uninit :: MarketParticipantPos where
  "MarketParticipantPos_uninit = \<lparr>
     MarketParticipantPos.stock_locate = 0,
     MarketParticipantPos.tracking_number = 0,
     MarketParticipantPos.timestamp = 0,
     MarketParticipantPos.mpid = replicate 4 (CHR 0x00),
     MarketParticipantPos.stock = replicate 8 (CHR 0x00),
     MarketParticipantPos.primary_market_maker = CHR 0x00,
     MarketParticipantPos.market_maker_mode = CHR 0x00,
     MarketParticipantPos.market_participant_state = CHR 0x00\<rparr>"

record MwcbDeclineLevel =
  stock_locate :: u16
  tracking_number :: u16
  timestamp :: u64
  level1 :: u64
  level2 :: u64
  level3 :: u64

definition MwcbDeclineLevelLayout :: "MwcbDeclineLevel Field list" where
  "MwcbDeclineLevelLayout = [
     F_u16 MwcbDeclineLevel.stock_locate (\<lambda>v m. m\<lparr>MwcbDeclineLevel.stock_locate := v\<rparr>),
     F_u16 MwcbDeclineLevel.tracking_number (\<lambda>v m. m\<lparr>MwcbDeclineLevel.tracking_number := v\<rparr>),
     F_be48 MwcbDeclineLevel.timestamp (\<lambda>v m. m\<lparr>MwcbDeclineLevel.timestamp := v\<rparr>),
     F_u64 MwcbDeclineLevel.level1 (\<lambda>v m. m\<lparr>MwcbDeclineLevel.level1 := v\<rparr>),
     F_u64 MwcbDeclineLevel.level2 (\<lambda>v m. m\<lparr>MwcbDeclineLevel.level2 := v\<rparr>),
     F_u64 MwcbDeclineLevel.level3 (\<lambda>v m. m\<lparr>MwcbDeclineLevel.level3 := v\<rparr>)]"

definition MwcbDeclineLevel_uninit :: MwcbDeclineLevel where
  "MwcbDeclineLevel_uninit = \<lparr>
     MwcbDeclineLevel.stock_locate = 0,
     MwcbDeclineLevel.tracking_number = 0,
     MwcbDeclineLevel.timestamp = 0,
     MwcbDeclineLevel.level1 = 0,
     MwcbDeclineLevel.level2 = 0,
     MwcbDeclineLevel.level3 = 0\<rparr>"

record MwcbStatus =
  stock_locate :: u16
  tracking_number :: u16
  timestamp :: u64
  breached_level :: char

definition MwcbStatusLayout :: "MwcbStatus Field list" where
  "MwcbStatusLayout = [
     F_u16 MwcbStatus.stock_locate (\<lambda>v m. m\<lparr>MwcbStatus.stock_locate := v\<rparr>),
     F_u16 MwcbStatus.tracking_number (\<lambda>v m. m\<lparr>MwcbStatus.tracking_number := v\<rparr>),
     F_be48 MwcbStatus.timestamp (\<lambda>v m. m\<lparr>MwcbStatus.timestamp := v\<rparr>),
     F_char MwcbStatus.breached_level (\<lambda>v m. m\<lparr>MwcbStatus.breached_level := v\<rparr>)]"

definition MwcbStatus_uninit :: MwcbStatus where
  "MwcbStatus_uninit = \<lparr>
     MwcbStatus.stock_locate = 0,
     MwcbStatus.tracking_number = 0,
     MwcbStatus.timestamp = 0,
     MwcbStatus.breached_level = CHR 0x00\<rparr>"

record IpoQuotationPeriodUpd =
  stock_locate :: u16
  tracking_number :: u16
  timestamp :: u64
  stock :: string
  ipo_quotation_release_time :: u32
  ipo_quatation_release_qualifier :: char
  ipo_price :: u32

definition IpoQuotationPeriodUpdLayout :: "IpoQuotationPeriodUpd Field list" where
  "IpoQuotationPeriodUpdLayout = [
     F_u16 IpoQuotationPeriodUpd.stock_locate (\<lambda>v m. m\<lparr>IpoQuotationPeriodUpd.stock_locate := v\<rparr>),
     F_u16 IpoQuotationPeriodUpd.tracking_number (\<lambda>v m. m\<lparr>IpoQuotationPeriodUpd.tracking_number := v\<rparr>),
     F_be48 IpoQuotationPeriodUpd.timestamp (\<lambda>v m. m\<lparr>IpoQuotationPeriodUpd.timestamp := v\<rparr>),
     F_array 8 IpoQuotationPeriodUpd.stock (\<lambda>v m. m\<lparr>IpoQuotationPeriodUpd.stock := v\<rparr>),
     F_u32 IpoQuotationPeriodUpd.ipo_quotation_release_time (\<lambda>v m. m\<lparr>IpoQuotationPeriodUpd.ipo_quotation_release_time := v\<rparr>),
     F_char IpoQuotationPeriodUpd.ipo_quatation_release_qualifier (\<lambda>v m. m\<lparr>IpoQuotationPeriodUpd.ipo_quatation_release_qualifier := v\<rparr>),
     F_u32 IpoQuotationPeriodUpd.ipo_price (\<lambda>v m. m\<lparr>IpoQuotationPeriodUpd.ipo_price := v\<rparr>)]"

definition IpoQuotationPeriodUpd_uninit :: IpoQuotationPeriodUpd where
  "IpoQuotationPeriodUpd_uninit = \<lparr>
     IpoQuotationPeriodUpd.stock_locate = 0,
     IpoQuotationPeriodUpd.tracking_number = 0,
     IpoQuotationPeriodUpd.timestamp = 0,
     IpoQuotationPeriodUpd.stock = replicate 8 (CHR 0x00),
     IpoQuotationPeriodUpd.ipo_quotation_release_time = 0,
     IpoQuotationPeriodUpd.ipo_quatation_release_qualifier = CHR 0x00,
     IpoQuotationPeriodUpd.ipo_price = 0\<rparr>"

record LuldAuctionCollar =
  stock_locate :: u16
  tracking_number :: u16
  timestamp :: u64
  stock :: string
  auction_collar_reference_price :: u32
  upper_auction_collar_price :: u32
  lower_auction_collar_price :: u32
  auction_collar_extension :: u32

definition LuldAuctionCollarLayout :: "LuldAuctionCollar Field list" where
  "LuldAuctionCollarLayout = [
     F_u16 LuldAuctionCollar.stock_locate (\<lambda>v m. m\<lparr>LuldAuctionCollar.stock_locate := v\<rparr>),
     F_u16 LuldAuctionCollar.tracking_number (\<lambda>v m. m\<lparr>LuldAuctionCollar.tracking_number := v\<rparr>),
     F_be48 LuldAuctionCollar.timestamp (\<lambda>v m. m\<lparr>LuldAuctionCollar.timestamp := v\<rparr>),
     F_array 8 LuldAuctionCollar.stock (\<lambda>v m. m\<lparr>LuldAuctionCollar.stock := v\<rparr>),
     F_u32 LuldAuctionCollar.auction_collar_reference_price (\<lambda>v m. m\<lparr>LuldAuctionCollar.auction_collar_reference_price := v\<rparr>),
     F_u32 LuldAuctionCollar.upper_auction_collar_price (\<lambda>v m. m\<lparr>LuldAuctionCollar.upper_auction_collar_price := v\<rparr>),
     F_u32 LuldAuctionCollar.lower_auction_collar_price (\<lambda>v m. m\<lparr>LuldAuctionCollar.lower_auction_collar_price := v\<rparr>),
     F_u32 LuldAuctionCollar.auction_collar_extension (\<lambda>v m. m\<lparr>LuldAuctionCollar.auction_collar_extension := v\<rparr>)]"

definition LuldAuctionCollar_uninit :: LuldAuctionCollar where
  "LuldAuctionCollar_uninit = \<lparr>
     LuldAuctionCollar.stock_locate = 0,
     LuldAuctionCollar.tracking_number = 0,
     LuldAuctionCollar.timestamp = 0,
     LuldAuctionCollar.stock = replicate 8 (CHR 0x00),
     LuldAuctionCollar.auction_collar_reference_price = 0,
     LuldAuctionCollar.upper_auction_collar_price = 0,
     LuldAuctionCollar.lower_auction_collar_price = 0,
     LuldAuctionCollar.auction_collar_extension = 0\<rparr>"

record OperationalHalt =
  stock_locate :: u16
  tracking_number :: u16
  timestamp :: u64
  stock :: string
  market_code :: char
  operational_halt_action :: char

definition OperationalHaltLayout :: "OperationalHalt Field list" where
  "OperationalHaltLayout = [
     F_u16 OperationalHalt.stock_locate (\<lambda>v m. m\<lparr>OperationalHalt.stock_locate := v\<rparr>),
     F_u16 OperationalHalt.tracking_number (\<lambda>v m. m\<lparr>OperationalHalt.tracking_number := v\<rparr>),
     F_be48 OperationalHalt.timestamp (\<lambda>v m. m\<lparr>OperationalHalt.timestamp := v\<rparr>),
     F_array 8 OperationalHalt.stock (\<lambda>v m. m\<lparr>OperationalHalt.stock := v\<rparr>),
     F_char OperationalHalt.market_code (\<lambda>v m. m\<lparr>OperationalHalt.market_code := v\<rparr>),
     F_char OperationalHalt.operational_halt_action (\<lambda>v m. m\<lparr>OperationalHalt.operational_halt_action := v\<rparr>)]"

definition OperationalHalt_uninit :: OperationalHalt where
  "OperationalHalt_uninit = \<lparr>
     OperationalHalt.stock_locate = 0,
     OperationalHalt.tracking_number = 0,
     OperationalHalt.timestamp = 0,
     OperationalHalt.stock = replicate 8 (CHR 0x00),
     OperationalHalt.market_code = CHR 0x00,
     OperationalHalt.operational_halt_action = CHR 0x00\<rparr>"

record AddOrderNoMpid =
  stock_locate :: u16
  tracking_number :: u16
  timestamp :: u64
  order_reference_number :: u64
  buy_sell :: char
  shares :: u32
  stock :: string
  price :: u32

definition AddOrderNoMpidLayout :: "AddOrderNoMpid Field list" where
  "AddOrderNoMpidLayout = [
     F_u16 AddOrderNoMpid.stock_locate (\<lambda>v m. m\<lparr>AddOrderNoMpid.stock_locate := v\<rparr>),
     F_u16 AddOrderNoMpid.tracking_number (\<lambda>v m. m\<lparr>AddOrderNoMpid.tracking_number := v\<rparr>),
     F_be48 AddOrderNoMpid.timestamp (\<lambda>v m. m\<lparr>AddOrderNoMpid.timestamp := v\<rparr>),
     F_u64 AddOrderNoMpid.order_reference_number (\<lambda>v m. m\<lparr>AddOrderNoMpid.order_reference_number := v\<rparr>),
     F_char AddOrderNoMpid.buy_sell (\<lambda>v m. m\<lparr>AddOrderNoMpid.buy_sell := v\<rparr>),
     F_u32 AddOrderNoMpid.shares (\<lambda>v m. m\<lparr>AddOrderNoMpid.shares := v\<rparr>),
     F_array 8 AddOrderNoMpid.stock (\<lambda>v m. m\<lparr>AddOrderNoMpid.stock := v\<rparr>),
     F_u32 AddOrderNoMpid.price (\<lambda>v m. m\<lparr>AddOrderNoMpid.price := v\<rparr>)]"

definition AddOrderNoMpid_uninit :: AddOrderNoMpid where
  "AddOrderNoMpid_uninit = \<lparr>
     AddOrderNoMpid.stock_locate = 0,
     AddOrderNoMpid.tracking_number = 0,
     AddOrderNoMpid.timestamp = 0,
     AddOrderNoMpid.order_reference_number = 0,
     AddOrderNoMpid.buy_sell = CHR 0x00,
     AddOrderNoMpid.shares = 0,
     AddOrderNoMpid.stock = replicate 8 (CHR 0x00),
     AddOrderNoMpid.price = 0\<rparr>"

record AddOrderMpid =
  stock_locate :: u16
  tracking_number :: u16
  timestamp :: u64
  order_reference_number :: u64
  buy_sell :: char
  shares :: u32
  stock :: string
  price :: u32
  attribution :: string

definition AddOrderMpidLayout :: "AddOrderMpid Field list" where
  "AddOrderMpidLayout = [
     F_u16 AddOrderMpid.stock_locate (\<lambda>v m. m\<lparr>AddOrderMpid.stock_locate := v\<rparr>),
     F_u16 AddOrderMpid.tracking_number (\<lambda>v m. m\<lparr>AddOrderMpid.tracking_number := v\<rparr>),
     F_be48 AddOrderMpid.timestamp (\<lambda>v m. m\<lparr>AddOrderMpid.timestamp := v\<rparr>),
     F_u64 AddOrderMpid.order_reference_number (\<lambda>v m. m\<lparr>AddOrderMpid.order_reference_number := v\<rparr>),
     F_char AddOrderMpid.buy_sell (\<lambda>v m. m\<lparr>AddOrderMpid.buy_sell := v\<rparr>),
     F_u32 AddOrderMpid.shares (\<lambda>v m. m\<lparr>AddOrderMpid.shares := v\<rparr>),
     F_array 8 AddOrderMpid.stock (\<lambda>v m. m\<lparr>AddOrderMpid.stock := v\<rparr>),
     F_u32 AddOrderMpid.price (\<lambda>v m. m\<lparr>AddOrderMpid.price := v\<rparr>),
     F_array 4 AddOrderMpid.attribution (\<lambda>v m. m\<lparr>AddOrderMpid.attribution := v\<rparr>)]"

definition AddOrderMpid_uninit :: AddOrderMpid where
  "AddOrderMpid_uninit = \<lparr>
     AddOrderMpid.stock_locate = 0,
     AddOrderMpid.tracking_number = 0,
     AddOrderMpid.timestamp = 0,
     AddOrderMpid.order_reference_number = 0,
     AddOrderMpid.buy_sell = CHR 0x00,
     AddOrderMpid.shares = 0,
     AddOrderMpid.stock = replicate 8 (CHR 0x00),
     AddOrderMpid.price = 0,
     AddOrderMpid.attribution = replicate 4 (CHR 0x00)\<rparr>"

record OrderExecuted =
  stock_locate :: u16
  tracking_number :: u16
  timestamp :: u64
  order_reference_number :: u64
  executed_shares :: u32
  match_number :: u64

definition OrderExecutedLayout :: "OrderExecuted Field list" where
  "OrderExecutedLayout = [
     F_u16 OrderExecuted.stock_locate (\<lambda>v m. m\<lparr>OrderExecuted.stock_locate := v\<rparr>),
     F_u16 OrderExecuted.tracking_number (\<lambda>v m. m\<lparr>OrderExecuted.tracking_number := v\<rparr>),
     F_be48 OrderExecuted.timestamp (\<lambda>v m. m\<lparr>OrderExecuted.timestamp := v\<rparr>),
     F_u64 OrderExecuted.order_reference_number (\<lambda>v m. m\<lparr>OrderExecuted.order_reference_number := v\<rparr>),
     F_u32 OrderExecuted.executed_shares (\<lambda>v m. m\<lparr>OrderExecuted.executed_shares := v\<rparr>),
     F_u64 OrderExecuted.match_number (\<lambda>v m. m\<lparr>OrderExecuted.match_number := v\<rparr>)]"

definition OrderExecuted_uninit :: OrderExecuted where
  "OrderExecuted_uninit = \<lparr>
     OrderExecuted.stock_locate = 0,
     OrderExecuted.tracking_number = 0,
     OrderExecuted.timestamp = 0,
     OrderExecuted.order_reference_number = 0,
     OrderExecuted.executed_shares = 0,
     OrderExecuted.match_number = 0\<rparr>"

record OrderExecutedPrice =
  stock_locate :: u16
  tracking_number :: u16
  timestamp :: u64
  order_reference_number :: u64
  executed_shares :: u32
  match_number :: u64
  printable :: char
  execution_price :: u32

definition OrderExecutedPriceLayout :: "OrderExecutedPrice Field list" where
  "OrderExecutedPriceLayout = [
     F_u16 OrderExecutedPrice.stock_locate (\<lambda>v m. m\<lparr>OrderExecutedPrice.stock_locate := v\<rparr>),
     F_u16 OrderExecutedPrice.tracking_number (\<lambda>v m. m\<lparr>OrderExecutedPrice.tracking_number := v\<rparr>),
     F_be48 OrderExecutedPrice.timestamp (\<lambda>v m. m\<lparr>OrderExecutedPrice.timestamp := v\<rparr>),
     F_u64 OrderExecutedPrice.order_reference_number (\<lambda>v m. m\<lparr>OrderExecutedPrice.order_reference_number := v\<rparr>),
     F_u32 OrderExecutedPrice.executed_shares (\<lambda>v m. m\<lparr>OrderExecutedPrice.executed_shares := v\<rparr>),
     F_u64 OrderExecutedPrice.match_number (\<lambda>v m. m\<lparr>OrderExecutedPrice.match_number := v\<rparr>),
     F_char OrderExecutedPrice.printable (\<lambda>v m. m\<lparr>OrderExecutedPrice.printable := v\<rparr>),
     F_u32 OrderExecutedPrice.execution_price (\<lambda>v m. m\<lparr>OrderExecutedPrice.execution_price := v\<rparr>)]"

definition OrderExecutedPrice_uninit :: OrderExecutedPrice where
  "OrderExecutedPrice_uninit = \<lparr>
     OrderExecutedPrice.stock_locate = 0,
     OrderExecutedPrice.tracking_number = 0,
     OrderExecutedPrice.timestamp = 0,
     OrderExecutedPrice.order_reference_number = 0,
     OrderExecutedPrice.executed_shares = 0,
     OrderExecutedPrice.match_number = 0,
     OrderExecutedPrice.printable = CHR 0x00,
     OrderExecutedPrice.execution_price = 0\<rparr>"

record OrderCancel =
  stock_locate :: u16
  tracking_number :: u16
  timestamp :: u64
  order_reference_number :: u64
  cancelled_shares :: u32

definition OrderCancelLayout :: "OrderCancel Field list" where
  "OrderCancelLayout = [
     F_u16 OrderCancel.stock_locate (\<lambda>v m. m\<lparr>OrderCancel.stock_locate := v\<rparr>),
     F_u16 OrderCancel.tracking_number (\<lambda>v m. m\<lparr>OrderCancel.tracking_number := v\<rparr>),
     F_be48 OrderCancel.timestamp (\<lambda>v m. m\<lparr>OrderCancel.timestamp := v\<rparr>),
     F_u64 OrderCancel.order_reference_number (\<lambda>v m. m\<lparr>OrderCancel.order_reference_number := v\<rparr>),
     F_u32 OrderCancel.cancelled_shares (\<lambda>v m. m\<lparr>OrderCancel.cancelled_shares := v\<rparr>)]"

definition OrderCancel_uninit :: OrderCancel where
  "OrderCancel_uninit = \<lparr>
     OrderCancel.stock_locate = 0,
     OrderCancel.tracking_number = 0,
     OrderCancel.timestamp = 0,
     OrderCancel.order_reference_number = 0,
     OrderCancel.cancelled_shares = 0\<rparr>"

record OrderDelete =
  stock_locate :: u16
  tracking_number :: u16
  timestamp :: u64
  order_reference_number :: u64

definition OrderDeleteLayout :: "OrderDelete Field list" where
  "OrderDeleteLayout = [
     F_u16 OrderDelete.stock_locate (\<lambda>v m. m\<lparr>OrderDelete.stock_locate := v\<rparr>),
     F_u16 OrderDelete.tracking_number (\<lambda>v m. m\<lparr>OrderDelete.tracking_number := v\<rparr>),
     F_be48 OrderDelete.timestamp (\<lambda>v m. m\<lparr>OrderDelete.timestamp := v\<rparr>),
     F_u64 OrderDelete.order_reference_number (\<lambda>v m. m\<lparr>OrderDelete.order_reference_number := v\<rparr>)]"

definition OrderDelete_uninit :: OrderDelete where
  "OrderDelete_uninit = \<lparr>
     OrderDelete.stock_locate = 0,
     OrderDelete.tracking_number = 0,
     OrderDelete.timestamp = 0,
     OrderDelete.order_reference_number = 0\<rparr>"

record OrderReplace =
  stock_locate :: u16
  tracking_number :: u16
  timestamp :: u64
  order_reference_number :: u64
  new_reference_number :: u64
  shares :: u32
  price :: u32

definition OrderReplaceLayout :: "OrderReplace Field list" where
  "OrderReplaceLayout = [
     F_u16 OrderReplace.stock_locate (\<lambda>v m. m\<lparr>OrderReplace.stock_locate := v\<rparr>),
     F_u16 OrderReplace.tracking_number (\<lambda>v m. m\<lparr>OrderReplace.tracking_number := v\<rparr>),
     F_be48 OrderReplace.timestamp (\<lambda>v m. m\<lparr>OrderReplace.timestamp := v\<rparr>),
     F_u64 OrderReplace.order_reference_number (\<lambda>v m. m\<lparr>OrderReplace.order_reference_number := v\<rparr>),
     F_u64 OrderReplace.new_reference_number (\<lambda>v m. m\<lparr>OrderReplace.new_reference_number := v\<rparr>),
     F_u32 OrderReplace.shares (\<lambda>v m. m\<lparr>OrderReplace.shares := v\<rparr>),
     F_u32 OrderReplace.price (\<lambda>v m. m\<lparr>OrderReplace.price := v\<rparr>)]"

definition OrderReplace_uninit :: OrderReplace where
  "OrderReplace_uninit = \<lparr>
     OrderReplace.stock_locate = 0,
     OrderReplace.tracking_number = 0,
     OrderReplace.timestamp = 0,
     OrderReplace.order_reference_number = 0,
     OrderReplace.new_reference_number = 0,
     OrderReplace.shares = 0,
     OrderReplace.price = 0\<rparr>"

record TradeMessageNonCross =
  stock_locate :: u16
  tracking_number :: u16
  timestamp :: u64
  order_reference_number :: u64
  buy_sell :: char
  shares :: u32
  stock :: string
  price :: u32
  match_number :: u64

definition TradeMessageNonCrossLayout :: "TradeMessageNonCross Field list" where
  "TradeMessageNonCrossLayout = [
     F_u16 TradeMessageNonCross.stock_locate (\<lambda>v m. m\<lparr>TradeMessageNonCross.stock_locate := v\<rparr>),
     F_u16 TradeMessageNonCross.tracking_number (\<lambda>v m. m\<lparr>TradeMessageNonCross.tracking_number := v\<rparr>),
     F_be48 TradeMessageNonCross.timestamp (\<lambda>v m. m\<lparr>TradeMessageNonCross.timestamp := v\<rparr>),
     F_u64 TradeMessageNonCross.order_reference_number (\<lambda>v m. m\<lparr>TradeMessageNonCross.order_reference_number := v\<rparr>),
     F_char TradeMessageNonCross.buy_sell (\<lambda>v m. m\<lparr>TradeMessageNonCross.buy_sell := v\<rparr>),
     F_u32 TradeMessageNonCross.shares (\<lambda>v m. m\<lparr>TradeMessageNonCross.shares := v\<rparr>),
     F_array 8 TradeMessageNonCross.stock (\<lambda>v m. m\<lparr>TradeMessageNonCross.stock := v\<rparr>),
     F_u32 TradeMessageNonCross.price (\<lambda>v m. m\<lparr>TradeMessageNonCross.price := v\<rparr>),
     F_u64 TradeMessageNonCross.match_number (\<lambda>v m. m\<lparr>TradeMessageNonCross.match_number := v\<rparr>)]"

definition TradeMessageNonCross_uninit :: TradeMessageNonCross where
  "TradeMessageNonCross_uninit = \<lparr>
     TradeMessageNonCross.stock_locate = 0,
     TradeMessageNonCross.tracking_number = 0,
     TradeMessageNonCross.timestamp = 0,
     TradeMessageNonCross.order_reference_number = 0,
     TradeMessageNonCross.buy_sell = CHR 0x00,
     TradeMessageNonCross.shares = 0,
     TradeMessageNonCross.stock = replicate 8 (CHR 0x00),
     TradeMessageNonCross.price = 0,
     TradeMessageNonCross.match_number = 0\<rparr>"

record TradeMessageCross =
  stock_locate :: u16
  tracking_number :: u16
  timestamp :: u64
  shares :: u32
  stock :: string
  cross_price :: u32
  match_number :: u64
  cross_type :: char

definition TradeMessageCrossLayout :: "TradeMessageCross Field list" where
  "TradeMessageCrossLayout = [
     F_u16 TradeMessageCross.stock_locate (\<lambda>v m. m\<lparr>TradeMessageCross.stock_locate := v\<rparr>),
     F_u16 TradeMessageCross.tracking_number (\<lambda>v m. m\<lparr>TradeMessageCross.tracking_number := v\<rparr>),
     F_be48 TradeMessageCross.timestamp (\<lambda>v m. m\<lparr>TradeMessageCross.timestamp := v\<rparr>),
     F_u32 TradeMessageCross.shares (\<lambda>v m. m\<lparr>TradeMessageCross.shares := v\<rparr>),
     F_array 8 TradeMessageCross.stock (\<lambda>v m. m\<lparr>TradeMessageCross.stock := v\<rparr>),
     F_u32 TradeMessageCross.cross_price (\<lambda>v m. m\<lparr>TradeMessageCross.cross_price := v\<rparr>),
     F_u64 TradeMessageCross.match_number (\<lambda>v m. m\<lparr>TradeMessageCross.match_number := v\<rparr>),
     F_char TradeMessageCross.cross_type (\<lambda>v m. m\<lparr>TradeMessageCross.cross_type := v\<rparr>)]"

definition TradeMessageCross_uninit :: TradeMessageCross where
  "TradeMessageCross_uninit = \<lparr>
     TradeMessageCross.stock_locate = 0,
     TradeMessageCross.tracking_number = 0,
     TradeMessageCross.timestamp = 0,
     TradeMessageCross.shares = 0,
     TradeMessageCross.stock = replicate 8 (CHR 0x00),
     TradeMessageCross.cross_price = 0,
     TradeMessageCross.match_number = 0,
     TradeMessageCross.cross_type = CHR 0x00\<rparr>"

record BrokenTrade =
  stock_locate :: u16
  tracking_number :: u16
  timestamp :: u64
  match_number :: u64

definition BrokenTradeLayout :: "BrokenTrade Field list" where
  "BrokenTradeLayout = [
     F_u16 BrokenTrade.stock_locate (\<lambda>v m. m\<lparr>BrokenTrade.stock_locate := v\<rparr>),
     F_u16 BrokenTrade.tracking_number (\<lambda>v m. m\<lparr>BrokenTrade.tracking_number := v\<rparr>),
     F_be48 BrokenTrade.timestamp (\<lambda>v m. m\<lparr>BrokenTrade.timestamp := v\<rparr>),
     F_u64 BrokenTrade.match_number (\<lambda>v m. m\<lparr>BrokenTrade.match_number := v\<rparr>)]"

definition BrokenTrade_uninit :: BrokenTrade where
  "BrokenTrade_uninit = \<lparr>
     BrokenTrade.stock_locate = 0,
     BrokenTrade.tracking_number = 0,
     BrokenTrade.timestamp = 0,
     BrokenTrade.match_number = 0\<rparr>"

record Noii =
  stock_locate :: u16
  tracking_number :: u16
  timestamp :: u64
  paired_shares :: u64
  imbalance_shares :: u64
  imbalance_direction :: char
  stock :: string
  far_price :: u32
  near_price :: u32
  current_reference_price :: u32
  cross_type :: char
  price_variation_indicator :: char

definition NoiiLayout :: "Noii Field list" where
  "NoiiLayout = [
     F_u16 Noii.stock_locate (\<lambda>v m. m\<lparr>Noii.stock_locate := v\<rparr>),
     F_u16 Noii.tracking_number (\<lambda>v m. m\<lparr>Noii.tracking_number := v\<rparr>),
     F_be48 Noii.timestamp (\<lambda>v m. m\<lparr>Noii.timestamp := v\<rparr>),
     F_u64 Noii.paired_shares (\<lambda>v m. m\<lparr>Noii.paired_shares := v\<rparr>),
     F_u64 Noii.imbalance_shares (\<lambda>v m. m\<lparr>Noii.imbalance_shares := v\<rparr>),
     F_char Noii.imbalance_direction (\<lambda>v m. m\<lparr>Noii.imbalance_direction := v\<rparr>),
     F_array 8 Noii.stock (\<lambda>v m. m\<lparr>Noii.stock := v\<rparr>),
     F_u32 Noii.far_price (\<lambda>v m. m\<lparr>Noii.far_price := v\<rparr>),
     F_u32 Noii.near_price (\<lambda>v m. m\<lparr>Noii.near_price := v\<rparr>),
     F_u32 Noii.current_reference_price (\<lambda>v m. m\<lparr>Noii.current_reference_price := v\<rparr>),
     F_char Noii.cross_type (\<lambda>v m. m\<lparr>Noii.cross_type := v\<rparr>),
     F_char Noii.price_variation_indicator (\<lambda>v m. m\<lparr>Noii.price_variation_indicator := v\<rparr>)]"

definition Noii_uninit :: Noii where
  "Noii_uninit = \<lparr>
     Noii.stock_locate = 0,
     Noii.tracking_number = 0,
     Noii.timestamp = 0,
     Noii.paired_shares = 0,
     Noii.imbalance_shares = 0,
     Noii.imbalance_direction = CHR 0x00,
     Noii.stock = replicate 8 (CHR 0x00),
     Noii.far_price = 0,
     Noii.near_price = 0,
     Noii.current_reference_price = 0,
     Noii.cross_type = CHR 0x00,
     Noii.price_variation_indicator = CHR 0x00\<rparr>"

record DirectListingCapitalRaise =
  stock_locate :: u16
  tracking_number :: u16
  timestamp :: u64
  stock :: string
  open_eligibility_status :: char
  minimum_allowable_price :: u32
  maximum_allowable_price :: u32
  near_execution_price :: u32
  near_execution_time :: u64
  lower_price_range_collar :: u32
  upper_price_range_collar :: u32

definition DirectListingCapitalRaiseLayout :: "DirectListingCapitalRaise Field list" where
  "DirectListingCapitalRaiseLayout = [
     F_u16 DirectListingCapitalRaise.stock_locate (\<lambda>v m. m\<lparr>DirectListingCapitalRaise.stock_locate := v\<rparr>),
     F_u16 DirectListingCapitalRaise.tracking_number (\<lambda>v m. m\<lparr>DirectListingCapitalRaise.tracking_number := v\<rparr>),
     F_be48 DirectListingCapitalRaise.timestamp (\<lambda>v m. m\<lparr>DirectListingCapitalRaise.timestamp := v\<rparr>),
     F_array 8 DirectListingCapitalRaise.stock (\<lambda>v m. m\<lparr>DirectListingCapitalRaise.stock := v\<rparr>),
     F_char DirectListingCapitalRaise.open_eligibility_status (\<lambda>v m. m\<lparr>DirectListingCapitalRaise.open_eligibility_status := v\<rparr>),
     F_u32 DirectListingCapitalRaise.minimum_allowable_price (\<lambda>v m. m\<lparr>DirectListingCapitalRaise.minimum_allowable_price := v\<rparr>),
     F_u32 DirectListingCapitalRaise.maximum_allowable_price (\<lambda>v m. m\<lparr>DirectListingCapitalRaise.maximum_allowable_price := v\<rparr>),
     F_u32 DirectListingCapitalRaise.near_execution_price (\<lambda>v m. m\<lparr>DirectListingCapitalRaise.near_execution_price := v\<rparr>),
     F_u64 DirectListingCapitalRaise.near_execution_time (\<lambda>v m. m\<lparr>DirectListingCapitalRaise.near_execution_time := v\<rparr>),
     F_u32 DirectListingCapitalRaise.lower_price_range_collar (\<lambda>v m. m\<lparr>DirectListingCapitalRaise.lower_price_range_collar := v\<rparr>),
     F_u32 DirectListingCapitalRaise.upper_price_range_collar (\<lambda>v m. m\<lparr>DirectListingCapitalRaise.upper_price_range_collar := v\<rparr>)]"

definition DirectListingCapitalRaise_uninit :: DirectListingCapitalRaise where
  "DirectListingCapitalRaise_uninit = \<lparr>
     DirectListingCapitalRaise.stock_locate = 0,
     DirectListingCapitalRaise.tracking_number = 0,
     DirectListingCapitalRaise.timestamp = 0,
     DirectListingCapitalRaise.stock = replicate 8 (CHR 0x00),
     DirectListingCapitalRaise.open_eligibility_status = CHR 0x00,
     DirectListingCapitalRaise.minimum_allowable_price = 0,
     DirectListingCapitalRaise.maximum_allowable_price = 0,
     DirectListingCapitalRaise.near_execution_price = 0,
     DirectListingCapitalRaise.near_execution_time = 0,
     DirectListingCapitalRaise.lower_price_range_collar = 0,
     DirectListingCapitalRaise.upper_price_range_collar = 0\<rparr>"

section \<open>The message types as one sum\<close>

datatype itch_msg =
    Msg_SystemEvent SystemEvent
  | Msg_StockDirectory StockDirectory
  | Msg_TradingAction TradingAction
  | Msg_RegSho RegSho
  | Msg_MarketParticipantPos MarketParticipantPos
  | Msg_MwcbDeclineLevel MwcbDeclineLevel
  | Msg_MwcbStatus MwcbStatus
  | Msg_IpoQuotationPeriodUpd IpoQuotationPeriodUpd
  | Msg_LuldAuctionCollar LuldAuctionCollar
  | Msg_OperationalHalt OperationalHalt
  | Msg_AddOrderNoMpid AddOrderNoMpid
  | Msg_AddOrderMpid AddOrderMpid
  | Msg_OrderExecuted OrderExecuted
  | Msg_OrderExecutedPrice OrderExecutedPrice
  | Msg_OrderCancel OrderCancel
  | Msg_OrderDelete OrderDelete
  | Msg_OrderReplace OrderReplace
  | Msg_TradeMessageNonCross TradeMessageNonCross
  | Msg_TradeMessageCross TradeMessageCross
  | Msg_BrokenTrade BrokenTrade
  | Msg_Noii Noii
  | Msg_DirectListingCapitalRaise DirectListingCapitalRaise

fun encode_msg :: "itch_msg \<Rightarrow> byte list" where
  "encode_msg (Msg_SystemEvent m) = encode SystemEventLayout m"
| "encode_msg (Msg_StockDirectory m) = encode StockDirectoryLayout m"
| "encode_msg (Msg_TradingAction m) = encode TradingActionLayout m"
| "encode_msg (Msg_RegSho m) = encode RegShoLayout m"
| "encode_msg (Msg_MarketParticipantPos m) = encode MarketParticipantPosLayout m"
| "encode_msg (Msg_MwcbDeclineLevel m) = encode MwcbDeclineLevelLayout m"
| "encode_msg (Msg_MwcbStatus m) = encode MwcbStatusLayout m"
| "encode_msg (Msg_IpoQuotationPeriodUpd m) = encode IpoQuotationPeriodUpdLayout m"
| "encode_msg (Msg_LuldAuctionCollar m) = encode LuldAuctionCollarLayout m"
| "encode_msg (Msg_OperationalHalt m) = encode OperationalHaltLayout m"
| "encode_msg (Msg_AddOrderNoMpid m) = encode AddOrderNoMpidLayout m"
| "encode_msg (Msg_AddOrderMpid m) = encode AddOrderMpidLayout m"
| "encode_msg (Msg_OrderExecuted m) = encode OrderExecutedLayout m"
| "encode_msg (Msg_OrderExecutedPrice m) = encode OrderExecutedPriceLayout m"
| "encode_msg (Msg_OrderCancel m) = encode OrderCancelLayout m"
| "encode_msg (Msg_OrderDelete m) = encode OrderDeleteLayout m"
| "encode_msg (Msg_OrderReplace m) = encode OrderReplaceLayout m"
| "encode_msg (Msg_TradeMessageNonCross m) = encode TradeMessageNonCrossLayout m"
| "encode_msg (Msg_TradeMessageCross m) = encode TradeMessageCrossLayout m"
| "encode_msg (Msg_BrokenTrade m) = encode BrokenTradeLayout m"
| "encode_msg (Msg_Noii m) = encode NoiiLayout m"
| "encode_msg (Msg_DirectListingCapitalRaise m) = encode DirectListingCapitalRaiseLayout m"

fun msg_ok :: "itch_msg \<Rightarrow> bool" where
  "msg_ok (Msg_SystemEvent m) = list_all (field_ok m) SystemEventLayout"
| "msg_ok (Msg_StockDirectory m) = list_all (field_ok m) StockDirectoryLayout"
| "msg_ok (Msg_TradingAction m) = list_all (field_ok m) TradingActionLayout"
| "msg_ok (Msg_RegSho m) = list_all (field_ok m) RegShoLayout"
| "msg_ok (Msg_MarketParticipantPos m) = list_all (field_ok m) MarketParticipantPosLayout"
| "msg_ok (Msg_MwcbDeclineLevel m) = list_all (field_ok m) MwcbDeclineLevelLayout"
| "msg_ok (Msg_MwcbStatus m) = list_all (field_ok m) MwcbStatusLayout"
| "msg_ok (Msg_IpoQuotationPeriodUpd m) = list_all (field_ok m) IpoQuotationPeriodUpdLayout"
| "msg_ok (Msg_LuldAuctionCollar m) = list_all (field_ok m) LuldAuctionCollarLayout"
| "msg_ok (Msg_OperationalHalt m) = list_all (field_ok m) OperationalHaltLayout"
| "msg_ok (Msg_AddOrderNoMpid m) = list_all (field_ok m) AddOrderNoMpidLayout"
| "msg_ok (Msg_AddOrderMpid m) = list_all (field_ok m) AddOrderMpidLayout"
| "msg_ok (Msg_OrderExecuted m) = list_all (field_ok m) OrderExecutedLayout"
| "msg_ok (Msg_OrderExecutedPrice m) = list_all (field_ok m) OrderExecutedPriceLayout"
| "msg_ok (Msg_OrderCancel m) = list_all (field_ok m) OrderCancelLayout"
| "msg_ok (Msg_OrderDelete m) = list_all (field_ok m) OrderDeleteLayout"
| "msg_ok (Msg_OrderReplace m) = list_all (field_ok m) OrderReplaceLayout"
| "msg_ok (Msg_TradeMessageNonCross m) = list_all (field_ok m) TradeMessageNonCrossLayout"
| "msg_ok (Msg_TradeMessageCross m) = list_all (field_ok m) TradeMessageCrossLayout"
| "msg_ok (Msg_BrokenTrade m) = list_all (field_ok m) BrokenTradeLayout"
| "msg_ok (Msg_Noii m) = list_all (field_ok m) NoiiLayout"
| "msg_ok (Msg_DirectListingCapitalRaise m) = list_all (field_ok m) DirectListingCapitalRaiseLayout"

fun msg_size :: "itch_msg \<Rightarrow> nat" where
  "msg_size (Msg_SystemEvent m) = layout_size SystemEventLayout"
| "msg_size (Msg_StockDirectory m) = layout_size StockDirectoryLayout"
| "msg_size (Msg_TradingAction m) = layout_size TradingActionLayout"
| "msg_size (Msg_RegSho m) = layout_size RegShoLayout"
| "msg_size (Msg_MarketParticipantPos m) = layout_size MarketParticipantPosLayout"
| "msg_size (Msg_MwcbDeclineLevel m) = layout_size MwcbDeclineLevelLayout"
| "msg_size (Msg_MwcbStatus m) = layout_size MwcbStatusLayout"
| "msg_size (Msg_IpoQuotationPeriodUpd m) = layout_size IpoQuotationPeriodUpdLayout"
| "msg_size (Msg_LuldAuctionCollar m) = layout_size LuldAuctionCollarLayout"
| "msg_size (Msg_OperationalHalt m) = layout_size OperationalHaltLayout"
| "msg_size (Msg_AddOrderNoMpid m) = layout_size AddOrderNoMpidLayout"
| "msg_size (Msg_AddOrderMpid m) = layout_size AddOrderMpidLayout"
| "msg_size (Msg_OrderExecuted m) = layout_size OrderExecutedLayout"
| "msg_size (Msg_OrderExecutedPrice m) = layout_size OrderExecutedPriceLayout"
| "msg_size (Msg_OrderCancel m) = layout_size OrderCancelLayout"
| "msg_size (Msg_OrderDelete m) = layout_size OrderDeleteLayout"
| "msg_size (Msg_OrderReplace m) = layout_size OrderReplaceLayout"
| "msg_size (Msg_TradeMessageNonCross m) = layout_size TradeMessageNonCrossLayout"
| "msg_size (Msg_TradeMessageCross m) = layout_size TradeMessageCrossLayout"
| "msg_size (Msg_BrokenTrade m) = layout_size BrokenTradeLayout"
| "msg_size (Msg_Noii m) = layout_size NoiiLayout"
| "msg_size (Msg_DirectListingCapitalRaise m) = layout_size DirectListingCapitalRaiseLayout"

text \<open>The message as the parser delivers it: every member as sent, but for the timestamp.\<close>

fun as_loaded :: "itch_msg \<Rightarrow> itch_msg" where
  "as_loaded (Msg_SystemEvent m) =
     Msg_SystemEvent (m\<lparr>SystemEvent.timestamp := be48_as_loaded (SystemEvent.timestamp m)\<rparr>)"
| "as_loaded (Msg_StockDirectory m) =
     Msg_StockDirectory (m\<lparr>StockDirectory.timestamp := be48_as_loaded (StockDirectory.timestamp m)\<rparr>)"
| "as_loaded (Msg_TradingAction m) =
     Msg_TradingAction (m\<lparr>TradingAction.timestamp := be48_as_loaded (TradingAction.timestamp m)\<rparr>)"
| "as_loaded (Msg_RegSho m) =
     Msg_RegSho (m\<lparr>RegSho.timestamp := be48_as_loaded (RegSho.timestamp m)\<rparr>)"
| "as_loaded (Msg_MarketParticipantPos m) =
     Msg_MarketParticipantPos (m\<lparr>MarketParticipantPos.timestamp := be48_as_loaded (MarketParticipantPos.timestamp m)\<rparr>)"
| "as_loaded (Msg_MwcbDeclineLevel m) =
     Msg_MwcbDeclineLevel (m\<lparr>MwcbDeclineLevel.timestamp := be48_as_loaded (MwcbDeclineLevel.timestamp m)\<rparr>)"
| "as_loaded (Msg_MwcbStatus m) =
     Msg_MwcbStatus (m\<lparr>MwcbStatus.timestamp := be48_as_loaded (MwcbStatus.timestamp m)\<rparr>)"
| "as_loaded (Msg_IpoQuotationPeriodUpd m) =
     Msg_IpoQuotationPeriodUpd (m\<lparr>IpoQuotationPeriodUpd.timestamp := be48_as_loaded (IpoQuotationPeriodUpd.timestamp m)\<rparr>)"
| "as_loaded (Msg_LuldAuctionCollar m) =
     Msg_LuldAuctionCollar (m\<lparr>LuldAuctionCollar.timestamp := be48_as_loaded (LuldAuctionCollar.timestamp m)\<rparr>)"
| "as_loaded (Msg_OperationalHalt m) =
     Msg_OperationalHalt (m\<lparr>OperationalHalt.timestamp := be48_as_loaded (OperationalHalt.timestamp m)\<rparr>)"
| "as_loaded (Msg_AddOrderNoMpid m) =
     Msg_AddOrderNoMpid (m\<lparr>AddOrderNoMpid.timestamp := be48_as_loaded (AddOrderNoMpid.timestamp m)\<rparr>)"
| "as_loaded (Msg_AddOrderMpid m) =
     Msg_AddOrderMpid (m\<lparr>AddOrderMpid.timestamp := be48_as_loaded (AddOrderMpid.timestamp m)\<rparr>)"
| "as_loaded (Msg_OrderExecuted m) =
     Msg_OrderExecuted (m\<lparr>OrderExecuted.timestamp := be48_as_loaded (OrderExecuted.timestamp m)\<rparr>)"
| "as_loaded (Msg_OrderExecutedPrice m) =
     Msg_OrderExecutedPrice (m\<lparr>OrderExecutedPrice.timestamp := be48_as_loaded (OrderExecutedPrice.timestamp m)\<rparr>)"
| "as_loaded (Msg_OrderCancel m) =
     Msg_OrderCancel (m\<lparr>OrderCancel.timestamp := be48_as_loaded (OrderCancel.timestamp m)\<rparr>)"
| "as_loaded (Msg_OrderDelete m) =
     Msg_OrderDelete (m\<lparr>OrderDelete.timestamp := be48_as_loaded (OrderDelete.timestamp m)\<rparr>)"
| "as_loaded (Msg_OrderReplace m) =
     Msg_OrderReplace (m\<lparr>OrderReplace.timestamp := be48_as_loaded (OrderReplace.timestamp m)\<rparr>)"
| "as_loaded (Msg_TradeMessageNonCross m) =
     Msg_TradeMessageNonCross (m\<lparr>TradeMessageNonCross.timestamp := be48_as_loaded (TradeMessageNonCross.timestamp m)\<rparr>)"
| "as_loaded (Msg_TradeMessageCross m) =
     Msg_TradeMessageCross (m\<lparr>TradeMessageCross.timestamp := be48_as_loaded (TradeMessageCross.timestamp m)\<rparr>)"
| "as_loaded (Msg_BrokenTrade m) =
     Msg_BrokenTrade (m\<lparr>BrokenTrade.timestamp := be48_as_loaded (BrokenTrade.timestamp m)\<rparr>)"
| "as_loaded (Msg_Noii m) =
     Msg_Noii (m\<lparr>Noii.timestamp := be48_as_loaded (Noii.timestamp m)\<rparr>)"
| "as_loaded (Msg_DirectListingCapitalRaise m) =
     Msg_DirectListingCapitalRaise (m\<lparr>DirectListingCapitalRaise.timestamp := be48_as_loaded (DirectListingCapitalRaise.timestamp m)\<rparr>)"

section \<open>Every layout assigns every member\<close>

lemma copy_SystemEvent [layout_copies]:
  "copy_fields SystemEventLayout m m0 = m\<lparr>SystemEvent.timestamp := be48_as_loaded (SystemEvent.timestamp m)\<rparr>"
  by (cases m; cases m0) (simp add: SystemEventLayout_def copy_fields_def)

lemma copy_StockDirectory [layout_copies]:
  "copy_fields StockDirectoryLayout m m0 = m\<lparr>StockDirectory.timestamp := be48_as_loaded (StockDirectory.timestamp m)\<rparr>"
  by (cases m; cases m0) (simp add: StockDirectoryLayout_def copy_fields_def)

lemma copy_TradingAction [layout_copies]:
  "copy_fields TradingActionLayout m m0 = m\<lparr>TradingAction.timestamp := be48_as_loaded (TradingAction.timestamp m)\<rparr>"
  by (cases m; cases m0) (simp add: TradingActionLayout_def copy_fields_def)

lemma copy_RegSho [layout_copies]:
  "copy_fields RegShoLayout m m0 = m\<lparr>RegSho.timestamp := be48_as_loaded (RegSho.timestamp m)\<rparr>"
  by (cases m; cases m0) (simp add: RegShoLayout_def copy_fields_def)

lemma copy_MarketParticipantPos [layout_copies]:
  "copy_fields MarketParticipantPosLayout m m0 = m\<lparr>MarketParticipantPos.timestamp := be48_as_loaded (MarketParticipantPos.timestamp m)\<rparr>"
  by (cases m; cases m0) (simp add: MarketParticipantPosLayout_def copy_fields_def)

lemma copy_MwcbDeclineLevel [layout_copies]:
  "copy_fields MwcbDeclineLevelLayout m m0 = m\<lparr>MwcbDeclineLevel.timestamp := be48_as_loaded (MwcbDeclineLevel.timestamp m)\<rparr>"
  by (cases m; cases m0) (simp add: MwcbDeclineLevelLayout_def copy_fields_def)

lemma copy_MwcbStatus [layout_copies]:
  "copy_fields MwcbStatusLayout m m0 = m\<lparr>MwcbStatus.timestamp := be48_as_loaded (MwcbStatus.timestamp m)\<rparr>"
  by (cases m; cases m0) (simp add: MwcbStatusLayout_def copy_fields_def)

lemma copy_IpoQuotationPeriodUpd [layout_copies]:
  "copy_fields IpoQuotationPeriodUpdLayout m m0 = m\<lparr>IpoQuotationPeriodUpd.timestamp := be48_as_loaded (IpoQuotationPeriodUpd.timestamp m)\<rparr>"
  by (cases m; cases m0) (simp add: IpoQuotationPeriodUpdLayout_def copy_fields_def)

lemma copy_LuldAuctionCollar [layout_copies]:
  "copy_fields LuldAuctionCollarLayout m m0 = m\<lparr>LuldAuctionCollar.timestamp := be48_as_loaded (LuldAuctionCollar.timestamp m)\<rparr>"
  by (cases m; cases m0) (simp add: LuldAuctionCollarLayout_def copy_fields_def)

lemma copy_OperationalHalt [layout_copies]:
  "copy_fields OperationalHaltLayout m m0 = m\<lparr>OperationalHalt.timestamp := be48_as_loaded (OperationalHalt.timestamp m)\<rparr>"
  by (cases m; cases m0) (simp add: OperationalHaltLayout_def copy_fields_def)

lemma copy_AddOrderNoMpid [layout_copies]:
  "copy_fields AddOrderNoMpidLayout m m0 = m\<lparr>AddOrderNoMpid.timestamp := be48_as_loaded (AddOrderNoMpid.timestamp m)\<rparr>"
  by (cases m; cases m0) (simp add: AddOrderNoMpidLayout_def copy_fields_def)

lemma copy_AddOrderMpid [layout_copies]:
  "copy_fields AddOrderMpidLayout m m0 = m\<lparr>AddOrderMpid.timestamp := be48_as_loaded (AddOrderMpid.timestamp m)\<rparr>"
  by (cases m; cases m0) (simp add: AddOrderMpidLayout_def copy_fields_def)

lemma copy_OrderExecuted [layout_copies]:
  "copy_fields OrderExecutedLayout m m0 = m\<lparr>OrderExecuted.timestamp := be48_as_loaded (OrderExecuted.timestamp m)\<rparr>"
  by (cases m; cases m0) (simp add: OrderExecutedLayout_def copy_fields_def)

lemma copy_OrderExecutedPrice [layout_copies]:
  "copy_fields OrderExecutedPriceLayout m m0 = m\<lparr>OrderExecutedPrice.timestamp := be48_as_loaded (OrderExecutedPrice.timestamp m)\<rparr>"
  by (cases m; cases m0) (simp add: OrderExecutedPriceLayout_def copy_fields_def)

lemma copy_OrderCancel [layout_copies]:
  "copy_fields OrderCancelLayout m m0 = m\<lparr>OrderCancel.timestamp := be48_as_loaded (OrderCancel.timestamp m)\<rparr>"
  by (cases m; cases m0) (simp add: OrderCancelLayout_def copy_fields_def)

lemma copy_OrderDelete [layout_copies]:
  "copy_fields OrderDeleteLayout m m0 = m\<lparr>OrderDelete.timestamp := be48_as_loaded (OrderDelete.timestamp m)\<rparr>"
  by (cases m; cases m0) (simp add: OrderDeleteLayout_def copy_fields_def)

lemma copy_OrderReplace [layout_copies]:
  "copy_fields OrderReplaceLayout m m0 = m\<lparr>OrderReplace.timestamp := be48_as_loaded (OrderReplace.timestamp m)\<rparr>"
  by (cases m; cases m0) (simp add: OrderReplaceLayout_def copy_fields_def)

lemma copy_TradeMessageNonCross [layout_copies]:
  "copy_fields TradeMessageNonCrossLayout m m0 = m\<lparr>TradeMessageNonCross.timestamp := be48_as_loaded (TradeMessageNonCross.timestamp m)\<rparr>"
  by (cases m; cases m0) (simp add: TradeMessageNonCrossLayout_def copy_fields_def)

lemma copy_TradeMessageCross [layout_copies]:
  "copy_fields TradeMessageCrossLayout m m0 = m\<lparr>TradeMessageCross.timestamp := be48_as_loaded (TradeMessageCross.timestamp m)\<rparr>"
  by (cases m; cases m0) (simp add: TradeMessageCrossLayout_def copy_fields_def)

lemma copy_BrokenTrade [layout_copies]:
  "copy_fields BrokenTradeLayout m m0 = m\<lparr>BrokenTrade.timestamp := be48_as_loaded (BrokenTrade.timestamp m)\<rparr>"
  by (cases m; cases m0) (simp add: BrokenTradeLayout_def copy_fields_def)

lemma copy_Noii [layout_copies]:
  "copy_fields NoiiLayout m m0 = m\<lparr>Noii.timestamp := be48_as_loaded (Noii.timestamp m)\<rparr>"
  by (cases m; cases m0) (simp add: NoiiLayout_def copy_fields_def)

lemma copy_DirectListingCapitalRaise [layout_copies]:
  "copy_fields DirectListingCapitalRaiseLayout m m0 = m\<lparr>DirectListingCapitalRaise.timestamp := be48_as_loaded (DirectListingCapitalRaise.timestamp m)\<rparr>"
  by (cases m; cases m0) (simp add: DirectListingCapitalRaiseLayout_def copy_fields_def)

section \<open>Wire sizes\<close>

lemmas layout_defs =
  SystemEventLayout_def StockDirectoryLayout_def TradingActionLayout_def
  RegShoLayout_def MarketParticipantPosLayout_def MwcbDeclineLevelLayout_def
  MwcbStatusLayout_def IpoQuotationPeriodUpdLayout_def LuldAuctionCollarLayout_def
  OperationalHaltLayout_def AddOrderNoMpidLayout_def AddOrderMpidLayout_def
  OrderExecutedLayout_def OrderExecutedPriceLayout_def OrderCancelLayout_def
  OrderDeleteLayout_def OrderReplaceLayout_def TradeMessageNonCrossLayout_def
  TradeMessageCrossLayout_def BrokenTradeLayout_def NoiiLayout_def
  DirectListingCapitalRaiseLayout_def

lemma layout_sizes:
  "layout_size SystemEventLayout = 11"
  "layout_size StockDirectoryLayout = 38"
  "layout_size TradingActionLayout = 24"
  "layout_size RegShoLayout = 19"
  "layout_size MarketParticipantPosLayout = 25"
  "layout_size MwcbDeclineLevelLayout = 34"
  "layout_size MwcbStatusLayout = 11"
  "layout_size IpoQuotationPeriodUpdLayout = 27"
  "layout_size LuldAuctionCollarLayout = 34"
  "layout_size OperationalHaltLayout = 20"
  "layout_size AddOrderNoMpidLayout = 35"
  "layout_size AddOrderMpidLayout = 39"
  "layout_size OrderExecutedLayout = 30"
  "layout_size OrderExecutedPriceLayout = 35"
  "layout_size OrderCancelLayout = 22"
  "layout_size OrderDeleteLayout = 18"
  "layout_size OrderReplaceLayout = 34"
  "layout_size TradeMessageNonCrossLayout = 43"
  "layout_size TradeMessageCrossLayout = 35"
  "layout_size BrokenTradeLayout = 18"
  "layout_size NoiiLayout = 49"
  "layout_size DirectListingCapitalRaiseLayout = 47"
  by (simp_all add: layout_size_def layout_defs)

lemma msg_size_bound: "msg_size m \<le> 49"
  by (cases m) (simp_all add: layout_sizes)

lemma length_encode_msg: "msg_ok m \<Longrightarrow> length (encode_msg m) = msg_size m"
  by (cases m) (auto simp: length_encode)

end
