(* ===== verification/Parser.thy ===== *)
theory Parser
  imports Messages
begin

text \<open>
  The message parser of \<open>include/itch_parser.hpp\<close>: the message types, the compile-time dispatch
  table of \<open>make_dispatch\<close>, and the framing loop \<open>ItchParser::parse\<close>. The handler the templates
  are instantiated with is a record of its operations. The lemmas relate the loop to the list of
  messages a buffer frames.
\<close>

section \<open>Message types\<close>

datatype MessageType =
    SYSTEM_EVENT
  | STOCK_DIRECTORY
  | STOCK_TRADING_ACTION
  | REG_SHO
  | MARKET_PARTICIPANT_POSITION
  | MWCB_DECLINE_LEVEL_MESSAGE
  | MWCB_STATUS_MESSAGE
  | IPO_QUOTING_PERIOD_UPD
  | LULD_AUCTION_COLLAR
  | OPERATIONAL_HALT
  | ADD_ORDER_NO_MPID
  | ADD_ORDER_MPID
  | ORDER_EXECUTED
  | ORDER_EXECUTED_PRICE
  | ORDER_CANCEL
  | ORDER_DELETE
  | ORDER_REPLACE
  | NON_CROSS_TRADE_MSG
  | CROSS_TRADE_MSG
  | BROKEN_TRADE_MSG
  | NOII_MSG
  | DIRECT_LISTING_CAPITAL_RAISE

fun type_char :: "MessageType \<Rightarrow> char" where
  "type_char SYSTEM_EVENT = CHR ''S''"
| "type_char STOCK_DIRECTORY = CHR ''R''"
| "type_char STOCK_TRADING_ACTION = CHR ''H''"
| "type_char REG_SHO = CHR ''Y''"
| "type_char MARKET_PARTICIPANT_POSITION = CHR ''L''"
| "type_char MWCB_DECLINE_LEVEL_MESSAGE = CHR ''V''"
| "type_char MWCB_STATUS_MESSAGE = CHR ''W''"
| "type_char IPO_QUOTING_PERIOD_UPD = CHR ''K''"
| "type_char LULD_AUCTION_COLLAR = CHR ''J''"
| "type_char OPERATIONAL_HALT = CHR ''h''"
| "type_char ADD_ORDER_NO_MPID = CHR ''A''"
| "type_char ADD_ORDER_MPID = CHR ''F''"
| "type_char ORDER_EXECUTED = CHR ''E''"
| "type_char ORDER_EXECUTED_PRICE = CHR ''C''"
| "type_char ORDER_CANCEL = CHR ''X''"
| "type_char ORDER_DELETE = CHR ''D''"
| "type_char ORDER_REPLACE = CHR ''U''"
| "type_char NON_CROSS_TRADE_MSG = CHR ''P''"
| "type_char CROSS_TRADE_MSG = CHR ''Q''"
| "type_char BROKEN_TRADE_MSG = CHR ''B''"
| "type_char NOII_MSG = CHR ''I''"
| "type_char DIRECT_LISTING_CAPITAL_RAISE = CHR ''O''"

definition message_type_chars :: "byte list" where
  "message_type_chars = map byte_of_char ''SRHYLVWKJhAFECXDUPQBIO''"

definition is_valid_message_type :: "byte \<Rightarrow> bool" where
  "is_valid_message_type c = list_ex (\<lambda>v. v = c) message_type_chars"

definition ITCH_MESSAGE_LIST :: "(char \<times> MessageType) list" where
  "ITCH_MESSAGE_LIST = [
     (CHR ''A'', ADD_ORDER_NO_MPID),
     (CHR ''X'', ORDER_CANCEL),
     (CHR ''D'', ORDER_DELETE),
     (CHR ''U'', ORDER_REPLACE),
     (CHR ''S'', SYSTEM_EVENT),
     (CHR ''R'', STOCK_DIRECTORY),
     (CHR ''H'', STOCK_TRADING_ACTION),
     (CHR ''Y'', REG_SHO),
     (CHR ''L'', MARKET_PARTICIPANT_POSITION),
     (CHR ''V'', MWCB_DECLINE_LEVEL_MESSAGE),
     (CHR ''W'', MWCB_STATUS_MESSAGE),
     (CHR ''K'', IPO_QUOTING_PERIOD_UPD),
     (CHR ''J'', LULD_AUCTION_COLLAR),
     (CHR ''h'', OPERATIONAL_HALT),
     (CHR ''F'', ADD_ORDER_MPID),
     (CHR ''E'', ORDER_EXECUTED),
     (CHR ''C'', ORDER_EXECUTED_PRICE),
     (CHR ''P'', NON_CROSS_TRADE_MSG),
     (CHR ''Q'', CROSS_TRADE_MSG),
     (CHR ''B'', BROKEN_TRADE_MSG),
     (CHR ''I'', NOII_MSG),
     (CHR ''O'', DIRECT_LISTING_CAPITAL_RAISE)]"

fun msg_type :: "itch_msg \<Rightarrow> MessageType" where
  "msg_type (Msg_SystemEvent _) = SYSTEM_EVENT"
| "msg_type (Msg_StockDirectory _) = STOCK_DIRECTORY"
| "msg_type (Msg_TradingAction _) = STOCK_TRADING_ACTION"
| "msg_type (Msg_RegSho _) = REG_SHO"
| "msg_type (Msg_MarketParticipantPos _) = MARKET_PARTICIPANT_POSITION"
| "msg_type (Msg_MwcbDeclineLevel _) = MWCB_DECLINE_LEVEL_MESSAGE"
| "msg_type (Msg_MwcbStatus _) = MWCB_STATUS_MESSAGE"
| "msg_type (Msg_IpoQuotationPeriodUpd _) = IPO_QUOTING_PERIOD_UPD"
| "msg_type (Msg_LuldAuctionCollar _) = LULD_AUCTION_COLLAR"
| "msg_type (Msg_OperationalHalt _) = OPERATIONAL_HALT"
| "msg_type (Msg_AddOrderNoMpid _) = ADD_ORDER_NO_MPID"
| "msg_type (Msg_AddOrderMpid _) = ADD_ORDER_MPID"
| "msg_type (Msg_OrderExecuted _) = ORDER_EXECUTED"
| "msg_type (Msg_OrderExecutedPrice _) = ORDER_EXECUTED_PRICE"
| "msg_type (Msg_OrderCancel _) = ORDER_CANCEL"
| "msg_type (Msg_OrderDelete _) = ORDER_DELETE"
| "msg_type (Msg_OrderReplace _) = ORDER_REPLACE"
| "msg_type (Msg_TradeMessageNonCross _) = NON_CROSS_TRADE_MSG"
| "msg_type (Msg_TradeMessageCross _) = CROSS_TRADE_MSG"
| "msg_type (Msg_BrokenTrade _) = BROKEN_TRADE_MSG"
| "msg_type (Msg_Noii _) = NOII_MSG"
| "msg_type (Msg_DirectListingCapitalRaise _) = DIRECT_LISTING_CAPITAL_RAISE"

text \<open>\<open>parse_itch<TYPE##Layout, TYPE>(src)\<close> for the struct of each message type.\<close>

fun parse_msg :: "MessageType \<Rightarrow> byte list \<Rightarrow> nat \<Rightarrow> itch_msg result" where
  "parse_msg SYSTEM_EVENT mem src =
     rbind (parse_itch SystemEventLayout SystemEvent_uninit mem src) (\<lambda>m. Inr (Msg_SystemEvent m))"
| "parse_msg STOCK_DIRECTORY mem src =
     rbind (parse_itch StockDirectoryLayout StockDirectory_uninit mem src) (\<lambda>m. Inr (Msg_StockDirectory m))"
| "parse_msg STOCK_TRADING_ACTION mem src =
     rbind (parse_itch TradingActionLayout TradingAction_uninit mem src) (\<lambda>m. Inr (Msg_TradingAction m))"
| "parse_msg REG_SHO mem src =
     rbind (parse_itch RegShoLayout RegSho_uninit mem src) (\<lambda>m. Inr (Msg_RegSho m))"
| "parse_msg MARKET_PARTICIPANT_POSITION mem src =
     rbind (parse_itch MarketParticipantPosLayout MarketParticipantPos_uninit mem src) (\<lambda>m. Inr (Msg_MarketParticipantPos m))"
| "parse_msg MWCB_DECLINE_LEVEL_MESSAGE mem src =
     rbind (parse_itch MwcbDeclineLevelLayout MwcbDeclineLevel_uninit mem src) (\<lambda>m. Inr (Msg_MwcbDeclineLevel m))"
| "parse_msg MWCB_STATUS_MESSAGE mem src =
     rbind (parse_itch MwcbStatusLayout MwcbStatus_uninit mem src) (\<lambda>m. Inr (Msg_MwcbStatus m))"
| "parse_msg IPO_QUOTING_PERIOD_UPD mem src =
     rbind (parse_itch IpoQuotationPeriodUpdLayout IpoQuotationPeriodUpd_uninit mem src) (\<lambda>m. Inr (Msg_IpoQuotationPeriodUpd m))"
| "parse_msg LULD_AUCTION_COLLAR mem src =
     rbind (parse_itch LuldAuctionCollarLayout LuldAuctionCollar_uninit mem src) (\<lambda>m. Inr (Msg_LuldAuctionCollar m))"
| "parse_msg OPERATIONAL_HALT mem src =
     rbind (parse_itch OperationalHaltLayout OperationalHalt_uninit mem src) (\<lambda>m. Inr (Msg_OperationalHalt m))"
| "parse_msg ADD_ORDER_NO_MPID mem src =
     rbind (parse_itch AddOrderNoMpidLayout AddOrderNoMpid_uninit mem src) (\<lambda>m. Inr (Msg_AddOrderNoMpid m))"
| "parse_msg ADD_ORDER_MPID mem src =
     rbind (parse_itch AddOrderMpidLayout AddOrderMpid_uninit mem src) (\<lambda>m. Inr (Msg_AddOrderMpid m))"
| "parse_msg ORDER_EXECUTED mem src =
     rbind (parse_itch OrderExecutedLayout OrderExecuted_uninit mem src) (\<lambda>m. Inr (Msg_OrderExecuted m))"
| "parse_msg ORDER_EXECUTED_PRICE mem src =
     rbind (parse_itch OrderExecutedPriceLayout OrderExecutedPrice_uninit mem src) (\<lambda>m. Inr (Msg_OrderExecutedPrice m))"
| "parse_msg ORDER_CANCEL mem src =
     rbind (parse_itch OrderCancelLayout OrderCancel_uninit mem src) (\<lambda>m. Inr (Msg_OrderCancel m))"
| "parse_msg ORDER_DELETE mem src =
     rbind (parse_itch OrderDeleteLayout OrderDelete_uninit mem src) (\<lambda>m. Inr (Msg_OrderDelete m))"
| "parse_msg ORDER_REPLACE mem src =
     rbind (parse_itch OrderReplaceLayout OrderReplace_uninit mem src) (\<lambda>m. Inr (Msg_OrderReplace m))"
| "parse_msg NON_CROSS_TRADE_MSG mem src =
     rbind (parse_itch TradeMessageNonCrossLayout TradeMessageNonCross_uninit mem src) (\<lambda>m. Inr (Msg_TradeMessageNonCross m))"
| "parse_msg CROSS_TRADE_MSG mem src =
     rbind (parse_itch TradeMessageCrossLayout TradeMessageCross_uninit mem src) (\<lambda>m. Inr (Msg_TradeMessageCross m))"
| "parse_msg BROKEN_TRADE_MSG mem src =
     rbind (parse_itch BrokenTradeLayout BrokenTrade_uninit mem src) (\<lambda>m. Inr (Msg_BrokenTrade m))"
| "parse_msg NOII_MSG mem src =
     rbind (parse_itch NoiiLayout Noii_uninit mem src) (\<lambda>m. Inr (Msg_Noii m))"
| "parse_msg DIRECT_LISTING_CAPITAL_RAISE mem src =
     rbind (parse_itch DirectListingCapitalRaiseLayout DirectListingCapitalRaise_uninit mem src) (\<lambda>m. Inr (Msg_DirectListingCapitalRaise m))"

section \<open>The dispatch table\<close>

text \<open>
  The operations of a \<open>SpecificHandler\<close>: \<open>has_handle\<close> is the concept \<open>HasHandle\<close>, which of the
  message types the handler has an overload of \<open>handle\<close> for.
\<close>

record 'h handler_ops =
  has_handle :: "MessageType \<Rightarrow> bool"
  handle :: "itch_msg \<Rightarrow> 'h \<Rightarrow> 'h result"
  handle_before :: "'h \<Rightarrow> 'h"
  handle_after :: "'h \<Rightarrow> 'h"

text \<open>The function pointers the table can hold.\<close>

datatype ParseFn =
    Ignore_Message
  | Bad_Type
  | Parse_And_Handle MessageType

definition raw_index :: "char \<Rightarrow> nat" where
  "raw_index c = unat (byte_of_char c)"

definition default_table :: "ParseFn list" where
  "default_table =
     map (\<lambda>i. if is_valid_message_type (of_nat i) then Ignore_Message else Bad_Type) [0..<256]"

definition make_dispatch :: "'h handler_ops \<Rightarrow> ParseFn list" where
  "make_dispatch ops =
     foldl (\<lambda>table (RAW_TYPE, MSG).
         if has_handle ops MSG then table[raw_index RAW_TYPE := Parse_And_Handle MSG] else table)
       default_table ITCH_MESSAGE_LIST"

definition bad_type :: "byte list \<Rightarrow> nat \<Rightarrow> 'h result" where
  "bad_type mem src =
     rbind (load_be_char mem src) (\<lambda>c.
       Inl (Runtime_Error (''Unknown message type '' @ [CHR 0x27, c, CHR 0x27])))"

definition parse_and_handle ::
    "'h handler_ops \<Rightarrow> MessageType \<Rightarrow> byte list \<Rightarrow> nat \<Rightarrow> 'h \<Rightarrow> 'h result" where
  "parse_and_handle ops MSG mem src h =
     rbind (parse_msg MSG mem src) (\<lambda>m. handle ops m h)"

fun call_parse_fn ::
    "'h handler_ops \<Rightarrow> ParseFn \<Rightarrow> byte list \<Rightarrow> nat \<Rightarrow> 'h \<Rightarrow> 'h result" where
  "call_parse_fn ops Ignore_Message mem src h = Inr h"
| "call_parse_fn ops Bad_Type mem src h = bad_type mem src"
| "call_parse_fn ops (Parse_And_Handle MSG) mem src h = parse_and_handle ops MSG mem src h"

text \<open>
  The index is a \<open>char\<close>, signed on the target, converted to \<open>size_t\<close>: a byte from 128 up is sign
  extended and lies far outside the 256 entries of the table.
\<close>

definition dispatch_index :: "byte \<Rightarrow> nat" where
  "dispatch_index raw_type = unat (scast raw_type :: u64)"

definition dispatch ::
    "'h handler_ops \<Rightarrow> byte \<Rightarrow> byte list \<Rightarrow> nat \<Rightarrow> 'h \<Rightarrow> 'h result" where
  "dispatch ops raw_type mem src h =
     (if dispatch_index raw_type < length (make_dispatch ops)
      then call_parse_fn ops (make_dispatch ops ! dispatch_index raw_type) mem src h
      else Inl Out_Of_Bounds)"

section \<open>The framing loop\<close>

definition load_be16 :: "byte list \<Rightarrow> nat \<Rightarrow> u16 result" where
  "load_be16 mem p =
     rbind (rd mem p) (\<lambda>b0. rbind (rd mem (p + 1)) (\<lambda>b1.
       Inr (push_bit 8 (ucast b0) OR ucast b1)))"

lemma load_be16_eq [simp]: "load_be16 = load_be_u16"
  by (simp add: fun_eq_iff load_be16_def load_be_u16_def)

text \<open>
  The state of the loop is the offset \<open>src\<close>; \<open>e\<close> is the pointer \<open>end\<close>. The three advances of
  \<open>src\<close> add up to \<open>2 + size\<close>, also for a zero size (2 + 1 - 1).
\<close>

function parse_loop ::
    "'h handler_ops \<Rightarrow> byte list \<Rightarrow> nat \<Rightarrow> nat \<Rightarrow> 'h \<Rightarrow> 'h result" where
  "parse_loop ops mem e src h =
     (if src + 3 \<le> e then
        rbind (load_be16 mem src) (\<lambda>size.
          if e < src + 2 + unat size then Inr h
          else
            rbind (rd mem (src + 2)) (\<lambda>raw_type.
              rbind (dispatch ops raw_type mem (src + 3) (handle_before ops h)) (\<lambda>h'.
                parse_loop ops mem e (src + 2 + unat size) (handle_after ops h'))))
      else Inr h)"
  by pat_completeness auto
termination
  by (relation "measure (\<lambda>(ops, mem, e, src, h). e - src)") auto

declare parse_loop.simps [simp del]

definition parse :: "'h handler_ops \<Rightarrow> byte list \<Rightarrow> nat \<Rightarrow> nat \<Rightarrow> 'h \<Rightarrow> 'h result" where
  "parse ops mem src len h = parse_loop ops mem (src + len) src h"

section \<open>The dispatch table, entry by entry\<close>

text \<open>\<open>make_dispatch\<close> is a fold of guarded table updates at distinct indices.\<close>

abbreviation table_step :: "'h handler_ops \<Rightarrow> ParseFn list \<Rightarrow> char \<times> MessageType \<Rightarrow> ParseFn list" where
  "table_step ops \<equiv> \<lambda>table (RAW_TYPE, MSG).
     if has_handle ops MSG then table[raw_index RAW_TYPE := Parse_And_Handle MSG] else table"

lemma length_table_fold [simp]: "length (foldl (table_step ops) t xs) = length t"
  by (induction xs arbitrary: t) (auto split: prod.splits)

lemma table_fold_other:
  "i \<notin> (raw_index \<circ> fst) ` set xs \<Longrightarrow> foldl (table_step ops) t xs ! i = t ! i"
  by (induction xs arbitrary: t) (auto split: prod.splits)

lemma table_fold_entry:
  assumes "(c, k) \<in> set xs" and "distinct (map (raw_index \<circ> fst) xs)" and "raw_index c < length t"
  shows "foldl (table_step ops) t xs ! raw_index c =
         (if has_handle ops k then Parse_And_Handle k else t ! raw_index c)"
  using assms
proof (induction xs arbitrary: t)
  case Nil
  then show ?case by simp
next
  case (Cons x xs)
  show ?case
  proof (cases "x = (c, k)")
    case True
    with Cons.prems have "raw_index c \<notin> (raw_index \<circ> fst) ` set xs" by auto
    with True Cons.prems(3) show ?thesis
      by (simp add: table_fold_other)
  next
    case False
    with Cons.prems have mem: "(c, k) \<in> set xs" and d: "distinct (map (raw_index \<circ> fst) xs)"
      by (auto simp: comp_def)
    have "raw_index (fst x) \<noteq> raw_index c"
      using Cons.prems(2) mem by (force simp: image_iff)
    then have "table_step ops t x ! raw_index c = t ! raw_index c"
      by (auto split: prod.splits)
    moreover have "length (table_step ops t x) = length t"
      by (auto split: prod.splits)
    ultimately show ?thesis
      using Cons.IH [OF mem d, of "table_step ops t x"] Cons.prems(3) by simp
  qed
qed

lemma distinct_message_list: "distinct (map (raw_index \<circ> fst) ITCH_MESSAGE_LIST)"
  by code_simp

lemma message_list_entry: "(type_char k, k) \<in> set ITCH_MESSAGE_LIST"
  by (cases k) (simp_all add: ITCH_MESSAGE_LIST_def)

lemma message_list_chars:
  "(raw_index \<circ> fst) ` set ITCH_MESSAGE_LIST = unat ` set message_type_chars"
proof -
  have "set (map (raw_index \<circ> fst) ITCH_MESSAGE_LIST) =
        set (map raw_index ''AXDUSRHYLVWKJhFECPQBIO'')"
    by (simp add: ITCH_MESSAGE_LIST_def)
  also have "\<dots> = raw_index ` set ''SRHYLVWKJhAFECXDUPQBIO''"
    by auto
  also have "\<dots> = unat ` set message_type_chars"
    by (simp add: message_type_chars_def raw_index_def)
  finally show ?thesis by simp
qed

lemma length_default_table [simp]: "length default_table = 256"
  by (simp add: default_table_def)

lemma length_make_dispatch [simp]: "length (make_dispatch ops) = 256"
  by (simp add: make_dispatch_def)

lemma unat_byte_less [simp]: "unat (b :: byte) < 256"
  using unsigned_less [of b, where 'a = nat] by simp

lemma raw_index_less [simp]: "raw_index c < 256"
  by (simp add: raw_index_def)

lemma default_table_nth: 
  "default_table ! unat b = (if is_valid_message_type b then Ignore_Message else Bad_Type)"
  by (simp add: default_table_def)

lemma valid_type_char: "is_valid_message_type (byte_of_char (type_char k))"
  by (cases k) (simp_all add: is_valid_message_type_def message_type_chars_def byte_of_char_def)

lemma is_valid_iff: "is_valid_message_type b \<longleftrightarrow> (\<exists>k. b = byte_of_char (type_char k))"
proof
  assume "is_valid_message_type b"
  then have "unat b \<in> (raw_index \<circ> fst) ` set ITCH_MESSAGE_LIST"
    unfolding message_list_chars by (auto simp: is_valid_message_type_def list_ex_iff)
  then obtain c k where "(c, k) \<in> set ITCH_MESSAGE_LIST" and "unat b = raw_index c" by auto
  moreover from this(1) have "c = type_char k" by (auto simp: ITCH_MESSAGE_LIST_def)
  ultimately show "\<exists>k. b = byte_of_char (type_char k)"
    by (auto simp: raw_index_def word_unat_eq_iff)
qed (use valid_type_char in blast)

lemma make_dispatch_known:
  "make_dispatch ops ! raw_index (type_char k) =
     (if has_handle ops k then Parse_And_Handle k else Ignore_Message)"
  using table_fold_entry [OF message_list_entry distinct_message_list, of k default_table ops]
    valid_type_char [of k] default_table_nth [of "byte_of_char (type_char k)"]
  by (simp add: make_dispatch_def raw_index_def)

lemma make_dispatch_unknown:
  assumes "\<not> is_valid_message_type b"
  shows "make_dispatch ops ! unat b = Bad_Type"
proof -
  have "unat b \<notin> (raw_index \<circ> fst) ` set ITCH_MESSAGE_LIST"
    using assms unfolding message_list_chars
    by (auto simp: is_valid_message_type_def list_ex_iff word_unat_eq_iff)
  then show ?thesis
    using assms by (simp add: make_dispatch_def table_fold_other default_table_nth)
qed

lemma dispatch_index_eq:
  "int (dispatch_index b) = ((uint b + 128) mod 256 - 128) mod 2 ^ 64"
proof -
  have "int (dispatch_index b) = uint (word_of_int (sint b) :: u64)"
    by (simp only: dispatch_index_def scast_eq uint_nat [symmetric])
  also have "\<dots> = sint b mod 2 ^ 64"
    by (subst uint_word_of_int) simp
  also have "sint b = (uint b + 128) mod 256 - 128"
    by (simp add: sint_uint signed_take_bit_eq_take_bit_shift take_bit_eq_mod)
  finally show ?thesis .
qed

lemma uint_byte_bounds: "0 \<le> uint (b :: byte)" "uint (b :: byte) < 256"
  using unsigned_less [of b, where 'a = int] by simp_all

lemma dispatch_index_low:
  assumes "b < 128"
  shows "dispatch_index b = unat b"
proof -
  have "uint b < 128"
    using assms by (simp add: word_less_def)
  then have "int (dispatch_index b) = uint b"
    using uint_byte_bounds [of b] by (simp add: dispatch_index_eq)
  then show ?thesis
    by (metis of_nat_eq_iff uint_nat)
qed

lemma dispatch_index_high:
  assumes "128 \<le> b"
  shows "256 \<le> dispatch_index b"
proof -
  have b: "128 \<le> uint b"
    using assms by (simp add: word_le_def)
  have "(uint b + 128) mod 256 = uint b - 128"
    using b uint_byte_bounds [of b] by (intro int_mod_pos_eq [of _ _ 1]) auto
  then have "int (dispatch_index b) = (uint b - 256) mod 2 ^ 64"
    by (simp add: dispatch_index_eq)
  also have "\<dots> = uint b - 256 + 2 ^ 64"
    using b uint_byte_bounds [of b] by (intro int_mod_pos_eq [of _ _ "-1"]) auto
  finally have "int 256 \<le> int (dispatch_index b)"
    using b by simp
  then show ?thesis by (simp only: of_nat_le_iff)
qed

lemma type_char_low: "byte_of_char (type_char k) < 128"
  by (cases k) (simp_all add: byte_of_char_def)

lemma dispatch_known:
  "dispatch ops (byte_of_char (type_char k)) mem src h =
     (if has_handle ops k then parse_and_handle ops k mem src h else Inr h)"
  using make_dispatch_known [of ops k]
  by (simp add: dispatch_def dispatch_index_low type_char_low raw_index_def)

lemma dispatch_unknown:
  "b < 128 \<Longrightarrow> \<not> is_valid_message_type b \<Longrightarrow> dispatch ops b mem src h = bad_type mem src"
  by (simp add: dispatch_def dispatch_index_low make_dispatch_unknown)

lemma dispatch_high: "128 \<le> b \<Longrightarrow> dispatch ops b mem src h = Inl Out_Of_Bounds"
  using dispatch_index_high [of b] by (simp add: dispatch_def)

section \<open>The messages a buffer frames\<close>

definition frame :: "itch_msg \<Rightarrow> byte list" where
  "frame m =
     be_bytes 2 (of_nat (Suc (msg_size m)) :: u16) @
     byte_of_char (type_char (msg_type m)) # encode_msg m"

text \<open>What is left of a buffer when no further message is complete.\<close>

definition incomplete :: "byte list \<Rightarrow> bool" where
  "incomplete rest \<longleftrightarrow>
     length rest < 3 \<or> (\<exists>size. load_be_u16 rest 0 = Inr size \<and> length rest < 2 + unat size)"

text \<open>What the parser does with one message: the handler's hooks around its overload, if any.\<close>

definition handle_msg :: "'h handler_ops \<Rightarrow> itch_msg \<Rightarrow> 'h \<Rightarrow> 'h result" where
  "handle_msg ops m h =
     rbind (if has_handle ops (msg_type m) then handle ops m (handle_before ops h)
            else Inr (handle_before ops h))
       (\<lambda>h'. Inr (handle_after ops h'))"

fun handle_msgs :: "'h handler_ops \<Rightarrow> itch_msg list \<Rightarrow> 'h \<Rightarrow> 'h result" where
  "handle_msgs ops [] h = Inr h"
| "handle_msgs ops (m # ms) h = rbind (handle_msg ops m h) (handle_msgs ops ms)"

lemma msg_type_as_loaded [simp]: "msg_type (as_loaded m) = msg_type m"
  by (cases m) auto

lemma parse_msg_encoded:
  assumes "msg_ok m"
  shows "parse_msg (msg_type m) (pre @ encode_msg m @ post) (length pre) = Inr (as_loaded m)"
  using assms by (cases m) (simp_all add: parse_itch_encoded layout_copies)

lemma unat_frame_size [simp]: "unat (of_nat (Suc (msg_size m)) :: u16) = Suc (msg_size m)"
  using msg_size_bound [of m] by (simp add: unat_of_nat take_bit_nat_eq_self del: of_nat_Suc)

lemma length_frame: "msg_ok m \<Longrightarrow> length (frame m) = 3 + msg_size m"
  by (simp add: frame_def length_encode_msg)

lemma load_be_u16_append:
  "2 \<le> length rest \<Longrightarrow> load_be_u16 (pre @ rest @ post) (length pre) = load_be_u16 rest 0"
  by (cases rest) (auto simp: load_be_u16_def rd_def nth_append)

lemma parse_loop_incomplete:
  assumes "incomplete rest"
  shows "parse_loop ops (pre @ rest @ post) (length pre + length rest) (length pre) h = Inr h"
  using assms by (subst parse_loop.simps) (auto simp: incomplete_def load_be_u16_append)

lemma parse_loop_frame:
  assumes "msg_ok m" and "length pre + length (frame m) \<le> e"
  shows "parse_loop ops (pre @ frame m @ post) e (length pre) h =
         rbind (handle_msg ops (as_loaded m) h)
           (parse_loop ops (pre @ frame m @ post) e (length pre + length (frame m)))"
proof -
  let ?size = "of_nat (Suc (msg_size m)) :: u16"
  let ?mem = "pre @ frame m @ post"
  let ?pre = "pre @ be_bytes 2 ?size @ [byte_of_char (type_char (msg_type m))]"
  have len: "length (frame m) = 3 + msg_size m"
    using assms(1) by (rule length_frame)
  have size: "load_be_u16 ?mem (length pre) = Inr ?size"
    by (simp add: frame_def)
  have raw: "rd (frame m @ post) 2 = Inr (byte_of_char (type_char (msg_type m)))"
    by (simp add: frame_def rd_def nth_append)
  have mem: "?mem = ?pre @ encode_msg m @ post" and at: "length pre + 3 = length ?pre"
    by (simp_all add: frame_def)
  have msg: "parse_msg (msg_type m) ?mem (length pre + 3) = Inr (as_loaded m)"
    unfolding mem at using assms(1) by (rule parse_msg_encoded)
  have msg': "parse_msg (msg_type m) ?mem (Suc (Suc (Suc (length pre)))) = Inr (as_loaded m)"
    using msg by (simp add: numeral_3_eq_3)
  show ?thesis
    using assms(2) len
    by (subst parse_loop.simps)
       (simp add: size raw dispatch_known parse_and_handle_def msg' handle_msg_def rbind_assoc
         numeral_3_eq_3 del: of_nat_Suc)
qed

lemma parse_loop_frames:
  assumes "list_all msg_ok ms" and "incomplete rest"
  shows "parse_loop ops (pre @ concat (map frame ms) @ rest @ post)
           (length pre + length (concat (map frame ms)) + length rest) (length pre) h =
         handle_msgs ops (map as_loaded ms) h"
  using assms(1)
proof (induction ms arbitrary: pre h)
  case Nil
  then show ?case using parse_loop_incomplete [OF assms(2)] by simp
next
  case (Cons m ms)
  let ?e = "length pre + length (concat (map frame (m # ms))) + length rest"
  have "parse_loop ops (pre @ frame m @ (concat (map frame ms) @ rest @ post)) ?e (length pre) h =
        rbind (handle_msg ops (as_loaded m) h)
          (parse_loop ops (pre @ frame m @ (concat (map frame ms) @ rest @ post)) ?e
             (length pre + length (frame m)))"
    using Cons.prems by (intro parse_loop_frame) auto
  moreover have "parse_loop ops (pre @ frame m @ (concat (map frame ms) @ rest @ post)) ?e
             (length pre + length (frame m)) = handle_msgs ops (map as_loaded ms)"
    using Cons.IH [of "pre @ frame m"] Cons.prems by (intro ext) (simp add: add.assoc)
  ultimately show ?case by simp
qed

end
