(* ===== verification/Parser_Correct.thy ===== *)
theory Parser_Correct
  imports Parser
begin

text \<open>
  What the parser of \<open>include/itch_parser.hpp\<close> guarantees: the messages a buffer frames reach the
  handler once each and in order, with the values that were encoded (up to the \<open>be48\<close> load), the
  dispatch table is the intended one, and how far past a frame the parser can read.
\<close>

section \<open>A handler that collects the messages\<close>

definition collector :: "itch_msg list handler_ops" where
  "collector =
     \<lparr>has_handle = (\<lambda>k. True), handle = (\<lambda>m h. Inr (h @ [m])), handle_before = (\<lambda>h. h),
      handle_after = (\<lambda>h. h)\<rparr>"

definition sample_delete :: OrderDelete where
  "sample_delete = \<lparr>OrderDelete.stock_locate = 7, tracking_number = 1, timestamp = 65537,
     order_reference_number = 42\<rparr>"

definition sample_event :: SystemEvent where
  "sample_event = \<lparr>SystemEvent.stock_locate = 0, tracking_number = 0, timestamp = 0,
     event_code = CHR ''O''\<rparr>"

definition sample_msgs :: "itch_msg list" where
  "sample_msgs = [Msg_SystemEvent sample_event, Msg_OrderDelete sample_delete]"

lemma sample_msgs_ok: "list_all msg_ok sample_msgs"
  by code_simp

section \<open>The walk over the frames\<close>

text \<open>The offsets of the type bytes of the complete frames between \<open>src\<close> and \<open>e\<close>.\<close>

function frame_starts :: "byte list \<Rightarrow> nat \<Rightarrow> nat \<Rightarrow> nat list" where
  "frame_starts mem e src =
     (if src + 3 \<le> e then
        case load_be16 mem src of
          Inl _ \<Rightarrow> []
        | Inr sz \<Rightarrow>
            if e < src + 2 + unat sz then []
            else (src + 2) # frame_starts mem e (src + 2 + unat sz)
      else [])"
  by pat_completeness auto
termination
  by (relation "measure (\<lambda>(mem, e, src). e - src)") auto

declare frame_starts.simps [simp del]

text \<open>The work on one frame, given the offset of its type byte.\<close>

definition on_frame :: "'h handler_ops \<Rightarrow> byte list \<Rightarrow> nat \<Rightarrow> 'h \<Rightarrow> 'h result" where
  "on_frame ops mem i h =
     rbind (rd mem i) (\<lambda>raw_type.
     rbind (dispatch ops raw_type mem (i + 1) (handle_before ops h)) (\<lambda>h'.
       Inr (handle_after ops h')))"

fun on_frames :: "'h handler_ops \<Rightarrow> byte list \<Rightarrow> nat list \<Rightarrow> 'h \<Rightarrow> 'h result" where
  "on_frames ops mem [] h = Inr h"
| "on_frames ops mem (i # is) h = rbind (on_frame ops mem i h) (on_frames ops mem is)"

lemma parse_loop_on_frames:
  "e \<le> length mem \<Longrightarrow> parse_loop ops mem e src h = on_frames ops mem (frame_starts mem e src) h"
proof (induction ops mem e src h rule: parse_loop.induct)
  case (1 ops mem e src h)
  show ?case
  proof (cases "src + 3 \<le> e")
    case True
    then have "is_ok (load_be_u16 mem src)"
      using in_bounds_loads(2) [of mem src] "1.prems" by (simp add: in_bounds_def)
    then obtain sz where size: "load_be_u16 mem src = Inr sz" by (auto simp: is_ok_iff)
    show ?thesis
    proof (cases "e < src + 2 + unat sz")
      case True
      with size \<open>src + 3 \<le> e\<close> show ?thesis
        by (subst parse_loop.simps, subst frame_starts.simps) simp
    next
      case False
      have "parse_loop ops mem e (src + 2 + unat sz) (handle_after ops h') =
            on_frames ops mem (frame_starts mem e (src + 2 + unat sz)) (handle_after ops h')"
        if "rd mem (src + 2) = Inr raw" "dispatch ops raw mem (src + 3) (handle_before ops h) = Inr h'"
        for raw h'
        using "1.IH" [OF True _ False that(1) that(2) "1.prems"] size by simp
      then show ?thesis
        using True False size
        by (subst parse_loop.simps, subst frame_starts.simps)
           (auto simp: on_frame_def rbind_assoc numeral_3_eq_3 numeral_2_eq_2 intro!: rbind_cong)
    qed
  next
    case False
    then show ?thesis by (subst parse_loop.simps, subst frame_starts.simps) simp
  qed
qed

lemma frame_starts_cases:
  assumes "i \<in> set (frame_starts mem e src)"
  obtains sz where "src + 3 \<le> e" "load_be16 mem src = Inr sz" "src + 2 + unat sz \<le> e"
    "i = src + 2 \<or> i \<in> set (frame_starts mem e (src + 2 + unat sz))"
proof -
  have "i \<in> set (if src + 3 \<le> e then
        case load_be16 mem src of
          Inl _ \<Rightarrow> []
        | Inr sz \<Rightarrow>
            if e < src + 2 + unat sz then []
            else (src + 2) # frame_starts mem e (src + 2 + unat sz)
      else [])"
    using assms by (simp only: frame_starts.simps [of mem e src])
  then have t: "src + 3 \<le> e \<and> i \<in> set (case load_be16 mem src of
          Inl _ \<Rightarrow> []
        | Inr sz \<Rightarrow>
            if e < src + 2 + unat sz then []
            else (src + 2) # frame_starts mem e (src + 2 + unat sz))"
    by (cases "src + 3 \<le> e") simp_all
  then obtain sz where sz: "load_be16 mem src = Inr sz"
    by (cases "load_be16 mem src") simp_all
  with t have "src + 2 + unat sz \<le> e" by (auto intro: leI)
  with t sz show ?thesis by (intro that [of sz]) simp_all
qed

lemma frame_starts_less: "i \<in> set (frame_starts mem e src) \<Longrightarrow> i < e"
proof (induction mem e src rule: frame_starts.induct)
  case (1 mem e src)
  from "1.prems" obtain sz where sz: "src + 3 \<le> e" "load_be16 mem src = Inr sz"
    "src + 2 + unat sz \<le> e" "i = src + 2 \<or> i \<in> set (frame_starts mem e (src + 2 + unat sz))"
    by (rule frame_starts_cases)
  with "1.IH" [OF sz(1,2)] show ?case by auto
qed

section \<open>Reading past a frame\<close>

lemma layout_bound: "parse_msg k mem src = Inl e \<Longrightarrow> e = Out_Of_Bounds"
  by (cases k) (auto simp: rbind_eq_Inl dest: parse_itch_error)

lemma parse_msg_room: "src + 49 \<le> length mem \<Longrightarrow> is_ok (parse_msg k mem src)"
proof -
  assume room: "src + 49 \<le> length mem"
  have *: "is_ok (rbind (parse_itch L m mem src) (\<lambda>x. Inr (c x)))" if "layout_size L \<le> 49" for L m c
    using parse_itch_ok [of src L mem m] that room by (auto simp: is_ok_iff)
  show ?thesis by (cases k) (simp_all add: * layout_sizes)
qed

lemma dispatch_not_oob:
  assumes "b < 128" and "src + 49 \<le> length mem" and "\<And>m h. handle ops m h \<noteq> Inl Out_Of_Bounds"
  shows "dispatch ops b mem src h \<noteq> Inl Out_Of_Bounds"
proof (cases "is_valid_message_type b")
  case True
  then obtain k where "b = byte_of_char (type_char k)" by (auto simp: is_valid_iff)
  then show ?thesis
    using parse_msg_room [OF assms(2), of k] assms(3)
    by (auto simp: dispatch_known parse_and_handle_def is_ok_iff rbind_eq_Inl)
next
  case False
  have "load_be_char mem src \<noteq> Inl Out_Of_Bounds"
    using assms(2) by (simp add: load_be_char_def rd_def)
  then show ?thesis
    by (simp add: dispatch_unknown [OF assms(1) False] bad_type_def rbind_eq_Inl)
qed

lemma on_frames_not_oob:
  assumes "\<forall>i \<in> set is. mem ! i < 128 \<and> i + 50 \<le> length mem"
    and "\<And>m h. handle ops m h \<noteq> Inl Out_Of_Bounds"
  shows "on_frames ops mem is h \<noteq> Inl Out_Of_Bounds"
  using assms(1)
proof (induction "is" arbitrary: h)
  case (Cons i "is")
  then have "rd mem i = Inr (mem ! i)" by (simp add: rd_def)
  then have "on_frame ops mem i h \<noteq> Inl Out_Of_Bounds"
    using dispatch_not_oob [of "mem ! i" "i + 1" mem ops "handle_before ops h", OF _ _ assms(2)]
      Cons.prems by (auto simp: on_frame_def rbind_eq_Inl)
  with Cons show ?case by (auto simp: rbind_eq_Inl)
qed simp

lemma load_into_end:
  "0 < field_size f \<Longrightarrow> length mem \<le> src \<Longrightarrow> load_into mem m src f = Inl Out_Of_Bounds"
  by (cases f)
     (auto simp: load_be_char_def load_be_u16_def load_be_u32_def load_be_u64_def load_be48_def
       load_chars_def rd_def)

lemma parse_itch_end:
  "0 < field_size f \<Longrightarrow> length mem \<le> src \<Longrightarrow> parse_itch (f # fs) m mem src = Inl Out_Of_Bounds"
  by (simp add: parse_itch_def upt_rec [of 0] load_into_end del: upt_Suc)

lemma parse_msg_end: "length mem \<le> src \<Longrightarrow> parse_msg k mem src = Inl Out_Of_Bounds"
  by (cases k) (simp_all add: layout_defs parse_itch_end)

section \<open>Properties\<close>

text \<open>
  C4. The parser delivers exactly the messages a buffer frames: on the concatenated frames of any
  messages, wherever they lie in memory and whatever follows them, \<open>parse\<close> calls the handler once
  per message in order, between \<open>handle_before\<close> and \<open>handle_after\<close>, with every field as encoded
  except the time stamp that the \<open>be48\<close> load mangles; message types without an overload are
  skipped, the first failing handler stops the parse, and an incomplete message at the end is left
  alone.
\<close>

theorem parse_delivers_messages:
  assumes "list_all msg_ok ms" and "incomplete rest"
  shows "parse ops (pre @ concat (map frame ms) @ rest @ post) (length pre)
           (length (concat (map frame ms)) + length rest) h =
         handle_msgs ops (map as_loaded ms) h"
  using parse_loop_frames [OF assms, of ops pre post h] by (simp add: parse_def add.assoc)

lemma parse_delivers_messages_witness:
  "parse collector ([9] @ concat (map frame sample_msgs) @ [0, 200, 65, 0] @ [255]) (length [9 :: byte])
     (length (concat (map frame sample_msgs)) + length [0 :: byte, 200, 65, 0]) [] =
   handle_msgs collector (map as_loaded sample_msgs) []"
proof (rule parse_delivers_messages [OF sample_msgs_ok])
  show "incomplete [0, 200, 65, 0]"
    by (simp add: incomplete_def load_be_u16_def rd_def)
qed

text \<open>
  C5. For each of the 22 message types, loading the wire bytes of a message yields the message, all
  fields included, but for its time stamp, which is replaced by \<open>be48_as_loaded\<close> of itself; the
  uninitialised struct the fields are stored into leaves no trace.
\<close>

theorem parse_msg_roundtrip:
  assumes "msg_ok m"
  shows "parse_msg (msg_type m) (pre @ encode_msg m @ post) (length pre) = Inr (as_loaded m)"
  by (rule parse_msg_encoded [OF assms])

lemma parse_msg_roundtrip_witness:
  "parse_msg (msg_type (Msg_OrderDelete sample_delete))
     ([1, 2] @ encode_msg (Msg_OrderDelete sample_delete) @ [3]) (length [1 :: byte, 2]) =
   Inr (as_loaded (Msg_OrderDelete sample_delete))"
  by (rule parse_msg_roundtrip) code_simp

text \<open>
  C18. The 48-bit load returns the encoded value exactly when its bits 0 to 15 happen to equal its
  bits 32 to 47: the low half word is read from the first two bytes of the field instead of the last
  two.
\<close>

theorem be48_load_exact_iff:
  assumes "x < 2 ^ 48"
  shows "load_be48 (pre @ be_bytes 6 x @ post) (length pre) = Inr x \<longleftrightarrow>
         (ucast x :: u16) = ucast (drop_bit 32 x)"
proof -
  have high: "n < 48" if "bit x n" for n
  proof -
    have "uint x < 2 ^ 48" using assms by (simp add: word_less_def)
    then have "take_bit 48 (uint x) = uint x" by (simp add: take_bit_int_eq_self)
    moreover have "bit (uint x) n" using that by (simp add: bit_simps bit_imp_le_length)
    ultimately show ?thesis by (metis bit_take_bit_iff)
  qed
  have bits: "bit (be48_as_loaded x) n \<longleftrightarrow> (if n < 16 then bit x (32 + n) else bit x n)" for n
    using high [of n] bit_imp_le_length [of x n]
    by (cases "n < 16") (auto simp: be48_as_loaded_def bit_simps)
  have "be48_as_loaded x = x \<longleftrightarrow> (\<forall>n < 16. bit x (32 + n) \<longleftrightarrow> bit x n)"
  proof
    assume "be48_as_loaded x = x"
    then show "\<forall>n < 16. bit x (32 + n) \<longleftrightarrow> bit x n" using bits by metis
  next
    assume "\<forall>n < 16. bit x (32 + n) \<longleftrightarrow> bit x n"
    then show "be48_as_loaded x = x" by (intro bit_word_eqI) (simp add: bits)
  qed
  also have "\<dots> \<longleftrightarrow> (ucast x :: u16) = ucast (drop_bit 32 x)"
    by (auto simp: bit_eq_iff [of "ucast x :: u16"] bit_simps)
  finally show ?thesis by simp
qed

lemma be48_load_exact_iff_witness:
  "load_be48 ([0] @ be_bytes 6 (65537 :: u64) @ []) (length [0 :: byte]) = Inr (65537 :: u64) \<longleftrightarrow>
     (ucast (65537 :: u64) :: u16) = ucast (drop_bit 32 (65537 :: u64))"
  by (rule be48_load_exact_iff) simp

text \<open>
  C14. The dispatch table sends each of the 22 message types to its own parser when the handler has
  an overload for it and to the routine that ignores it otherwise; every other byte below 128 goes
  to the routine that throws, and a byte from 128 up indexes outside the table.
\<close>

theorem dispatch_table_correct:
  "dispatch ops (byte_of_char (type_char k)) mem src h =
     (if has_handle ops k then parse_and_handle ops k mem src h else Inr h) \<and>
   dispatch ops b mem src h =
     (if 128 \<le> b then Inl Out_Of_Bounds
      else if is_valid_message_type b then
        call_parse_fn ops (make_dispatch ops ! unat b) mem src h
      else bad_type mem src) \<and>
   is_valid_message_type b = (\<exists>k. b = byte_of_char (type_char k))"
proof -
  have "dispatch ops b mem src h = call_parse_fn ops (make_dispatch ops ! unat b) mem src h" if "b < 128"
    using that by (simp add: dispatch_def dispatch_index_low)
  then show ?thesis
    using dispatch_known [of ops k mem src h] dispatch_high [of b ops mem src h]
      dispatch_unknown [of b ops mem src h] is_valid_iff [of b]
    by (cases "128 \<le> b") (simp_all add: linorder_not_le [symmetric])
qed

text \<open>
  C15. Parsing is total and, given 49 readable bytes past the end of the buffer (the longest layout),
  stays inside memory as long as every frame starts with an ASCII type byte and the handler itself
  does not fail so: the parse of a frame may run past the frame's own end, but no further.
\<close>

theorem parse_in_bounds:
  assumes "src + len + 49 \<le> length mem" and "\<forall>i \<in> set (frame_starts mem (src + len) src). mem ! i < 128"
    and "\<And>m h. handle ops m h \<noteq> Inl Out_Of_Bounds"
  shows "parse ops mem src len h \<noteq> Inl Out_Of_Bounds"
proof -
  have "parse ops mem src len h = on_frames ops mem (frame_starts mem (src + len) src) h"
    using assms(1) by (simp add: parse_def parse_loop_on_frames)
  moreover have "\<forall>i \<in> set (frame_starts mem (src + len) src). mem ! i < 128 \<and> i + 50 \<le> length mem"
    using assms(1,2) frame_starts_less [of _ mem "src + len" src] by fastforce
  ultimately show ?thesis
    using on_frames_not_oob [of _ mem ops h] assms(3) by simp
qed

lemma parse_in_bounds_witness:
  "parse collector (frame (Msg_OrderDelete sample_delete) @ replicate 49 0) 0 21 [] \<noteq> Inl Out_Of_Bounds"
proof (rule parse_in_bounds)
  let ?mem = "frame (Msg_OrderDelete sample_delete) @ replicate 49 0"
  show "0 + 21 + 49 \<le> length ?mem" by code_simp
  have "frame_starts ?mem 21 0 = [2]" by code_simp
  then show "\<forall>i \<in> set (frame_starts ?mem (0 + 21) 0). ?mem ! i < 128" by simp code_simp
qed (simp add: collector_def)

text \<open>
  C16. The frame's size is never compared with the message's layout: a frame of one byte, complete by
  its own count, with a message type the handler takes, at the end of memory makes the parser read
  past it.
\<close>

theorem short_frame_overreads:
  assumes "has_handle ops k"
  shows "parse ops (pre @ [0, 1, byte_of_char (type_char k)]) (length pre) 3 h = Inl Out_Of_Bounds"
proof -
  let ?mem = "pre @ [0, 1, byte_of_char (type_char k)]"
  have size: "load_be_u16 ?mem (length pre) = Inr 1"
    by (simp add: load_be_u16_def rd_def nth_append)
  have "parse_msg k ?mem (Suc (Suc (Suc (length pre)))) = Inl Out_Of_Bounds"
    by (rule parse_msg_end) simp
  with assms size show ?thesis
    unfolding parse_def
    by (subst parse_loop.simps)
       (simp add: dispatch_known parse_and_handle_def rd_def numeral_3_eq_3 nth_append)
qed

lemma short_frame_overreads_witness:
  "parse collector ([7] @ [0, 1, byte_of_char (type_char ORDER_DELETE)]) (length [7 :: byte]) 3 [] = Inl Out_Of_Bounds"
  by (rule short_frame_overreads) (simp add: collector_def)

text \<open>
  C17. An unknown type byte below 128 stops the parse with an exception whose message quotes the byte
  after it, not the unknown byte itself, since the pointer was advanced before the call.
\<close>

theorem unknown_type_error:
  assumes "b < 128" and "\<not> is_valid_message_type b" and "2 \<le> unat sz" and "length body = unat sz - 1"
  shows "parse ops (pre @ be_bytes 2 (sz :: u16) @ b # body @ post) (length pre) (2 + unat sz) h =
    Inl (Runtime_Error (''Unknown message type '' @ [CHR 0x27, char_of_byte (hd body), CHR 0x27]))"
proof -
  let ?mem = "pre @ be_bytes 2 sz @ b # body @ post"
  obtain c cs where body: "body = c # cs" using assms(3,4) by (cases body) auto
  have raw: "rd ?mem (Suc (Suc (length pre))) = Inr b" "rd ?mem (Suc (Suc (Suc (length pre)))) = Inr c"
    by (simp_all add: rd_def nth_append body)
  have "load_be_char ?mem (Suc (Suc (Suc (length pre)))) = Inr (char_of_byte c)"
    using raw(2) by (simp add: load_be_char_def)
  then show ?thesis
    using assms(3) raw(1) unfolding parse_def
    by (subst parse_loop.simps)
       (simp add: dispatch_unknown [OF assms(1,2)] numeral_3_eq_3 body bad_type_def)
qed

lemma unknown_type_error_witness:
  "parse collector ([7] @ be_bytes 2 (2 :: u16) @ 90 # [65] @ []) (length [7 :: byte]) (2 + unat (2 :: u16)) [] =
    Inl (Runtime_Error (''Unknown message type '' @ [CHR 0x27, char_of_byte (hd [65 :: byte]), CHR 0x27]))"
  by (rule unknown_type_error) (simp_all, code_simp)

end
