(* ===== verification/Order_Shared.thy ===== *)
theory Order_Shared
  imports Prelude
begin

text \<open>
  The types of \<open>include/order_book_shared.hpp\<close>: price levels, sides, orders, the report of a
  change of the best level, and the assertion \<open>UNEXPECTED\<close> that aborts the process.
\<close>

record Level =
  qty :: u64
  price :: u32

text \<open>
  \<open>enum class Side : char\<close> has a fixed underlying type, so the cast of any \<open>char\<close> is a value of
  it; \<open>Side_Value\<close> holds the ones that are no enumerator.
\<close>

datatype Side = Side_None | Bid | Ask | Side_Value char

definition side_of_char :: "char \<Rightarrow> Side" where
  "side_of_char c =
     (if c = CHR 0x00 then Side_None else if c = CHR ''B'' then Bid
      else if c = CHR ''S'' then Ask else Side_Value c)"

record Order =
  qty :: u32
  price :: u32
  side :: Side

record BestLvlChange =
  qty :: u64
  price :: u32
  side :: Side

text \<open>The value-initialised \<open>BestLvlChange{}\<close>, which reports no change.\<close>

definition no_change :: BestLvlChange where
  "no_change = \<lparr>BestLvlChange.qty = 0, BestLvlChange.price = 0, BestLvlChange.side = Side_None\<rparr>"

definition abort_unexpected :: "string \<Rightarrow> 'a result" where
  "abort_unexpected message = Inl (Unexpected message)"

definition UNEXPECTED :: "bool \<Rightarrow> string \<Rightarrow> unit result" where
  "UNEXPECTED condition message = (if condition then abort_unexpected message else Inr ())"

lemma UNEXPECTED_simps [simp]:
  "UNEXPECTED True message = Inl (Unexpected message)"
  "UNEXPECTED False message = Inr ()"
  by (simp_all add: UNEXPECTED_def abort_unexpected_def)

lemma UNEXPECTED_bind:
  "rbind (UNEXPECTED c message) f = (if c then Inl (Unexpected message) else f ())"
  by simp

lemma side_no_change [simp]: "BestLvlChange.side no_change = Side_None"
  by (simp add: no_change_def)

end
