(* ===== verification/Search.thy ===== *)
theory Search
  imports Order_Shared
begin

text \<open>
  \<open>std::lower_bound\<close>, the binary search all the sorted level containers share, as the halving
  loop over the remaining distance, and its equivalence with the partition point it promises.
\<close>

function lower_bound_loop :: "('a \<Rightarrow> 'v \<Rightarrow> bool) \<Rightarrow> 'a list \<Rightarrow> 'v \<Rightarrow> nat \<Rightarrow> nat \<Rightarrow> nat" where
  "lower_bound_loop cmp xs v first len =
     (if len = 0 then first
      else
        let half = len div 2; middle = first + half
        in if cmp (xs ! middle) v
           then lower_bound_loop cmp xs v (middle + 1) (len - half - 1)
           else lower_bound_loop cmp xs v first half)"
  by pat_completeness auto
termination
  by (relation "measure (\<lambda>(cmp, xs, v, first, len). len)") auto

declare lower_bound_loop.simps [simp del]

definition lower_bound :: "('a \<Rightarrow> 'v \<Rightarrow> bool) \<Rightarrow> 'a list \<Rightarrow> 'v \<Rightarrow> nat" where
  "lower_bound cmp xs v = lower_bound_loop cmp xs v 0 (length xs)"

text \<open>\<open>k\<close> is the partition point: \<open>cmp _ v\<close> holds exactly for the elements before it.\<close>

definition partition_point :: "('a \<Rightarrow> 'v \<Rightarrow> bool) \<Rightarrow> 'a list \<Rightarrow> 'v \<Rightarrow> nat \<Rightarrow> bool" where
  "partition_point cmp xs v k \<longleftrightarrow>
     k \<le> length xs \<and> (\<forall>i < length xs. cmp (xs ! i) v \<longleftrightarrow> i < k)"

lemma lower_bound_loop_eq:
  assumes "partition_point cmp xs v k"
    and "first \<le> k" and "k \<le> first + len" and "first + len \<le> length xs"
  shows "lower_bound_loop cmp xs v first len = k"
  using assms
proof (induction cmp xs v first len rule: lower_bound_loop.induct)
  case (1 cmp xs v first len)
  show ?case
  proof (cases "len = 0")
    case True
    with "1.prems" show ?thesis by (simp add: lower_bound_loop.simps)
  next
    case False
    let ?mid = "first + len div 2"
    from False have mid: "?mid < first + len" by simp
    with "1.prems" have "?mid < length xs" by simp
    with "1.prems"(1) have "cmp (xs ! ?mid) v \<longleftrightarrow> ?mid < k"
      by (simp add: partition_point_def)
    with False "1.IH" "1.prems" mid show ?thesis
      by (subst lower_bound_loop.simps) (auto simp: Let_def)
  qed
qed

lemma lower_bound_eq: "partition_point cmp xs v k \<Longrightarrow> lower_bound cmp xs v = k"
  unfolding lower_bound_def
  by (rule lower_bound_loop_eq) (auto simp: partition_point_def)

section \<open>The order of price levels on a side\<close>

text \<open>
  The comparator of the level containers: on the bid side prices ascend, on the other side they
  descend, so that the best price is the last one.
\<close>

definition lvl_lt :: "Side \<Rightarrow> u32 \<Rightarrow> u32 \<Rightarrow> bool" where
  "lvl_lt S lhs rhs = (if S = Bid then lhs < rhs else lhs > rhs)"

lemma lvl_lt_irrefl [simp]: "\<not> lvl_lt S p p"
  by (simp add: lvl_lt_def)

lemma lvl_lt_trans: "lvl_lt S a b \<Longrightarrow> lvl_lt S b c \<Longrightarrow> lvl_lt S a c"
  by (auto simp: lvl_lt_def split: if_splits)

lemma lvl_lt_total: "a = b \<or> lvl_lt S a b \<or> lvl_lt S b a"
  by (auto simp: lvl_lt_def)

lemma lvl_lt_asym: "lvl_lt S a b \<Longrightarrow> \<not> lvl_lt S b a"
  by (auto simp: lvl_lt_def split: if_splits)

lemma not_lvl_lt: "\<not> lvl_lt S a b \<longleftrightarrow> a = b \<or> lvl_lt S b a"
  using lvl_lt_total [of a b S] lvl_lt_asym [of S b a] by auto

definition sorted_prices :: "Side \<Rightarrow> u32 list \<Rightarrow> bool" where
  "sorted_prices S ps = sorted_wrt (lvl_lt S) ps"

lemma sorted_prices_distinct: "sorted_prices S ps \<Longrightarrow> distinct ps"
  unfolding sorted_prices_def by (induction ps) auto

lemma sorted_prices_nth:
  "sorted_prices S ps \<Longrightarrow> i < j \<Longrightarrow> j < length ps \<Longrightarrow> lvl_lt S (ps ! i) (ps ! j)"
  by (simp add: sorted_prices_def sorted_wrt_iff_nth_less)

lemma sorted_prices_partition:
  assumes "sorted_prices S ps"
  shows "partition_point (lvl_lt S) ps p (length (takeWhile (\<lambda>x. lvl_lt S x p) ps))"
proof -
  let ?k = "length (takeWhile (\<lambda>x. lvl_lt S x p) ps)"
  have k: "?k \<le> length ps" by (rule length_takeWhile_le)
  have "lvl_lt S (ps ! i) p \<longleftrightarrow> i < ?k" if i: "i < length ps" for i
  proof (cases "i < ?k")
    case True
    then show ?thesis
      by (metis nth_mem set_takeWhileD takeWhile_nth)
  next
    case False
    then have "?k < length ps" and "?k \<le> i" using i by auto
    then have "\<not> lvl_lt S (ps ! ?k) p" by (metis nth_length_takeWhile)
    then show ?thesis
      using sorted_prices_nth [OF assms, of ?k i] \<open>?k \<le> i\<close> i False lvl_lt_trans
      by (cases "?k = i") auto
  qed
  with k show ?thesis by (simp add: partition_point_def)
qed

lemma lower_bound_sorted:
  "sorted_prices S ps \<Longrightarrow>
   lower_bound (lvl_lt S) ps p = length (takeWhile (\<lambda>x. lvl_lt S x p) ps)"
  by (rule lower_bound_eq) (rule sorted_prices_partition)

lemma lower_bound_le: "sorted_prices S ps \<Longrightarrow> lower_bound (lvl_lt S) ps p \<le> length ps"
  by (simp add: lower_bound_sorted length_takeWhile_le)

lemma lower_bound_before:
  assumes "sorted_prices S ps" and "x \<in> set (take (lower_bound (lvl_lt S) ps p) ps)"
  shows "lvl_lt S x p"
  using assms by (auto simp: lower_bound_sorted takeWhile_eq_take [symmetric] dest: set_takeWhileD)

lemma lower_bound_hit:
  assumes s: "sorted_prices S ps"
  shows "p \<in> set ps \<longleftrightarrow>
         lower_bound (lvl_lt S) ps p < length ps \<and> ps ! lower_bound (lvl_lt S) ps p = p"
proof -
  have pp: "partition_point (lvl_lt S) ps p (lower_bound (lvl_lt S) ps p)"
    using sorted_prices_partition [OF s, of p] by (simp add: lower_bound_sorted s)
  show ?thesis
  proof
    assume "p \<in> set ps"
    then obtain i where i: "i < length ps" "ps ! i = p" by (auto simp: in_set_conv_nth)
    then have "\<not> i < lower_bound (lvl_lt S) ps p"
      using pp by (auto simp: partition_point_def)
    moreover have "\<not> lower_bound (lvl_lt S) ps p < i"
      using pp i sorted_prices_nth [OF s, of "lower_bound (lvl_lt S) ps p" i]
      by (auto simp: partition_point_def)
    ultimately show "lower_bound (lvl_lt S) ps p < length ps \<and> ps ! lower_bound (lvl_lt S) ps p = p"
      using i by auto
  qed (metis nth_mem)
qed

lemma lower_bound_after:
  assumes s: "sorted_prices S ps" and "p \<notin> set ps"
    and "x \<in> set (drop (lower_bound (lvl_lt S) ps p) ps)"
  shows "lvl_lt S p x"
proof -
  let ?k = "lower_bound (lvl_lt S) ps p"
  from assms(3) obtain j where "j < length (drop ?k ps)" "x = drop ?k ps ! j"
    unfolding in_set_conv_nth by blast
  then have i: "?k + j < length ps" "x = ps ! (?k + j)"
    using lower_bound_le [OF s, of p] by (simp_all add: less_diff_conv add.commute)
  then have "\<not> lvl_lt S x p"
    using sorted_prices_partition [OF s, of p] by (simp add: lower_bound_sorted s partition_point_def)
  moreover have "x \<noteq> p" using assms(2) i nth_mem by metis
  ultimately show ?thesis by (auto simp: not_lvl_lt)
qed

end
