(* ===== verification/Levels_Spec.thy ===== *)
theory Levels_Spec
  imports Search
begin

text \<open>
  What a container of price levels promises, whichever of the files of \<open>include/levels\<close>
  implements it. Abstractly a side of the book is its depth, the finite map from a price to the
  quantity resting there; adding and removing quantity, and the best level, are stated on that
  map. The locales at the end are the interfaces the containers provide and the order book uses.
\<close>

section \<open>The depth of one side\<close>

type_synonym depth = "u32 \<rightharpoonup> u64"

definition spec_add :: "depth \<Rightarrow> Level \<Rightarrow> depth" where
  "spec_add d v = d(Level.price v \<mapsto>
     (case d (Level.price v) of None \<Rightarrow> Level.qty v | Some q \<Rightarrow> q + Level.qty v))"

definition spec_remove :: "depth \<Rightarrow> Level \<Rightarrow> depth option" where
  "spec_remove d v =
     (case d (Level.price v) of
        None \<Rightarrow> None
      | Some q \<Rightarrow>
          if q < Level.qty v then None
          else if q = Level.qty v then Some (d(Level.price v := None))
          else Some (d(Level.price v \<mapsto> q - Level.qty v)))"

definition empty_level :: Level where
  "empty_level = \<lparr>Level.qty = 0, Level.price = 0\<rparr>"

text \<open>
  \<open>v\<close> is the best level of \<open>d\<close>: its price is listed with its quantity and every other price is
  worse; the empty side has the level \<open>{0, 0}\<close>.
\<close>

definition is_best :: "Side \<Rightarrow> depth \<Rightarrow> Level \<Rightarrow> bool" where
  "is_best S d v \<longleftrightarrow>
     (if d = Map.empty then v = empty_level
      else d (Level.price v) = Some (Level.qty v) \<and>
           (\<forall>p \<in> dom d. p = Level.price v \<or> lvl_lt S p (Level.price v)))"

lemma is_best_unique: "is_best S d v \<Longrightarrow> is_best S d w \<Longrightarrow> v = w"
proof (cases "d = Map.empty")
  case False
  assume v: "is_best S d v" and w: "is_best S d w"
  with False have "Level.price v \<in> dom d" and "Level.price w \<in> dom d"
    by (auto simp: is_best_def)
  with v w False have "Level.price v = Level.price w"
    unfolding is_best_def by (metis lvl_lt_asym)
  moreover from this v w False have "Level.qty v = Level.qty w"
    by (simp add: is_best_def)
  ultimately show "v = w" by simp
qed (simp add: is_best_def)

lemma spec_add_not_empty: "spec_add d v \<noteq> Map.empty"
  by (simp add: spec_add_def)

lemma spec_add_apply:
  "spec_add d v p =
     (if p = Level.price v
      then Some (case d p of None \<Rightarrow> Level.qty v | Some q \<Rightarrow> q + Level.qty v) else d p)"
  by (simp add: spec_add_def)

lemma dom_spec_add [simp]: "dom (spec_add d v) = insert (Level.price v) (dom d)"
  by (auto simp: spec_add_def)

text \<open>The code tests the remaining quantity for zero after the subtraction.\<close>

lemma spec_remove_Some:
  "spec_remove d v = Some d' \<longleftrightarrow>
     (\<exists>q. d (Level.price v) = Some q \<and> Level.qty v \<le> q \<and>
        d' = (if q - Level.qty v = 0 then d(Level.price v := None)
              else d(Level.price v \<mapsto> q - Level.qty v)))"
  by (auto simp: spec_remove_def not_less split: option.splits)

lemma spec_remove_None:
  "spec_remove d v = None \<longleftrightarrow>
     d (Level.price v) = None \<or> (\<exists>q. d (Level.price v) = Some q \<and> q < Level.qty v)"
  by (auto simp: spec_remove_def split: option.splits)

section \<open>Sorted association lists\<close>

text \<open>Levels in container order: the prices ascend in the order of the side.\<close>

definition sorted_levels :: "Side \<Rightarrow> (u32 \<times> u64) list \<Rightarrow> bool" where
  "sorted_levels S al = sorted_prices S (map fst al)"

lemma sorted_levels_Nil [simp]: "sorted_levels S []"
  by (simp add: sorted_levels_def sorted_prices_def)

lemma sorted_levels_append:
  "sorted_levels S (xs @ ys) \<longleftrightarrow>
     sorted_levels S xs \<and> sorted_levels S ys \<and>
     (\<forall>x \<in> fst ` set xs. \<forall>y \<in> fst ` set ys. lvl_lt S x y)"
  by (auto simp: sorted_levels_def sorted_prices_def sorted_wrt_append)

lemma sorted_levels_Cons:
  "sorted_levels S (x # xs) \<longleftrightarrow> sorted_levels S xs \<and> (\<forall>y \<in> fst ` set xs. lvl_lt S (fst x) y)"
  by (auto simp: sorted_levels_def sorted_prices_def)

lemma sorted_levels_distinct: "sorted_levels S al \<Longrightarrow> distinct (map fst al)"
  by (simp add: sorted_levels_def sorted_prices_distinct)

lemma sorted_levels_update:
  "sorted_levels S al \<Longrightarrow> i < length al \<Longrightarrow> sorted_levels S (al[i := (fst (al ! i), q)])"
  by (simp add: sorted_levels_def map_update) (metis list_update_id nth_map)

lemma sorted_levels_erase: "sorted_levels S al \<Longrightarrow> i < length al \<Longrightarrow> sorted_levels S (vec_erase i al)"
  by (subst (asm) list_split_at [of i al])
     (auto simp: vec_erase_def sorted_levels_append sorted_levels_Cons)

lemma sorted_levels_insert:
  assumes "sorted_levels S al" and "p \<notin> fst ` set al"
    and "i = lower_bound (lvl_lt S) (map fst al) p"
  shows "sorted_levels S (vec_insert i (p, q) al)"
proof -
  have s: "sorted_prices S (map fst al)" using assms(1) by (simp add: sorted_levels_def)
  have "lvl_lt S x p" if "x \<in> fst ` set (take i al)" for x
    using lower_bound_before [OF s, of x p] that assms(3) by (simp add: take_map)
  moreover have "lvl_lt S p x" if "x \<in> fst ` set (drop i al)" for x
    using lower_bound_after [OF s, of p x] that assms(2,3) by (simp add: drop_map)
  moreover have "sorted_levels S (take i al @ drop i al)" using assms(1) by simp
  ultimately show ?thesis
    unfolding vec_insert_def sorted_levels_append sorted_levels_Cons
    by (auto dest: lvl_lt_trans)
qed

lemma map_of_insert_mid:
  "p \<notin> fst ` set xs \<Longrightarrow> map_of (xs @ (p, q) # ys) = (map_of (xs @ ys))(p \<mapsto> q)"
proof (induction xs)
  case (Cons x xs)
  then show ?case by (cases x) (auto simp: fun_upd_twist)
qed simp

lemma map_of_vec_insert:
  assumes "p \<notin> fst ` set al"
  shows "map_of (vec_insert i (p, q) al) = (map_of al)(p \<mapsto> q)"
proof -
  have "p \<notin> fst ` set (take i al)" using assms by (auto dest: in_set_takeD)
  then show ?thesis
    using map_of_insert_mid [of p "take i al" q "drop i al"] by (simp add: vec_insert_def)
qed

lemma map_of_update_at:
  assumes "distinct (map fst al)" and "i < length al" and "fst (al ! i) = p"
  shows "map_of (al[i := (p, q)]) = (map_of al)(p \<mapsto> q)"
  using assms
proof (induction al arbitrary: i)
  case (Cons a al)
  show ?case
  proof (cases i)
    case 0
    with Cons.prems show ?thesis by (cases a) (simp add: fun_upd_def fun_eq_iff)
  next
    case (Suc j)
    with Cons.prems have "fst a \<noteq> p" by (auto simp: image_iff)
    moreover have "map_of (al[j := (p, q)]) = (map_of al)(p \<mapsto> q)"
      by (rule Cons.IH) (use Cons.prems Suc in auto)
    ultimately show ?thesis using Suc by (cases a) (auto simp: fun_eq_iff)
  qed
qed simp

lemma map_of_vec_erase:
  assumes "distinct (map fst al)" and "i < length al" and "fst (al ! i) = p"
  shows "map_of (vec_erase i al) = (map_of al)(p := None)"
  using assms
proof (induction al arbitrary: i)
  case (Cons a al)
  show ?case
  proof (cases i)
    case 0
    with Cons.prems have "map_of al p = None"
      by (auto simp: map_of_eq_None_iff)
    with 0 Cons.prems show ?thesis
      by (cases a) (auto simp: vec_erase_def fun_eq_iff)
  next
    case (Suc j)
    with Cons.prems have "fst a \<noteq> p" by (auto simp: image_iff)
    moreover have "map_of (vec_erase j al) = (map_of al)(p := None)"
      by (rule Cons.IH) (use Cons.prems Suc in auto)
    moreover from Suc have "vec_erase i (a # al) = a # vec_erase j al" by (simp add: vec_erase_def)
    ultimately show ?thesis by (cases a) (auto simp: fun_eq_iff)
  qed
qed simp

text \<open>The last level of a sorted list is the best one.\<close>

lemma is_best_last:
  assumes "sorted_levels S al"
  shows "is_best S (map_of al)
           (if al = [] then empty_level
            else \<lparr>Level.qty = snd (last al), Level.price = fst (last al)\<rparr>)"
proof (cases al rule: rev_cases)
  case Nil
  then show ?thesis by (simp add: is_best_def)
next
  case (snoc xs x)
  have d: "distinct (map fst al)" using assms by (rule sorted_levels_distinct)
  then have "map_of al (fst x) = Some (snd x)"
    using snoc by (intro map_of_is_SomeI) auto
  moreover have "\<forall>p \<in> dom (map_of al). p = fst x \<or> lvl_lt S p (fst x)"
    using assms snoc by (auto simp: dom_map_of_conv_image_fst sorted_levels_append)
  moreover from calculation(1) have "map_of al \<noteq> Map.empty" by auto
  ultimately show ?thesis using snoc by (simp add: is_best_def)
qed

section \<open>The interface the order book uses\<close>

text \<open>
  The template parameter \<open>Levels\<close> of \<open>OrderBook\<close>: a container whose \<open>add\<close> and \<open>remove\<close> also
  report whether the best level changed. The side is the container's own template argument.
\<close>

record 'l levels_ops =
  levels_init :: "Side \<Rightarrow> 'l"
  levels_add :: "Side \<Rightarrow> 'l \<Rightarrow> Level \<Rightarrow> (BestLvlChange \<times> 'l) result"
  levels_remove :: "Side \<Rightarrow> 'l \<Rightarrow> Level \<Rightarrow> (BestLvlChange \<times> 'l) result"
  levels_best :: "Side \<Rightarrow> 'l \<Rightarrow> Level"

text \<open>
  What a report means for the depths before and after: the side \<open>None\<close> says that the best level
  is still the same, any other report carries the side and its best level after the operation.
\<close>

definition reports :: "Side \<Rightarrow> depth \<Rightarrow> depth \<Rightarrow> BestLvlChange \<Rightarrow> bool" where
  "reports S d d' ch \<longleftrightarrow>
     (if BestLvlChange.side ch = Side_None
      then ch = no_change \<and> (\<forall>b. is_best S d b \<longrightarrow> is_best S d' b)
      else BestLvlChange.side ch = S \<and>
           is_best S d' \<lparr>Level.qty = BestLvlChange.qty ch, Level.price = BestLvlChange.price ch\<rparr>)"

locale best_levels =
  fixes L :: "'l levels_ops"
    and depth_of :: "'l \<Rightarrow> depth"
    and invar :: "Side \<Rightarrow> 'l \<Rightarrow> bool"
  assumes init_ok: "invar S (levels_init L S) \<and> depth_of (levels_init L S) = Map.empty"
    and add_ok: "S \<in> {Bid, Ask} \<Longrightarrow> invar S l \<Longrightarrow>
      \<exists>ch l'. levels_add L S l v = Inr (ch, l') \<and> invar S l' \<and>
        depth_of l' = spec_add (depth_of l) v \<and> reports S (depth_of l) (depth_of l') ch"
    and remove_ok: "S \<in> {Bid, Ask} \<Longrightarrow> invar S l \<Longrightarrow> spec_remove (depth_of l) v = Some d \<Longrightarrow>
      \<exists>ch l'. levels_remove L S l v = Inr (ch, l') \<and> invar S l' \<and>
        depth_of l' = d \<and> reports S (depth_of l) d ch"
    and remove_abort: "invar S l \<Longrightarrow> spec_remove (depth_of l) v = None \<Longrightarrow>
      \<exists>message. levels_remove L S l v = Inl (Unexpected message)"
    and best_ok: "invar S l \<Longrightarrow> is_best S (depth_of l) (levels_best L S l)"
begin

text \<open>After a report the container's own \<open>best\<close> agrees with it; without one it did not move.\<close>

lemma best_after:
  assumes "invar S l" and "invar S l'" and "reports S (depth_of l) (depth_of l') ch"
  shows "levels_best L S l' =
    (if BestLvlChange.side ch = Side_None then levels_best L S l
     else \<lparr>Level.qty = BestLvlChange.qty ch, Level.price = BestLvlChange.price ch\<rparr>)"
  using assms(3) best_ok [OF assms(1)] best_ok [OF assms(2)]
  by (auto simp: reports_def intro: is_best_unique split: if_splits)

end

end
