(* ===== verification/Split_Levels.thy ===== *)
theory Split_Levels
  imports Levels_Spec
begin

text \<open>
  \<open>include/levels/vector_levels_b_search_split.hpp\<close>: the level container of the production
  handler, with prices and quantities in two parallel sorted vectors, and the proof that it
  provides the interface \<open>best_levels\<close>.
\<close>

record VectorLevelBSearchSplit =
  prices :: "u32 list"
  qtys :: "u64 list"

definition split_init :: "Side \<Rightarrow> VectorLevelBSearchSplit" where
  "split_init S = \<lparr>prices = [], qtys = []\<rparr>"

definition split_best :: "Side \<Rightarrow> VectorLevelBSearchSplit \<Rightarrow> Level" where
  "split_best S l =
     (if prices l \<noteq> [] then
        let i = length (prices l) - 1
        in \<lparr>Level.qty = qtys l ! i, Level.price = prices l ! i\<rparr>
      else \<lparr>Level.qty = 0, Level.price = 0\<rparr>)"

definition split_remove ::
    "Side \<Rightarrow> VectorLevelBSearchSplit \<Rightarrow> Level \<Rightarrow> (BestLvlChange \<times> VectorLevelBSearchSplit) result" where
  "split_remove S l level =
     (let old_size = length (prices l);
          idx = lower_bound (lvl_lt S) (prices l) (Level.price level)
      in rbind (UNEXPECTED (idx = length (prices l) \<or> prices l ! idx \<noteq> Level.price level)
                 ''Remove didn't find a level'') (\<lambda>_.
         let best_changed = (idx + 1 = old_size)
         in rbind (UNEXPECTED (Level.qty level > qtys l ! idx) ''Remove underflow'') (\<lambda>_.
            let l1 = l\<lparr>qtys := (qtys l)[idx := qtys l ! idx - Level.qty level]\<rparr>;
                l2 = (if qtys l1 ! idx = 0
                      then l1\<lparr>prices := vec_erase idx (prices l1), qtys := vec_erase idx (qtys l1)\<rparr>
                      else l1)
            in Inr
              (if \<not> best_changed then no_change
               else if prices l2 = [] then
                 \<lparr>BestLvlChange.qty = 0, BestLvlChange.price = 0, BestLvlChange.side = S\<rparr>
               else
                 \<lparr>BestLvlChange.qty = last (qtys l2), BestLvlChange.price = last (prices l2),
                  BestLvlChange.side = S\<rparr>,
               l2))))"

definition split_add ::
    "Side \<Rightarrow> VectorLevelBSearchSplit \<Rightarrow> Level \<Rightarrow> (BestLvlChange \<times> VectorLevelBSearchSplit) result" where
  "split_add S l level =
     (let old_size = length (prices l);
          idx = lower_bound (lvl_lt S) (prices l) (Level.price level);
          best_changed = (old_size = 0 \<or> idx + 1 \<ge> old_size);
          l' = (if idx \<noteq> length (prices l) \<and> prices l ! idx = Level.price level
                then l\<lparr>qtys := (qtys l)[idx := qtys l ! idx + Level.qty level]\<rparr>
                else l\<lparr>prices := vec_insert idx (Level.price level) (prices l),
                       qtys := vec_insert idx (Level.qty level) (qtys l)\<rparr>)
      in Inr
        (if best_changed
         then \<lparr>BestLvlChange.qty = last (qtys l'), BestLvlChange.price = last (prices l'),
               BestLvlChange.side = S\<rparr>
         else no_change,
         l'))"

definition split_ops :: "VectorLevelBSearchSplit levels_ops" where
  "split_ops =
     \<lparr>levels_init = split_init, levels_add = split_add, levels_remove = split_remove,
      levels_best = split_best\<rparr>"

section \<open>The two vectors as one sorted association list\<close>

definition split_alist :: "VectorLevelBSearchSplit \<Rightarrow> (u32 \<times> u64) list" where
  "split_alist l = zip (prices l) (qtys l)"

definition split_depth :: "VectorLevelBSearchSplit \<Rightarrow> depth" where
  "split_depth l = map_of (split_alist l)"

definition split_inv :: "Side \<Rightarrow> VectorLevelBSearchSplit \<Rightarrow> bool" where
  "split_inv S l \<longleftrightarrow> length (prices l) = length (qtys l) \<and> sorted_levels S (split_alist l)"

lemma split_fst: "split_inv S l \<Longrightarrow> map fst (split_alist l) = prices l"
  by (simp add: split_inv_def split_alist_def)

lemma split_sorted: "split_inv S l \<Longrightarrow> sorted_prices S (prices l)"
  using split_fst [of S l] by (simp add: split_inv_def sorted_levels_def)

lemma split_length: "split_inv S l \<Longrightarrow> length (qtys l) = length (prices l)"
  by (simp add: split_inv_def)

lemma split_Nil: "split_inv S l \<Longrightarrow> qtys l = [] \<longleftrightarrow> prices l = []"
  by (metis split_length length_0_conv)

lemma split_nth:
  "split_inv S l \<Longrightarrow> i < length (prices l) \<Longrightarrow> split_alist l ! i = (prices l ! i, qtys l ! i)"
  by (simp add: split_inv_def split_alist_def)

lemma split_is_best:
  assumes "split_inv S l"
  shows "is_best S (split_depth l)
    (if prices l = [] then empty_level
     else \<lparr>Level.qty = last (qtys l), Level.price = last (prices l)\<rparr>)"
proof -
  have "split_alist l = [] \<longleftrightarrow> prices l = []"
    using assms by (auto simp: split_inv_def split_alist_def)
  moreover have "last (split_alist l) = (last (prices l), last (qtys l))" if "prices l \<noteq> []"
    using that split_Nil [OF assms] split_length [OF assms]
    by (simp add: split_alist_def last_zip)
  ultimately show ?thesis
    using is_best_last [of S "split_alist l"] assms
    by (auto simp: split_inv_def split_depth_def)
qed

lemma split_best_eq:
  "split_inv S l \<Longrightarrow> split_best S l =
    (if prices l = [] then empty_level
     else \<lparr>Level.qty = last (qtys l), Level.price = last (prices l)\<rparr>)"
  using split_Nil [of S l] split_length [of S l]
  by (simp add: split_best_def empty_level_def last_conv_nth Let_def)

text \<open>What the binary search found, in terms of the depth.\<close>

lemma split_found:
  assumes inv: "split_inv S l" and idx: "idx = lower_bound (lvl_lt S) (prices l) p"
  shows "split_depth l p =
    (if idx = length (prices l) \<or> prices l ! idx \<noteq> p then None else Some (qtys l ! idx))"
proof -
  note s = split_sorted [OF inv]
  have le: "idx \<le> length (prices l)" using lower_bound_le [OF s] idx by simp
  show ?thesis
  proof (cases "idx = length (prices l) \<or> prices l ! idx \<noteq> p")
    case True
    then have "p \<notin> set (prices l)" using lower_bound_hit [OF s, of p] idx by auto
    then have "split_depth l p = None"
      using split_fst [OF inv] by (metis map_of_eq_None_iff set_map split_depth_def)
    with True show ?thesis by simp
  next
    case False
    with le have i: "idx < length (prices l)" by simp
    have "split_depth l (fst (split_alist l ! idx)) = Some (snd (split_alist l ! idx))"
      unfolding split_depth_def
      using i split_fst [OF inv] sorted_prices_distinct [OF s] split_length [OF inv]
      by (intro map_of_is_SomeI) (auto simp: split_alist_def set_zip)
    with False i show ?thesis by (simp add: split_nth [OF inv])
  qed
qed

section \<open>Adding a level\<close>

lemma split_add_update:
  assumes inv: "split_inv S l" and i: "idx < length (prices l)" "prices l ! idx = p"
  shows "split_inv S (l\<lparr>qtys := (qtys l)[idx := q]\<rparr>)"
    and "split_depth (l\<lparr>qtys := (qtys l)[idx := q]\<rparr>) = (split_depth l)(p \<mapsto> q)"
proof -
  have al: "split_alist (l\<lparr>qtys := (qtys l)[idx := q]\<rparr>) = (split_alist l)[idx := (p, q)]"
    by (simp add: split_alist_def update_zip flip: i(2))
  have len: "idx < length (split_alist l)" and p: "fst (split_alist l ! idx) = p"
    using inv i by (simp_all add: split_alist_def split_inv_def)
  show "split_inv S (l\<lparr>qtys := (qtys l)[idx := q]\<rparr>)"
    using inv sorted_levels_update [OF _ len, of S q] by (simp add: split_inv_def al p)
  show "split_depth (l\<lparr>qtys := (qtys l)[idx := q]\<rparr>) = (split_depth l)(p \<mapsto> q)"
    unfolding split_depth_def al
    using inv len p by (intro map_of_update_at) (auto simp: split_inv_def sorted_levels_distinct)
qed

lemma split_add_insert:
  fixes q :: u64
  assumes inv: "split_inv S l" and idx: "idx = lower_bound (lvl_lt S) (prices l) p"
    and p: "p \<notin> set (prices l)"
  defines "l' \<equiv> l\<lparr>prices := vec_insert idx p (prices l), qtys := vec_insert idx q (qtys l)\<rparr>"
  shows "split_inv S l'" and "split_depth l' = (split_depth l)(p \<mapsto> q)"
proof -
  have al: "split_alist l' = vec_insert idx (p, q) (split_alist l)"
    using inv by (simp add: l'_def split_alist_def split_inv_def zip_vec_insert)
  have p': "p \<notin> fst ` set (split_alist l)"
    using p split_fst [OF inv] by (metis set_map)
  show "split_inv S l'"
    using inv sorted_levels_insert [OF _ p', of S idx q] split_fst [OF inv] idx
    unfolding split_inv_def al by (simp add: l'_def split_inv_def)
  show "split_depth l' = (split_depth l)(p \<mapsto> q)"
    unfolding split_depth_def al using p' by (rule map_of_vec_insert)
qed

lemma split_erase:
  assumes inv: "split_inv S l" and i: "idx < length (prices l)" "prices l ! idx = p"
  defines "l' \<equiv> l\<lparr>prices := vec_erase idx (prices l), qtys := vec_erase idx (qtys l)\<rparr>"
  shows "split_inv S l'" and "split_depth l' = (split_depth l)(p := None)"
proof -
  have al: "split_alist l' = vec_erase idx (split_alist l)"
    using inv by (simp add: l'_def split_alist_def split_inv_def zip_vec_erase)
  have len: "idx < length (split_alist l)" and p: "fst (split_alist l ! idx) = p"
    using inv i by (simp_all add: split_alist_def split_inv_def)
  show "split_inv S l'"
    using inv i sorted_levels_erase [OF _ len] unfolding split_inv_def al
    by (simp add: l'_def)
  show "split_depth l' = (split_depth l)(p := None)"
    unfolding split_depth_def al
    using inv len p by (intro map_of_vec_erase) (auto simp: split_inv_def sorted_levels_distinct)
qed

text \<open>The best level is the last pair, so a change before the last pair leaves it alone.\<close>

definition split_last :: "VectorLevelBSearchSplit \<Rightarrow> Level" where
  "split_last l =
     (if prices l = [] then empty_level
      else \<lparr>Level.qty = last (qtys l), Level.price = last (prices l)\<rparr>)"

lemma split_last_is_best: "split_inv S l \<Longrightarrow> is_best S (split_depth l) (split_last l)"
  unfolding split_last_def by (rule split_is_best)

lemma reports_last:
  assumes "split_inv S l" and "split_inv S l'" and "S \<in> {Bid, Ask}"
    and "BestLvlChange.side ch = Side_None \<Longrightarrow> ch = no_change \<and> split_last l' = split_last l"
    and "BestLvlChange.side ch \<noteq> Side_None \<Longrightarrow> BestLvlChange.side ch = S \<and>
      \<lparr>Level.qty = BestLvlChange.qty ch, Level.price = BestLvlChange.price ch\<rparr> = split_last l'"
  shows "reports S (split_depth l) (split_depth l') ch"
  using assms split_last_is_best [OF assms(1)] split_last_is_best [OF assms(2)]
  by (auto simp: reports_def dest: is_best_unique)

lemma last_list_update: "Suc i < length xs \<Longrightarrow> last (xs[i := x]) = last xs"
  by (cases xs rule: rev_cases) (auto simp: list_update_append)

lemma last_vec_insert: "i < length xs \<Longrightarrow> last (vec_insert i x xs) = last xs"
  by (simp add: vec_insert_def)

lemma last_vec_erase: "Suc i < length xs \<Longrightarrow> last (vec_erase i xs) = last xs"
  by (simp add: vec_erase_def)

lemma split_add_ok:
  assumes S: "S \<in> {Bid, Ask}" and inv: "split_inv S l"
  shows "\<exists>ch l'. split_add S l v = Inr (ch, l') \<and> split_inv S l' \<and>
           split_depth l' = spec_add (split_depth l) v \<and> reports S (split_depth l) (split_depth l') ch"
proof -
  let ?p = "Level.price v"
  let ?idx = "lower_bound (lvl_lt S) (prices l) ?p"
  let ?best = "length (prices l) = 0 \<or> ?idx + 1 \<ge> length (prices l)"
  have le: "?idx \<le> length (prices l)" by (rule lower_bound_le [OF split_sorted [OF inv]])
  have found: "split_depth l ?p =
    (if ?idx = length (prices l) \<or> prices l ! ?idx \<noteq> ?p then None else Some (qtys l ! ?idx))"
    by (rule split_found [OF inv refl])
  define l' where "l' = (if ?idx \<noteq> length (prices l) \<and> prices l ! ?idx = ?p
      then l\<lparr>qtys := (qtys l)[?idx := qtys l ! ?idx + Level.qty v]\<rparr>
      else l\<lparr>prices := vec_insert ?idx ?p (prices l), qtys := vec_insert ?idx (Level.qty v) (qtys l)\<rparr>)"
  define ch where "ch = (if ?best
      then \<lparr>BestLvlChange.qty = last (qtys l'), BestLvlChange.price = last (prices l'),
            BestLvlChange.side = S\<rparr> else no_change)"
  have add: "split_add S l v = Inr (ch, l')"
    by (simp add: split_add_def Let_def l'_def ch_def)
  have ok: "split_inv S l' \<and> split_depth l' = spec_add (split_depth l) v \<and>
    prices l' \<noteq> [] \<and> (\<not> ?best \<longrightarrow> split_last l' = split_last l)"
  proof (cases "?idx \<noteq> length (prices l) \<and> prices l ! ?idx = ?p")
    case True
    with le have i: "?idx < length (prices l)" by simp
    then have "prices l \<noteq> []" by auto
    with True i split_add_update [OF inv i, of ?p "qtys l ! ?idx + Level.qty v"] found
    show ?thesis
      by (auto simp: l'_def spec_add_def split_last_def last_list_update split_length [OF inv])
  next
    case False
    then have p: "?p \<notin> set (prices l)"
      using lower_bound_hit [OF split_sorted [OF inv], of ?p] by auto
    show ?thesis
      using False split_add_insert [OF inv refl p, of "Level.qty v"] found
      by (auto simp: l'_def spec_add_def split_last_def last_vec_insert split_length [OF inv])
  qed
  have "reports S (split_depth l) (split_depth l') ch"
    using ok S by (intro reports_last [OF inv]) (auto simp: ch_def split_last_def split: if_splits)
  with add ok show ?thesis by blast
qed

section \<open>Removing quantity\<close>

text \<open>The quantity left is written back and the level erased when it is zero.\<close>

definition split_left :: "nat \<Rightarrow> u64 \<Rightarrow> VectorLevelBSearchSplit \<Rightarrow> VectorLevelBSearchSplit" where
  "split_left idx q l =
     (if q = 0 then l\<lparr>prices := vec_erase idx (prices l), qtys := vec_erase idx ((qtys l)[idx := q])\<rparr>
      else l\<lparr>qtys := (qtys l)[idx := q]\<rparr>)"

lemma split_left_ok:
  assumes inv: "split_inv S l" and i: "idx < length (prices l)" "prices l ! idx = p"
  shows "split_inv S (split_left idx q l)"
    and "split_depth (split_left idx q l) = (if q = 0 then (split_depth l)(p := None) else (split_depth l)(p \<mapsto> q))"
    and "idx + 1 \<noteq> length (prices l) \<Longrightarrow> split_last (split_left idx q l) = split_last l"
proof -
  let ?l1 = "l\<lparr>qtys := (qtys l)[idx := q]\<rparr>"
  have l1: "split_inv S ?l1" "split_depth ?l1 = (split_depth l)(p \<mapsto> q)"
    using split_add_update [OF inv i, of q] by simp_all
  have "idx < length (prices ?l1)" "prices ?l1 ! idx = p" using i by simp_all
  note erase = split_erase [OF l1(1) this]
  show "split_inv S (split_left idx q l)" using l1(1) erase(1) by (cases "q = 0") (simp_all add: split_left_def)
  show "split_depth (split_left idx q l) = (if q = 0 then (split_depth l)(p := None) else (split_depth l)(p \<mapsto> q))"
    using l1(2) erase(2) by (cases "q = 0") (simp_all add: split_left_def)
  assume "idx + 1 \<noteq> length (prices l)"
  with i(1) have "Suc idx < length (prices l)" by simp
  then show "split_last (split_left idx q l) = split_last l"
    by (auto simp: split_left_def split_last_def last_vec_erase last_list_update split_length [OF inv] vec_erase_def)
qed

lemma split_remove_eq:
  fixes l S v
  defines "idx \<equiv> lower_bound (lvl_lt S) (prices l) (Level.price v)"
  defines "l' \<equiv> split_left idx (qtys l ! idx - Level.qty v) l"
  assumes "idx < length (prices l)" and "prices l ! idx = Level.price v" and "Level.qty v \<le> qtys l ! idx"
    and len: "length (qtys l) = length (prices l)"
  shows "split_remove S l v = Inr (if idx + 1 \<noteq> length (prices l) then no_change
      else if prices l' = [] then \<lparr>BestLvlChange.qty = 0, BestLvlChange.price = 0, BestLvlChange.side = S\<rparr>
      else \<lparr>BestLvlChange.qty = last (qtys l'), BestLvlChange.price = last (prices l'),
            BestLvlChange.side = S\<rparr>, l')"
  using assms(3-5) unfolding split_remove_def Let_def l'_def split_left_def idx_def
  by (simp add: not_less [symmetric] len)

lemma split_remove_ok:
  assumes S: "S \<in> {Bid, Ask}" and inv: "split_inv S l"
    and spec: "spec_remove (split_depth l) v = Some d"
  shows "\<exists>ch l'. split_remove S l v = Inr (ch, l') \<and> split_inv S l' \<and>
           split_depth l' = d \<and> reports S (split_depth l) d ch"
proof -
  let ?p = "Level.price v"
  let ?idx = "lower_bound (lvl_lt S) (prices l) ?p"
  let ?l = "split_left ?idx (qtys l ! ?idx - Level.qty v) l"
  have "split_depth l ?p =
    (if ?idx = length (prices l) \<or> prices l ! ?idx \<noteq> ?p then None else Some (qtys l ! ?idx))"
    by (rule split_found [OF inv refl])
  with spec have "?idx \<noteq> length (prices l)" and hit: "prices l ! ?idx = ?p" "Level.qty v \<le> qtys l ! ?idx"
    and d: "d = (if qtys l ! ?idx - Level.qty v = 0 then (split_depth l)(?p := None)
      else (split_depth l)(?p \<mapsto> qtys l ! ?idx - Level.qty v))"
    by (auto simp: spec_remove_Some split: if_splits)
  then have i: "?idx < length (prices l)" using lower_bound_le [OF split_sorted [OF inv], of ?p] by simp
  note left = split_left_ok [OF inv i hit(1), of "qtys l ! ?idx - Level.qty v"]
  have "reports S (split_depth l) (split_depth ?l) ch"
    if "split_remove S l v = Inr (ch, ?l)" for ch
    using that left(1,3) S unfolding split_remove_eq [OF i hit split_length [OF inv]]
    by (intro reports_last [OF inv]) (auto simp: split_last_def empty_level_def split: if_splits)
  moreover have "split_depth ?l = d" using left(2) d by simp
  ultimately show ?thesis
    using left(1) split_remove_eq [OF i hit split_length [OF inv]] by blast
qed

lemma split_remove_abort:
  assumes inv: "split_inv S l" and spec: "spec_remove (split_depth l) v = None"
  shows "\<exists>message. split_remove S l v = Inl (Unexpected message)"
  using spec split_found [OF inv refl, of "Level.price v"]
  by (auto simp: spec_remove_None split_remove_def Let_def split: if_splits)

interpretation split_lv: best_levels split_ops split_depth split_inv
proof
  show "split_inv S (levels_init split_ops S) \<and> split_depth (levels_init split_ops S) = Map.empty" for S
    by (simp add: split_ops_def split_init_def split_inv_def split_depth_def split_alist_def)
  show "is_best S (split_depth l) (levels_best split_ops S l)" if "split_inv S l" for S l
    using split_is_best [OF that] by (simp add: split_ops_def split_best_eq [OF that])
qed (simp_all add: split_ops_def split_add_ok split_remove_ok split_remove_abort)

text \<open>
  A report need not tell anything new. \<open>add\<close> compares the index with the old size
  (\<open>idx + 1 >= old_size\<close>), so a price inserted just below the best one reports the best level again.
\<close>

lemma split_add_repeats_best:
  "split_best Bid \<lparr>prices = [10, 20], qtys = [5, 7]\<rparr> = \<lparr>Level.qty = 7, Level.price = 20\<rparr> \<and>
   split_add Bid \<lparr>prices = [10, 20], qtys = [5, 7]\<rparr> \<lparr>Level.qty = 3, Level.price = 15\<rparr> =
     Inr (\<lparr>BestLvlChange.qty = 7, BestLvlChange.price = 20, BestLvlChange.side = Bid\<rparr>,
       \<lparr>prices = [10, 15, 20], qtys = [5, 3, 7]\<rparr>)"
  by code_simp

end
