(* ===== verification/Absl.thy ===== *)
theory Absl
  imports Prelude
begin

text \<open>
  \<open>absl::flat_hash_map\<close> is a third-party container whose code is not part of the repository. Its
  operations are a record the definitions that use it take as an argument, and what the program
  relies on, the documented behaviour of the operations on the map from keys to values, is the
  predicate \<open>flat_hash_map_laws\<close>. Association lists satisfy it, so the hypothesis can
  hold.
\<close>

record ('k, 'v, 'm) flat_hash_map =
  hm_empty :: 'm
  hm_find :: "'m \<Rightarrow> 'k \<Rightarrow> 'v option"
  hm_insert :: "'m \<Rightarrow> 'k \<Rightarrow> 'v \<Rightarrow> 'm"
  hm_assign :: "'m \<Rightarrow> 'k \<Rightarrow> 'v \<Rightarrow> 'm"
  hm_erase :: "'m \<Rightarrow> 'k \<Rightarrow> 'm"
  hm_size :: "'m \<Rightarrow> nat"

text \<open>
  \<open>hm_find\<close> is \<open>find\<close>, \<open>contains\<close> and \<open>at\<close>; \<open>hm_insert\<close> is \<open>insert\<close>, \<open>emplace\<close> and the insertion of
  \<open>operator[]\<close>, which leave a present key alone; \<open>hm_assign\<close> is a write through the reference to
  the value of a present key.
\<close>

definition flat_hash_map_laws :: "('k, 'v, 'm) flat_hash_map \<Rightarrow> bool" where
  "flat_hash_map_laws H \<longleftrightarrow>
     hm_find H (hm_empty H) = Map.empty \<and>
     (\<forall>m k v. hm_find H (hm_insert H m k v) =
        (if hm_find H m k = None then (hm_find H m)(k \<mapsto> v) else hm_find H m)) \<and>
     (\<forall>m k v. hm_find H m k \<noteq> None \<longrightarrow> hm_find H (hm_assign H m k v) = (hm_find H m)(k \<mapsto> v)) \<and>
     (\<forall>m k. hm_find H (hm_erase H m k) = (hm_find H m)(k := None)) \<and>
     (\<forall>m. finite (dom (hm_find H m)) \<and> hm_size H m = card (dom (hm_find H m)))"

lemma flat_hash_map_lawsD:
  assumes "flat_hash_map_laws H"
  shows "hm_find H (hm_empty H) = Map.empty"
    and "hm_find H m k = None \<Longrightarrow> hm_find H (hm_insert H m k v) = (hm_find H m)(k \<mapsto> v)"
    and "hm_find H m k \<noteq> None \<Longrightarrow> hm_find H (hm_insert H m k v) = hm_find H m"
    and "hm_find H m k \<noteq> None \<Longrightarrow> hm_find H (hm_assign H m k v) = (hm_find H m)(k \<mapsto> v)"
    and "hm_find H (hm_erase H m k) = (hm_find H m)(k := None)"
    and "finite (dom (hm_find H m))"
    and "hm_size H m = card (dom (hm_find H m))"
  using assms unfolding flat_hash_map_laws_def by auto

section \<open>An instance\<close>

text \<open>Association lists satisfy the laws, and evaluate.\<close>

definition alist_hash_map :: "('k, 'v, ('k \<times> 'v) list) flat_hash_map" where
  "alist_hash_map =
     \<lparr>hm_empty = [], hm_find = map_of,
      hm_insert = (\<lambda>m k v. if map_of m k = None then (k, v) # m else m),
      hm_assign = (\<lambda>m k v. (k, v) # filter (\<lambda>e. fst e \<noteq> k) m),
      hm_erase = (\<lambda>m k. filter (\<lambda>e. fst e \<noteq> k) m),
      hm_size = (\<lambda>m. length (remdups (map fst m)))\<rparr>"

lemma map_of_erase: "map_of (filter (\<lambda>e. fst e \<noteq> k) m) = (map_of m)(k := None)"
  by (induction m) (auto simp: fun_eq_iff)

lemma alist_hash_map_laws [simp]: "flat_hash_map_laws alist_hash_map"
proof -
  have "length (remdups (map fst m)) = card (dom (map_of m))" for m :: "('a \<times> 'b) list"
    by (simp only: length_remdups_card_conv dom_map_of_conv_image_fst set_map)
  then show ?thesis
    by (auto simp: flat_hash_map_laws_def alist_hash_map_def map_of_erase finite_dom_map_of)
qed

end
