(* ===== verification/Order_Book.thy ===== *)
theory Order_Book
  imports Split_Levels Absl
begin

text \<open>
  \<open>include/order_book.hpp\<close>: the order book over any level container and hash map, its
  operations with their aborts, and the proof that the two sides always hold exactly the
  quantity of the live orders and that every report describes the best level.
\<close>

section \<open>The book and its operations\<close>

record ('l, 'm) OrderBook =
  max_orders :: u64
  orders_map :: 'm
  bid_levels :: 'l
  ask_levels :: 'l

definition book_init :: "'l levels_ops \<Rightarrow> (u64, Order, 'm) flat_hash_map \<Rightarrow> ('l, 'm) OrderBook" where
  "book_init L H =
     \<lparr>max_orders = 0, orders_map = hm_empty H, bid_levels = levels_init L Bid,
      ask_levels = levels_init L Ask\<rparr>"

definition best_bid :: "'l levels_ops \<Rightarrow> ('l, 'm) OrderBook \<Rightarrow> Level" where
  "best_bid L b = levels_best L Bid (bid_levels b)"

definition best_ask :: "'l levels_ops \<Rightarrow> ('l, 'm) OrderBook \<Rightarrow> Level" where
  "best_ask L b = levels_best L Ask (ask_levels b)"

text \<open>The two-way branch on the side that every operation contains.\<close>

definition add_on_side ::
    "'l levels_ops \<Rightarrow> ('l, 'm) OrderBook \<Rightarrow> Side \<Rightarrow> Level \<Rightarrow>
       (BestLvlChange \<times> ('l, 'm) OrderBook) result" where
  "add_on_side L b sd level =
     (if sd = Bid then
        rbind (levels_add L Bid (bid_levels b) level) (\<lambda>(ch, l). Inr (ch, b\<lparr>bid_levels := l\<rparr>))
      else
        rbind (levels_add L Ask (ask_levels b) level) (\<lambda>(ch, l). Inr (ch, b\<lparr>ask_levels := l\<rparr>)))"

definition remove_on_side ::
    "'l levels_ops \<Rightarrow> ('l, 'm) OrderBook \<Rightarrow> Side \<Rightarrow> Level \<Rightarrow>
       (BestLvlChange \<times> ('l, 'm) OrderBook) result" where
  "remove_on_side L b sd level =
     (if sd = Bid then
        rbind (levels_remove L Bid (bid_levels b) level) (\<lambda>(ch, l). Inr (ch, b\<lparr>bid_levels := l\<rparr>))
      else
        rbind (levels_remove L Ask (ask_levels b) level) (\<lambda>(ch, l). Inr (ch, b\<lparr>ask_levels := l\<rparr>)))"

definition mk_level :: "u32 \<Rightarrow> u32 \<Rightarrow> Level" where
  "mk_level n p = \<lparr>Level.qty = ucast n, Level.price = p\<rparr>"

definition mk_order :: "Side \<Rightarrow> u32 \<Rightarrow> u32 \<Rightarrow> Order" where
  "mk_order sd n p = \<lparr>Order.qty = n, Order.price = p, Order.side = sd\<rparr>"

definition add_order ::
    "'l levels_ops \<Rightarrow> (u64, Order, 'm) flat_hash_map \<Rightarrow> ('l, 'm) OrderBook \<Rightarrow>
       u64 \<Rightarrow> Side \<Rightarrow> u32 \<Rightarrow> u32 \<Rightarrow> (BestLvlChange \<times> ('l, 'm) OrderBook) result" where
  "add_order L H b order_id sd n p =
     (let b1 = b\<lparr>orders_map := hm_insert H (orders_map b) order_id (mk_order sd n p)\<rparr>
      in add_on_side L b1 sd (mk_level n p))"

text \<open>The common body of \<open>cancel_order\<close> and \<open>execute_order\<close>, which differ in their messages.\<close>

definition reduce_order ::
    "string \<Rightarrow> string \<Rightarrow> 'l levels_ops \<Rightarrow> (u64, Order, 'm) flat_hash_map \<Rightarrow> ('l, 'm) OrderBook \<Rightarrow>
       u64 \<Rightarrow> u32 \<Rightarrow> (BestLvlChange \<times> ('l, 'm) OrderBook) result" where
  "reduce_order missing too_big L H b order_id n =
     (case hm_find H (orders_map b) order_id of
        None \<Rightarrow> abort_unexpected missing
      | Some order \<Rightarrow>
          rbind (UNEXPECTED (Order.qty order < n) too_big) (\<lambda>_.
          rbind (remove_on_side L b (Order.side order) (mk_level n (Order.price order))) (\<lambda>(ch, b1).
            let order' = order\<lparr>Order.qty := Order.qty order - n\<rparr>;
                b2 = b1\<lparr>orders_map := hm_assign H (orders_map b1) order_id order'\<rparr>;
                b3 = (if Order.qty order' = 0
                      then b2\<lparr>orders_map := hm_erase H (orders_map b2) order_id\<rparr> else b2)
            in Inr (ch, b3))))"

definition cancel_order ::
    "'l levels_ops \<Rightarrow> (u64, Order, 'm) flat_hash_map \<Rightarrow> ('l, 'm) OrderBook \<Rightarrow>
       u64 \<Rightarrow> u32 \<Rightarrow> (BestLvlChange \<times> ('l, 'm) OrderBook) result" where
  "cancel_order =
     reduce_order ''Cancel order did not find an order''
       ''Partial cancel order volume greater than order volume''"

definition execute_order ::
    "'l levels_ops \<Rightarrow> (u64, Order, 'm) flat_hash_map \<Rightarrow> ('l, 'm) OrderBook \<Rightarrow>
       u64 \<Rightarrow> u32 \<Rightarrow> (BestLvlChange \<times> ('l, 'm) OrderBook) result" where
  "execute_order =
     reduce_order ''Execute order did not find an order''
       ''Partial execute order volume greater than order volume''"

definition replace_order ::
    "'l levels_ops \<Rightarrow> (u64, Order, 'm) flat_hash_map \<Rightarrow> ('l, 'm) OrderBook \<Rightarrow>
       u64 \<Rightarrow> u64 \<Rightarrow> u32 \<Rightarrow> u32 \<Rightarrow> (BestLvlChange \<times> ('l, 'm) OrderBook) result" where
  "replace_order L H b order_id new_order_id n p =
     (case hm_find H (orders_map b) order_id of
        None \<Rightarrow> abort_unexpected ''Replace order did not find an order''
      | Some old_order \<Rightarrow>
          let new_order = mk_order (Order.side old_order) n p
          in rbind (remove_on_side L b (Order.side new_order)
               (mk_level (Order.qty old_order) (Order.price old_order))) (\<lambda>(best_change_rem, b1).
             rbind (add_on_side L b1 (Order.side new_order) (mk_level n p)) (\<lambda>(best_change_add, b2).
               let b3 = b2\<lparr>orders_map := hm_erase H (orders_map b2) order_id\<rparr>;
                   b4 = b3\<lparr>orders_map := hm_insert H (orders_map b3) new_order_id new_order\<rparr>
               in Inr (if BestLvlChange.side best_change_add \<noteq> Side_None
                       then best_change_add else best_change_rem, b4))))"

definition delete_order ::
    "'l levels_ops \<Rightarrow> (u64, Order, 'm) flat_hash_map \<Rightarrow> ('l, 'm) OrderBook \<Rightarrow>
       u64 \<Rightarrow> (BestLvlChange \<times> ('l, 'm) OrderBook) result" where
  "delete_order L H b order_id =
     (case hm_find H (orders_map b) order_id of
        None \<Rightarrow> abort_unexpected ''Delete order did not find an order''
      | Some order \<Rightarrow>
          rbind (remove_on_side L b (Order.side order)
            (mk_level (Order.qty order) (Order.price order))) (\<lambda>(ch, b1).
            Inr (ch, b1\<lparr>orders_map := hm_erase H (orders_map b1) order_id\<rparr>)))"

section \<open>The abstract book: the live orders\<close>

type_synonym order_set = "u64 \<rightharpoonup> Order"

text \<open>
  Orders rest on one of two sides: the bid side, or the other one (\<open>else\<close> in the code, so also
  an order whose side byte is no enumerator). The depth at a price is the sum of the orders there.
\<close>

definition resting :: "order_set \<Rightarrow> bool \<Rightarrow> u32 \<Rightarrow> u64 set" where
  "resting orders bid p =
     {i. \<exists>ord. orders i = Some ord \<and> (Order.side ord = Bid) = bid \<and> Order.price ord = p}"

definition rest_qty :: "order_set \<Rightarrow> bool \<Rightarrow> u32 \<Rightarrow> nat" where
  "rest_qty orders bid p = (\<Sum>i \<in> resting orders bid p. unat (Order.qty (the (orders i))))"

definition book_depth :: "order_set \<Rightarrow> bool \<Rightarrow> depth" where
  "book_depth orders bid p =
     (if resting orders bid p = {} then None else Some (of_nat (rest_qty orders bid p)))"

definition orders_ok :: "order_set \<Rightarrow> bool" where
  "orders_ok orders \<longleftrightarrow>
     finite (dom orders) \<and> card (dom orders) \<le> 2 ^ 32 \<and>
     (\<forall>i ord. orders i = Some ord \<longrightarrow> Order.qty ord \<noteq> 0)"

definition reduced :: "order_set \<Rightarrow> u64 \<Rightarrow> u32 \<Rightarrow> order_set" where
  "reduced orders i n =
     (case orders i of
        None \<Rightarrow> orders
      | Some ord \<Rightarrow>
          if Order.qty ord - n = 0 then orders(i := None)
          else orders(i \<mapsto> ord\<lparr>Order.qty := Order.qty ord - n\<rparr>))"

lemma resting_subset: "resting orders bid p \<subseteq> dom orders"
  by (auto simp: resting_def)

lemma finite_resting: "finite (dom orders) \<Longrightarrow> finite (resting orders bid p)"
  by (rule finite_subset [OF resting_subset])

lemma rest_qty_eq_0:
  "orders_ok orders \<Longrightarrow> rest_qty orders bid p = 0 \<longleftrightarrow> resting orders bid p = {}"
  unfolding rest_qty_def orders_ok_def
  by (subst sum_eq_0_iff [OF finite_resting]) (auto simp: resting_def unat_eq_zero)

lemma rest_qty_less:
  assumes "orders_ok orders"
  shows "rest_qty orders bid p < 2 ^ 64"
proof -
  have "unat (x :: u32) \<le> 2 ^ 32 - 1" for x
    using unsigned_less [of x, where 'a = nat] by simp
  then have "rest_qty orders bid p \<le> of_nat (card (resting orders bid p)) * (2 ^ 32 - 1)"
    unfolding rest_qty_def by (intro sum_bounded_above) simp
  also have "\<dots> \<le> 2 ^ 32 * (2 ^ 32 - 1)"
    using assms card_mono [OF _ resting_subset, of orders bid p]
    by (intro mult_right_mono) (auto simp: orders_ok_def)
  also have "\<dots> < 2 ^ 64" by simp
  finally show ?thesis .
qed

lemma book_depth_eq:
  "orders_ok orders \<Longrightarrow> book_depth orders bid p =
     (if rest_qty orders bid p = 0 then None else Some (of_nat (rest_qty orders bid p)))"
  by (simp add: book_depth_def rest_qty_eq_0)

lemma resting_insert:
  "orders i = None \<Longrightarrow> resting (orders(i \<mapsto> ord)) bid p =
     (if (Order.side ord = Bid) = bid \<and> Order.price ord = p
      then insert i (resting orders bid p) else resting orders bid p)"
  by (auto simp: resting_def)

lemma rest_qty_insert:
  assumes "finite (dom orders)" and "orders i = None"
  shows "rest_qty (orders(i \<mapsto> ord)) bid p =
     (if (Order.side ord = Bid) = bid \<and> Order.price ord = p
      then unat (Order.qty ord) + rest_qty orders bid p else rest_qty orders bid p)"
proof -
  have i: "i \<notin> resting orders bid p" using assms(2) by (auto simp: resting_def)
  have "(\<Sum>j \<in> resting orders bid p. unat (Order.qty (the ((orders(i \<mapsto> ord)) j)))) =
        rest_qty orders bid p"
    unfolding rest_qty_def using i by (intro sum.cong) auto
  then show ?thesis
    using i finite_resting [OF assms(1), of bid p]
    by (simp add: rest_qty_def [of "orders(i \<mapsto> ord)"] resting_insert [of orders i, OF assms(2)])
qed

lemma book_depth_insert:
  assumes "finite (dom orders)" and "orders i = None"
  shows "book_depth (orders(i \<mapsto> ord)) bid =
    (if (Order.side ord = Bid) = bid
     then spec_add (book_depth orders bid) (mk_level (Order.qty ord) (Order.price ord))
     else book_depth orders bid)"
proof
  fix p
  have "rest_qty orders bid p = 0" if "resting orders bid p = {}"
    using that by (simp add: rest_qty_def)
  moreover have "(of_nat (unat (Order.qty ord)) :: u64) = ucast (Order.qty ord)" by simp
  ultimately show "book_depth (orders(i \<mapsto> ord)) bid p =
    (if (Order.side ord = Bid) = bid
     then spec_add (book_depth orders bid) (mk_level (Order.qty ord) (Order.price ord))
     else book_depth orders bid) p"
    using rest_qty_insert [of orders i ord bid p, OF assms]
      resting_insert [of orders i ord bid p, OF assms(2)]
    by (cases "(Order.side ord = Bid) = bid \<and> Order.price ord = p")
       (auto simp: book_depth_def spec_add_apply mk_level_def add.commute simp del: fun_upd_apply)
qed

text \<open>One order's share of the depth, apart from the others.\<close>

definition own_qty :: "order_set \<Rightarrow> u64 \<Rightarrow> bool \<Rightarrow> u32 \<Rightarrow> nat" where
  "own_qty orders i bid p =
     (case orders i of
        None \<Rightarrow> 0
      | Some ord \<Rightarrow>
          if (Order.side ord = Bid) = bid \<and> Order.price ord = p then unat (Order.qty ord) else 0)"

definition others_qty :: "order_set \<Rightarrow> u64 \<Rightarrow> bool \<Rightarrow> u32 \<Rightarrow> nat" where
  "others_qty orders i bid p =
     (\<Sum>j \<in> resting orders bid p - {i}. unat (Order.qty (the (orders j))))"

lemma rest_qty_split:
  assumes "finite (dom orders)"
  shows "rest_qty orders bid p = own_qty orders i bid p + others_qty orders i bid p"
proof (cases "i \<in> resting orders bid p")
  case True
  then have "own_qty orders i bid p = unat (Order.qty (the (orders i)))"
    by (auto simp: resting_def own_qty_def)
  with True show ?thesis
    using finite_resting [OF assms, of bid p]
    by (simp add: rest_qty_def others_qty_def sum.remove)
next
  case False
  then have "own_qty orders i bid p = 0" and "resting orders bid p - {i} = resting orders bid p"
    by (auto simp: resting_def own_qty_def split: option.splits)
  then show ?thesis by (simp add: rest_qty_def others_qty_def)
qed

lemma others_qty_upd: "others_qty (orders(i := x)) i bid p = others_qty orders i bid p"
proof -
  have "resting (orders(i := x)) bid p - {i} = resting orders bid p - {i}"
    by (auto simp: resting_def)
  then show ?thesis
    unfolding others_qty_def by (intro sum.cong) auto
qed

lemma finite_dom_upd: "finite (dom orders) \<Longrightarrow> finite (dom (orders(i := x)))"
  by (cases x) auto

lemma rest_qty_upd:
  "finite (dom orders) \<Longrightarrow>
   rest_qty (orders(i := x)) bid p = own_qty (orders(i := x)) i bid p + others_qty orders i bid p"
  by (subst rest_qty_split [where i = i]) (auto simp: others_qty_upd finite_dom_upd simp del: fun_upd_apply)

lemma unat_sub_le: "(n :: u32) \<le> q \<Longrightarrow> unat (q - n) = unat q - unat n"
  by (rule unat_sub)

lemma rest_qty_reduced:
  assumes fin: "finite (dom orders)" and i: "orders i = Some ord" and n: "n \<le> Order.qty ord"
  shows "rest_qty (reduced orders i n) bid p =
    (if (Order.side ord = Bid) = bid \<and> Order.price ord = p
     then rest_qty orders bid p - unat n else rest_qty orders bid p)"
    and "(Order.side ord = Bid) = bid \<Longrightarrow> Order.price ord = p \<Longrightarrow> unat n \<le> rest_qty orders bid p"
proof -
  have le: "unat n \<le> unat (Order.qty ord)" using n by (simp add: word_le_nat_alt)
  show "rest_qty (reduced orders i n) bid p =
    (if (Order.side ord = Bid) = bid \<and> Order.price ord = p
     then rest_qty orders bid p - unat n else rest_qty orders bid p)"
    using le unat_sub_le [OF n]
    by (auto simp: reduced_def i rest_qty_upd [OF fin] rest_qty_split [OF fin, of _ _ i] own_qty_def)
  show "unat n \<le> rest_qty orders bid p" if "(Order.side ord = Bid) = bid" "Order.price ord = p"
    using le that by (simp add: rest_qty_split [OF fin, of _ _ i] own_qty_def i)
qed

lemma orders_ok_reduced:
  assumes "orders_ok orders"
  shows "orders_ok (reduced orders i n)"
proof (cases "orders i")
  case None
  then show ?thesis using assms by (simp add: reduced_def)
next
  case (Some ord)
  then have "dom (orders(i \<mapsto> ord')) = dom orders" for ord' by auto
  moreover have "card (dom orders - {i}) \<le> 2 ^ 32"
    using assms card_mono [of "dom orders" "dom orders - {i}"] by (auto simp: orders_ok_def)
  ultimately show ?thesis
    using assms Some by (auto simp: reduced_def orders_ok_def)
qed

lemma book_depth_reduced:
  assumes ok: "orders_ok orders" and i: "orders i = Some ord" and n: "n \<le> Order.qty ord"
  shows "spec_remove (book_depth orders (Order.side ord = Bid)) (mk_level n (Order.price ord)) =
         Some (book_depth (reduced orders i n) (Order.side ord = Bid))"
    and "bid \<noteq> (Order.side ord = Bid) \<Longrightarrow> book_depth (reduced orders i n) bid = book_depth orders bid"
proof -
  let ?bid = "Order.side ord = Bid" and ?p = "Order.price ord"
  let ?S = "rest_qty orders ?bid ?p"
  have fin: "finite (dom orders)" using ok by (simp add: orders_ok_def)
  note red = rest_qty_reduced [OF fin i n]
  have le: "unat n \<le> ?S" by (rule red(2)) auto
  have pos: "?S \<noteq> 0"
    using rest_qty_eq_0 [OF ok, of ?bid ?p] i by (auto simp: resting_def)
  have S: "unat (of_nat ?S :: u64) = ?S"
    using rest_qty_less [OF ok] by (simp add: unat_of_nat take_bit_nat_eq_self)
  have n64: "unat (ucast n :: u64) = unat n"
    using unsigned_less [of n, where 'a = nat] by (simp add: unsigned_ucast_eq take_bit_nat_eq_self)
  have ge: "ucast n \<le> (of_nat ?S :: u64)" by (simp add: word_le_nat_alt S n64 le)
  define r where "r = (of_nat ?S :: u64) - ucast n"
  have r: "unat r = ?S - unat n"
    unfolding r_def using unat_sub [OF ge] by (simp only: S n64)
  then have r0: "r = 0 \<longleftrightarrow> ?S - unat n = 0" by (metis unat_eq_zero)
  have r_nat: "r = of_nat (?S - unat n)" by (simp only: r [symmetric] of_nat_unat ucast_id)
  have "book_depth (reduced orders i n) ?bid =
    (if r = 0 then (book_depth orders ?bid)(?p := None) else (book_depth orders ?bid)(?p \<mapsto> r))"
  proof
    fix p
    show "book_depth (reduced orders i n) ?bid p =
      (if r = 0 then (book_depth orders ?bid)(?p := None) else (book_depth orders ?bid)(?p \<mapsto> r)) p"
      unfolding book_depth_eq [OF orders_ok_reduced [OF ok]] red(1)
      using r0 r_nat [symmetric] by (cases "p = ?p") (auto simp: book_depth_eq [OF ok] simp del: of_nat_diff)
  qed
  then show "spec_remove (book_depth orders ?bid) (mk_level n ?p) =
         Some (book_depth (reduced orders i n) ?bid)"
    using pos ge by (simp add: spec_remove_Some mk_level_def book_depth_eq [OF ok] r_def)
  show "book_depth (reduced orders i n) bid = book_depth orders bid" if "bid \<noteq> ?bid"
    using that by (simp add: fun_eq_iff book_depth_eq orders_ok_reduced ok red(1))
qed

lemma book_depth_insert_fun:
  "finite (dom orders) \<Longrightarrow> orders i = None \<Longrightarrow>
   book_depth (orders(i \<mapsto> ord)) =
     (book_depth orders)((Order.side ord = Bid) :=
        spec_add (book_depth orders (Order.side ord = Bid)) (mk_level (Order.qty ord) (Order.price ord)))"
  by (rule ext) (simp add: book_depth_insert del: fun_upd_apply, simp)

lemma book_depth_reduced_fun:
  assumes "orders_ok orders" and "orders i = Some ord" and "n \<le> Order.qty ord"
  shows "spec_remove (book_depth orders (Order.side ord = Bid)) (mk_level n (Order.price ord)) =
           Some (book_depth (reduced orders i n) (Order.side ord = Bid))"
    and "(book_depth orders)((Order.side ord = Bid) := book_depth (reduced orders i n) (Order.side ord = Bid)) =
           book_depth (reduced orders i n)"
  using book_depth_reduced [OF assms] by (auto simp: fun_eq_iff)

section \<open>The invariant of the book\<close>

abbreviation live :: "(u64, Order, 'm) flat_hash_map \<Rightarrow> ('l, 'm) OrderBook \<Rightarrow> order_set" where
  "live H b \<equiv> hm_find H (orders_map b)"

definition side_depth :: "('l \<Rightarrow> depth) \<Rightarrow> ('l, 'm) OrderBook \<Rightarrow> bool \<Rightarrow> depth" where
  "side_depth depth_of b bid = depth_of (if bid then bid_levels b else ask_levels b)"

definition levels_inv :: "(Side \<Rightarrow> 'l \<Rightarrow> bool) \<Rightarrow> ('l, 'm) OrderBook \<Rightarrow> bool" where
  "levels_inv invar b \<longleftrightarrow> invar Bid (bid_levels b) \<and> invar Ask (ask_levels b)"

text \<open>Both sides hold, price by price, exactly the summed quantity of the live orders.\<close>

definition book_ok ::
    "('l \<Rightarrow> depth) \<Rightarrow> (Side \<Rightarrow> 'l \<Rightarrow> bool) \<Rightarrow> (u64, Order, 'm) flat_hash_map \<Rightarrow>
       ('l, 'm) OrderBook \<Rightarrow> bool" where
  "book_ok depth_of invar H b \<longleftrightarrow>
     levels_inv invar b \<and> orders_ok (live H b) \<and> side_depth depth_of b = book_depth (live H b)"

definition level_of_change :: "BestLvlChange \<Rightarrow> Level" where
  "level_of_change ch = \<lparr>Level.qty = BestLvlChange.qty ch, Level.price = BestLvlChange.price ch\<rparr>"

text \<open>
  What a returned report says of the two best levels: the reported side's is the one reported,
  and nothing else moved.
\<close>

definition report_ok :: "'l levels_ops \<Rightarrow> ('l, 'm) OrderBook \<Rightarrow> BestLvlChange \<Rightarrow> ('l, 'm) OrderBook \<Rightarrow> bool" where
  "report_ok L b ch b' \<longleftrightarrow>
     (BestLvlChange.side ch = Side_None \<and> ch = no_change \<and>
        best_bid L b' = best_bid L b \<and> best_ask L b' = best_ask L b) \<or>
     (BestLvlChange.side ch = Bid \<and>
        best_bid L b' = level_of_change ch \<and> best_ask L b' = best_ask L b) \<or>
     (BestLvlChange.side ch = Ask \<and>
        best_ask L b' = level_of_change ch \<and> best_bid L b' = best_bid L b)"

lemma report_ok_levels_only:
  "bid_levels b1 = bid_levels b2 \<Longrightarrow> ask_levels b1 = ask_levels b2 \<Longrightarrow>
   report_ok L b ch b1 = report_ok L b ch b2"
  by (simp add: report_ok_def best_bid_def best_ask_def)

lemma report_ok_trans:
  assumes r1: "report_ok L b ch1 b1" and r2: "report_ok L b1 ch2 b2"
    and s1: "BestLvlChange.side ch1 = sd \<or> BestLvlChange.side ch1 = Side_None"
    and s2: "BestLvlChange.side ch2 = sd \<or> BestLvlChange.side ch2 = Side_None"
  shows "report_ok L b (if BestLvlChange.side ch2 \<noteq> Side_None then ch2 else ch1) b2"
proof (cases "BestLvlChange.side ch2 = Side_None")
  case True
  with r2 have "best_bid L b2 = best_bid L b1" "best_ask L b2 = best_ask L b1"
    by (simp_all add: report_ok_def)
  with r1 True show ?thesis by (simp add: report_ok_def)
next
  case False
  with s2 have "BestLvlChange.side ch2 = sd" by simp
  with r1 r2 s1 False show ?thesis
    unfolding report_ok_def by (elim disjE conjE) simp_all
qed

context best_levels
begin

lemma report_of_levels:
  assumes "levels_inv invar b" and "levels_inv invar b'"
    and "reports S (side_depth depth_of b (S = Bid)) (side_depth depth_of b' (S = Bid)) ch"
    and "S = Bid \<Longrightarrow> ask_levels b' = ask_levels b" and "S = Ask \<Longrightarrow> bid_levels b' = bid_levels b"
    and "S \<in> {Bid, Ask}"
  shows "report_ok L b ch b' \<and> BestLvlChange.side ch \<in> {S, Side_None}"
proof -
  have "ch = no_change \<or> BestLvlChange.side ch = S"
    using assms(3) by (auto simp: reports_def split: if_splits)
  with assms show ?thesis
    using best_after [of Bid "bid_levels b" "bid_levels b'" ch]
      best_after [of Ask "ask_levels b" "ask_levels b'" ch]
    by (auto simp: report_ok_def best_bid_def best_ask_def levels_inv_def side_depth_def
        level_of_change_def)
qed

lemma add_on_side_ok:
  assumes inv: "levels_inv invar b"
  shows "\<exists>ch b'. add_on_side L b sd v = Inr (ch, b') \<and> levels_inv invar b' \<and>
    orders_map b' = orders_map b \<and>
    side_depth depth_of b' =
      (side_depth depth_of b)((sd = Bid) := spec_add (side_depth depth_of b (sd = Bid)) v) \<and>
    report_ok L b ch b' \<and> BestLvlChange.side ch \<in> {if sd = Bid then Bid else Ask, Side_None}"
proof (cases "sd = Bid")
  case True
  from inv have i: "invar Bid (bid_levels b)" by (simp add: levels_inv_def)
  obtain ch l' where add: "levels_add L Bid (bid_levels b) v = Inr (ch, l')" and inv': "invar Bid l'"
    and d: "depth_of l' = spec_add (depth_of (bid_levels b)) v"
    and r: "reports Bid (depth_of (bid_levels b)) (depth_of l') ch"
    using add_ok [OF _ i, of v] by auto
  let ?b = "b\<lparr>bid_levels := l'\<rparr>"
  have "levels_inv invar ?b" using inv inv' by (simp add: levels_inv_def)
  moreover have "report_ok L b ch ?b \<and> BestLvlChange.side ch \<in> {Bid, Side_None}"
    using r inv calculation by (intro report_of_levels) (auto simp: side_depth_def)
  ultimately show ?thesis
    using True add d by (auto simp: add_on_side_def side_depth_def fun_eq_iff)
next
  case False
  from inv have i: "invar Ask (ask_levels b)" by (simp add: levels_inv_def)
  obtain ch l' where add: "levels_add L Ask (ask_levels b) v = Inr (ch, l')" and inv': "invar Ask l'"
    and d: "depth_of l' = spec_add (depth_of (ask_levels b)) v"
    and r: "reports Ask (depth_of (ask_levels b)) (depth_of l') ch"
    using add_ok [OF _ i, of v] by auto
  let ?b = "b\<lparr>ask_levels := l'\<rparr>"
  have "levels_inv invar ?b" using inv inv' by (simp add: levels_inv_def)
  moreover have "report_ok L b ch ?b \<and> BestLvlChange.side ch \<in> {Ask, Side_None}"
    using r inv calculation by (intro report_of_levels) (auto simp: side_depth_def)
  ultimately show ?thesis
    using False add d by (auto simp: add_on_side_def side_depth_def fun_eq_iff)
qed

lemma remove_on_side_ok:
  assumes inv: "levels_inv invar b"
    and spec: "spec_remove (side_depth depth_of b (sd = Bid)) v = Some d'"
  shows "\<exists>ch b'. remove_on_side L b sd v = Inr (ch, b') \<and> levels_inv invar b' \<and>
    orders_map b' = orders_map b \<and>
    side_depth depth_of b' = (side_depth depth_of b)((sd = Bid) := d') \<and>
    report_ok L b ch b' \<and> BestLvlChange.side ch \<in> {if sd = Bid then Bid else Ask, Side_None}"
proof (cases "sd = Bid")
  case True
  from inv have i: "invar Bid (bid_levels b)" by (simp add: levels_inv_def)
  obtain ch l' where add: "levels_remove L Bid (bid_levels b) v = Inr (ch, l')" and inv': "invar Bid l'"
    and d: "depth_of l' = d'" and r: "reports Bid (depth_of (bid_levels b)) d' ch"
    using remove_ok [OF _ i, of v d'] spec True by (auto simp: side_depth_def)
  let ?b = "b\<lparr>bid_levels := l'\<rparr>"
  have "levels_inv invar ?b" using inv inv' by (simp add: levels_inv_def)
  moreover have "report_ok L b ch ?b \<and> BestLvlChange.side ch \<in> {Bid, Side_None}"
    using r d inv calculation by (intro report_of_levels) (auto simp: side_depth_def)
  ultimately show ?thesis
    using True add d by (auto simp: remove_on_side_def side_depth_def fun_eq_iff)
next
  case False
  from inv have i: "invar Ask (ask_levels b)" by (simp add: levels_inv_def)
  obtain ch l' where add: "levels_remove L Ask (ask_levels b) v = Inr (ch, l')" and inv': "invar Ask l'"
    and d: "depth_of l' = d'" and r: "reports Ask (depth_of (ask_levels b)) d' ch"
    using remove_ok [OF _ i, of v d'] spec False by (auto simp: side_depth_def)
  let ?b = "b\<lparr>ask_levels := l'\<rparr>"
  have "levels_inv invar ?b" using inv inv' by (simp add: levels_inv_def)
  moreover have "report_ok L b ch ?b \<and> BestLvlChange.side ch \<in> {Ask, Side_None}"
    using r d inv calculation by (intro report_of_levels) (auto simp: side_depth_def)
  ultimately show ?thesis
    using False add d by (auto simp: remove_on_side_def side_depth_def fun_eq_iff)
qed

end

end
