(* ===== verification/Book_Correct.thy ===== *)
theory Book_Correct
  imports Order_Book
begin

text \<open>
  The correctness of \<open>include/order_book.hpp\<close>: each operation, run on a book whose sides agree
  with its live orders, keeps that agreement, changes the live orders as an exchange book should
  and reports the best level truly; run on an order it does not know, it aborts. Everything is
  proved once for any container with the interface \<open>best_levels\<close>.
\<close>

section \<open>Streams of operations\<close>

datatype book_op =
    Add_Order u64 Side u32 u32
  | Cancel_Order u64 u32
  | Execute_Order u64 u32
  | Replace_Order u64 u64 u32 u32
  | Delete_Order u64

fun book_step ::
    "'l levels_ops \<Rightarrow> (u64, Order, 'm) flat_hash_map \<Rightarrow> book_op \<Rightarrow> ('l, 'm) OrderBook \<Rightarrow>
       (BestLvlChange \<times> ('l, 'm) OrderBook) result" where
  "book_step L H (Add_Order i sd n p) b = add_order L H b i sd n p"
| "book_step L H (Cancel_Order i n) b = cancel_order L H b i n"
| "book_step L H (Execute_Order i n) b = execute_order L H b i n"
| "book_step L H (Replace_Order i j n p) b = replace_order L H b i j n p"
| "book_step L H (Delete_Order i) b = delete_order L H b i"

fun book_run ::
    "'l levels_ops \<Rightarrow> (u64, Order, 'm) flat_hash_map \<Rightarrow> book_op list \<Rightarrow> ('l, 'm) OrderBook \<Rightarrow>
       ('l, 'm) OrderBook result" where
  "book_run L H [] b = Inr b"
| "book_run L H (op # ops) b = rbind (book_step L H op b) (\<lambda>(ch, b'). book_run L H ops b')"

text \<open>What the operations do to the set of live orders.\<close>

fun orders_after :: "book_op \<Rightarrow> order_set \<Rightarrow> order_set" where
  "orders_after (Add_Order i sd n p) orders = orders(i \<mapsto> mk_order sd n p)"
| "orders_after (Cancel_Order i n) orders = reduced orders i n"
| "orders_after (Execute_Order i n) orders = reduced orders i n"
| "orders_after (Replace_Order i j n p) orders =
     (orders(i := None))(j \<mapsto> mk_order (Order.side (the (orders i))) n p)"
| "orders_after (Delete_Order i) orders = orders(i := None)"

text \<open>
  When an operation is in order: a new identifier is fresh and carries a quantity, an old one is
  live and holds enough. The bound on the number of orders keeps a level within 64 bits.
\<close>

fun op_valid :: "(u64, Order, 'm) flat_hash_map \<Rightarrow> book_op \<Rightarrow> 'm \<Rightarrow> bool" where
  "op_valid H (Add_Order i sd n p) m \<longleftrightarrow> hm_find H m i = None \<and> n \<noteq> 0 \<and> int (hm_size H m) < 2 ^ 32"
| "op_valid H (Cancel_Order i n) m \<longleftrightarrow>
     (case hm_find H m i of None \<Rightarrow> False | Some ord \<Rightarrow> n \<le> Order.qty ord)"
| "op_valid H (Execute_Order i n) m \<longleftrightarrow>
     (case hm_find H m i of None \<Rightarrow> False | Some ord \<Rightarrow> n \<le> Order.qty ord)"
| "op_valid H (Replace_Order i j n p) m \<longleftrightarrow>
     hm_find H m i \<noteq> None \<and> (j = i \<or> hm_find H m j = None) \<and> n \<noteq> 0"
| "op_valid H (Delete_Order i) m \<longleftrightarrow> hm_find H m i \<noteq> None"

fun ops_valid ::
    "'l levels_ops \<Rightarrow> (u64, Order, 'm) flat_hash_map \<Rightarrow> book_op list \<Rightarrow> ('l, 'm) OrderBook \<Rightarrow> bool" where
  "ops_valid L H [] b \<longleftrightarrow> True"
| "ops_valid L H (op # ops) b \<longleftrightarrow>
     op_valid H op (orders_map b) \<and>
     (case book_step L H op b of Inl e \<Rightarrow> True | Inr (ch, b') \<Rightarrow> ops_valid L H ops b')"

text \<open>The result of an operation that went right.\<close>

definition step_ok ::
    "('l \<Rightarrow> depth) \<Rightarrow> (Side \<Rightarrow> 'l \<Rightarrow> bool) \<Rightarrow> 'l levels_ops \<Rightarrow> (u64, Order, 'm) flat_hash_map \<Rightarrow>
       ('l, 'm) OrderBook \<Rightarrow> order_set \<Rightarrow> (BestLvlChange \<times> ('l, 'm) OrderBook) result \<Rightarrow> bool" where
  "step_ok depth_of invar L H b orders r =
     (case r of
        Inl e \<Rightarrow> False
      | Inr (ch, b') \<Rightarrow> book_ok depth_of invar H b' \<and> live H b' = orders \<and> report_ok L b ch b')"

section \<open>Facts on the live orders\<close>

lemma ucast_eq_0: "(ucast (n :: u32) :: u64) = 0 \<longleftrightarrow> n = 0"
proof -
  have "unat (ucast n :: u64) = unat n"
    using unsigned_less [of n, where 'a = nat] by (simp add: unsigned_ucast_eq take_bit_nat_eq_self)
  then show ?thesis by (metis unat_eq_zero)
qed

lemma mk_order_sel [simp]:
  "Order.qty (mk_order sd n p) = n" "Order.price (mk_order sd n p) = p"
  "Order.side (mk_order sd n p) = sd"
  by (simp_all add: mk_order_def)

lemma orders_ok_insert:
  assumes "orders_ok orders" and "card (dom orders) < 2 ^ 32" and "Order.qty ord \<noteq> 0"
  shows "orders_ok (orders(i \<mapsto> ord))"
  using assms by (auto simp: orders_ok_def card_insert_if)

lemma reduced_all:
  "orders i = Some ord \<Longrightarrow> reduced orders i (Order.qty ord) = orders(i := None)"
  by (simp add: reduced_def)

lemma card_dom_removed:
  assumes "orders_ok orders" and "orders i \<noteq> None"
  shows "card (dom (orders(i := None))) < 2 ^ 32"
proof -
  have "card (dom orders - {i}) < card (dom orders)"
    using assms by (intro card_Diff1_less) (auto simp: orders_ok_def)
  then show ?thesis using assms by (simp add: orders_ok_def)
qed

lemma side_depth_fun_upd:
  "side_depth depth_of b = book_depth orders \<Longrightarrow>
   side_depth depth_of b sd = book_depth orders sd"
  by simp

lemma levels_inv_map [simp]: "levels_inv invar (b\<lparr>orders_map := m\<rparr>) = levels_inv invar b"
  by (simp add: levels_inv_def)

lemma side_depth_map [simp]: "side_depth depth_of (b\<lparr>orders_map := m\<rparr>) = side_depth depth_of b"
  by (simp add: side_depth_def fun_eq_iff)

lemma report_ok_map [simp]:
  "report_ok L (b\<lparr>orders_map := m\<rparr>) ch b' = report_ok L b ch b'"
  "report_ok L b ch (b'\<lparr>orders_map := m\<rparr>) = report_ok L b ch b'"
  by (simp_all add: report_ok_def best_bid_def best_ask_def)

section \<open>Every operation keeps the book\<close>

context best_levels
begin

lemma book_init_ok:
  assumes "flat_hash_map_laws H"
  shows "book_ok depth_of invar H (book_init L H)"
proof -
  have "resting Map.empty bid p = {}" for bid p by (simp add: resting_def)
  then have "book_depth Map.empty bid = Map.empty" for bid
    by (simp add: book_depth_def fun_eq_iff)
  then show ?thesis
    using init_ok [of Bid] init_ok [of Ask]
    by (auto simp: book_ok_def book_init_def levels_inv_def orders_ok_def side_depth_def
        flat_hash_map_lawsD(1) [OF assms])
qed

lemma add_order_ok:
  assumes H: "flat_hash_map_laws H" and ok: "book_ok depth_of invar H b"
    and v: "op_valid H (Add_Order i sd n p) (orders_map b)"
  shows "step_ok depth_of invar L H b (orders_after (Add_Order i sd n p) (live H b))
           (add_order L H b i sd n p)"
proof -
  let ?b = "b\<lparr>orders_map := hm_insert H (orders_map b) i (mk_order sd n p)\<rparr>"
  have inv: "levels_inv invar ?b" and d: "side_depth depth_of b = book_depth (live H b)"
    and oo: "orders_ok (live H b)" using ok by (simp_all add: book_ok_def)
  have fresh: "live H b i = None" and n: "n \<noteq> 0" and sz: "card (dom (live H b)) < 2 ^ 32"
    using v flat_hash_map_lawsD(7) [OF H, of "orders_map b"] by auto
  have live: "hm_find H (hm_insert H (orders_map b) i (mk_order sd n p)) = (live H b)(i \<mapsto> mk_order sd n p)"
    using flat_hash_map_lawsD(2) [OF H fresh] by simp
  obtain ch b' where r: "add_on_side L ?b sd (mk_level n p) = Inr (ch, b')" "levels_inv invar b'"
    "orders_map b' = orders_map ?b"
    "side_depth depth_of b' = (side_depth depth_of ?b)((sd = Bid) :=
       spec_add (side_depth depth_of ?b (sd = Bid)) (mk_level n p))"
    "report_ok L ?b ch b'"
    using add_on_side_ok [OF inv, of sd "mk_level n p"] by blast
  have "book_depth ((live H b)(i \<mapsto> mk_order sd n p)) = side_depth depth_of b'"
    using book_depth_insert_fun [of "live H b" i "mk_order sd n p"] oo fresh
    by (simp add: r(4) d orders_ok_def del: fun_upd_apply)
  moreover have "orders_ok ((live H b)(i \<mapsto> mk_order sd n p))"
    using oo sz n by (intro orders_ok_insert) auto
  ultimately show ?thesis
    using r live by (simp add: add_order_def step_ok_def book_ok_def Let_def del: fun_upd_apply)
qed

text \<open>Taking quantity off one order: the step that cancel, execute, delete and replace share.\<close>

lemma remove_of_order:
  assumes ok: "book_ok depth_of invar H b" and i: "live H b i = Some ord"
    and n: "n \<le> Order.qty ord"
  obtains ch b' where
    "remove_on_side L b (Order.side ord) (mk_level n (Order.price ord)) = Inr (ch, b')"
    "levels_inv invar b'" "orders_map b' = orders_map b"
    "side_depth depth_of b' = book_depth (reduced (live H b) i n)" "report_ok L b ch b'"
    "BestLvlChange.side ch \<in> {if Order.side ord = Bid then Bid else Ask, Side_None}"
proof -
  have inv: "levels_inv invar b" and d: "side_depth depth_of b = book_depth (live H b)"
    and oo: "orders_ok (live H b)" using ok by (simp_all add: book_ok_def)
  note dep = book_depth_reduced_fun [OF oo i n]
  show ?thesis
    using remove_on_side_ok [OF inv, of "Order.side ord", unfolded d, OF dep(1)]
      dep(2) that by fastforce
qed

lemma reduce_order_ok:
  assumes H: "flat_hash_map_laws H" and ok: "book_ok depth_of invar H b"
    and i: "live H b i = Some ord" and n: "n \<le> Order.qty ord"
  shows "step_ok depth_of invar L H b (reduced (live H b) i n) (reduce_order m1 m2 L H b i n)"
proof -
  obtain ch b' where r:
    "remove_on_side L b (Order.side ord) (mk_level n (Order.price ord)) = Inr (ch, b')"
    "levels_inv invar b'" "orders_map b' = orders_map b"
    "side_depth depth_of b' = book_depth (reduced (live H b) i n)" "report_ok L b ch b'"
    using remove_of_order [OF ok i n] by blast
  let ?ord = "ord\<lparr>Order.qty := Order.qty ord - n\<rparr>"
  let ?m = "hm_assign H (orders_map b) i ?ord"
  let ?m' = "if Order.qty ?ord = 0 then hm_erase H ?m i else ?m"
  have "hm_find H ?m = (live H b)(i \<mapsto> ?ord)"
    using i by (intro flat_hash_map_lawsD(4) [OF H]) simp
  then have live: "hm_find H ?m' = reduced (live H b) i n"
    unfolding reduced_def i option.case if_distrib [of "hm_find H"] flat_hash_map_lawsD(5) [OF H]
    by (cases "Order.qty ord - n = 0") simp_all
  have "reduce_order m1 m2 L H b i n = Inr (ch, b'\<lparr>orders_map := ?m'\<rparr>)"
    using i r leD [OF n] by (simp add: reduce_order_def Let_def)
  moreover have "orders_ok (reduced (live H b) i n)"
    using ok by (intro orders_ok_reduced) (simp add: book_ok_def)
  ultimately show ?thesis
    using r live by (simp add: step_ok_def book_ok_def)
qed

lemma delete_order_ok:
  assumes H: "flat_hash_map_laws H" and ok: "book_ok depth_of invar H b"
    and v: "op_valid H (Delete_Order i) (orders_map b)"
  shows "step_ok depth_of invar L H b (orders_after (Delete_Order i) (live H b)) (delete_order L H b i)"
proof -
  from v obtain ord where i: "live H b i = Some ord" by auto
  obtain ch b' where r:
    "remove_on_side L b (Order.side ord) (mk_level (Order.qty ord) (Order.price ord)) = Inr (ch, b')"
    "levels_inv invar b'" "orders_map b' = orders_map b"
    "side_depth depth_of b' = book_depth (reduced (live H b) i (Order.qty ord))" "report_ok L b ch b'"
    by (rule remove_of_order [OF ok i order_refl])
  have "orders_ok (reduced (live H b) i (Order.qty ord))"
    using ok by (intro orders_ok_reduced) (simp add: book_ok_def)
  with r show ?thesis
    by (simp add: delete_order_def i step_ok_def book_ok_def flat_hash_map_lawsD(5) [OF H]
        reduced_all [of "live H b" i ord, OF i])
qed

lemma replace_order_ok:
  assumes H: "flat_hash_map_laws H" and ok: "book_ok depth_of invar H b"
    and v: "op_valid H (Replace_Order i j n p) (orders_map b)"
  shows "step_ok depth_of invar L H b (orders_after (Replace_Order i j n p) (live H b))
           (replace_order L H b i j n p)"
proof -
  from v obtain ord where i: "live H b i = Some ord" by auto
  let ?sd = "Order.side ord"
  let ?rest = "(live H b)(i := None)" and ?new = "mk_order ?sd n p"
  have oo: "orders_ok (live H b)" using ok by (simp add: book_ok_def)
  have rest_ok: "orders_ok ?rest"
    using orders_ok_reduced [OF oo, of i "Order.qty ord"] reduced_all [of "live H b" i ord, OF i] by simp
  have fresh: "?rest j = None" and n: "n \<noteq> 0" using v by auto
  obtain ch1 b1 where r1:
    "remove_on_side L b ?sd (mk_level (Order.qty ord) (Order.price ord)) = Inr (ch1, b1)"
    "levels_inv invar b1" "orders_map b1 = orders_map b"
    "side_depth depth_of b1 = book_depth (reduced (live H b) i (Order.qty ord))" "report_ok L b ch1 b1"
    "BestLvlChange.side ch1 \<in> {if ?sd = Bid then Bid else Ask, Side_None}"
    by (rule remove_of_order [OF ok i order_refl])
  obtain ch2 b2 where r2: "add_on_side L b1 ?sd (mk_level n p) = Inr (ch2, b2)"
    "levels_inv invar b2" "orders_map b2 = orders_map b1"
    "side_depth depth_of b2 = (side_depth depth_of b1)((?sd = Bid) :=
       spec_add (side_depth depth_of b1 (?sd = Bid)) (mk_level n p))"
    "report_ok L b1 ch2 b2" "BestLvlChange.side ch2 \<in> {if ?sd = Bid then Bid else Ask, Side_None}"
    using add_on_side_ok [OF r1(2), of ?sd "mk_level n p"] by blast
  have depth: "side_depth depth_of b2 = book_depth (?rest(j \<mapsto> ?new))"
    using book_depth_insert_fun [of ?rest j ?new] rest_ok fresh
    by (simp add: r2(4) r1(4) reduced_all [of "live H b" i ord, OF i] orders_ok_def del: fun_upd_apply)
  have new_ok: "orders_ok (?rest(j \<mapsto> ?new))"
    using card_dom_removed [OF oo, of i] i n by (intro orders_ok_insert [OF rest_ok]) auto
  have "report_ok L b (if BestLvlChange.side ch2 \<noteq> Side_None then ch2 else ch1) b2"
    by (rule report_ok_trans [OF r1(5) r2(5), of "if ?sd = Bid then Bid else Ask"])
       (use r1(6) r2(6) in auto)
  moreover have "hm_find H (hm_insert H (hm_erase H (orders_map b) i) j ?new) = ?rest(j \<mapsto> ?new)"
    using flat_hash_map_lawsD(2) [OF H, of "hm_erase H (orders_map b) i" j ?new] fresh
    by (simp only: flat_hash_map_lawsD(5) [OF H])
  ultimately show ?thesis
    using depth new_ok r1 r2 i
    by (simp add: replace_order_def Let_def step_ok_def book_ok_def del: fun_upd_apply)
qed

lemma book_step_ok:
  assumes H: "flat_hash_map_laws H" and ok: "book_ok depth_of invar H b"
    and v: "op_valid H op (orders_map b)"
  shows "step_ok depth_of invar L H b (orders_after op (live H b)) (book_step L H op b)"
proof (cases op)
  case (Add_Order i sd n p)
  with add_order_ok [OF H ok] v show ?thesis by (simp only: book_step.simps)
next
  case (Cancel_Order i n)
  with reduce_order_ok [OF H ok] v show ?thesis by (auto simp: cancel_order_def split: option.splits)
next
  case (Execute_Order i n)
  with reduce_order_ok [OF H ok] v show ?thesis by (auto simp: execute_order_def split: option.splits)
next
  case (Replace_Order i j n p)
  with replace_order_ok [OF H ok] v show ?thesis by (simp only: book_step.simps)
next
  case (Delete_Order i)
  with delete_order_ok [OF H ok] v show ?thesis by (simp only: book_step.simps)
qed

lemma book_run_ok:
  assumes H: "flat_hash_map_laws H" and "book_ok depth_of invar H b" and "ops_valid L H ops b"
  shows "\<exists>b'. book_run L H ops b = Inr b' \<and> book_ok depth_of invar H b' \<and>
    live H b' = fold orders_after ops (live H b)"
  using assms(2,3)
proof (induction ops arbitrary: b)
  case (Cons op ops)
  then have "step_ok depth_of invar L H b (orders_after op (live H b)) (book_step L H op b)"
    using book_step_ok [OF H] by simp
  then obtain ch b1 where s: "book_step L H op b = Inr (ch, b1)" "book_ok depth_of invar H b1"
    "live H b1 = orders_after op (live H b)"
    by (auto simp: step_ok_def split: sum.splits)
  with Cons.IH [OF s(2)] Cons.prems show ?case by simp
qed simp

lemma book_best:
  assumes "book_ok depth_of invar H b"
  shows "is_best Bid (book_depth (live H b) True) (best_bid L b)"
    and "is_best Ask (book_depth (live H b) False) (best_ask L b)"
proof -
  have "side_depth depth_of b = book_depth (live H b)" and "levels_inv invar b"
    using assms by (simp_all add: book_ok_def)
  then have "depth_of (bid_levels b) = book_depth (live H b) True"
    "depth_of (ask_levels b) = book_depth (live H b) False"
    "invar Bid (bid_levels b)" "invar Ask (ask_levels b)"
    by (auto simp: levels_inv_def side_depth_def dest: fun_cong [of _ _ True] fun_cong [of _ _ False])
  then show "is_best Bid (book_depth (live H b) True) (best_bid L b)"
    and "is_best Ask (book_depth (live H b) False) (best_ask L b)"
    using best_ok by (metis best_bid_def, metis best_ask_def)
qed

lemma add_order_duplicate:
  assumes H: "flat_hash_map_laws H" and ok: "book_ok depth_of invar H b"
    and dup: "live H b i \<noteq> None" and n: "n \<noteq> 0"
  shows "\<exists>ch b'. add_order L H b i sd n p = Inr (ch, b') \<and> live H b' = live H b \<and>
    side_depth depth_of b' (sd = Bid) = spec_add (book_depth (live H b) (sd = Bid)) (mk_level n p) \<and>
    \<not> book_ok depth_of invar H b'"
proof -
  let ?b = "b\<lparr>orders_map := hm_insert H (orders_map b) i (mk_order sd n p)\<rparr>"
  have inv: "levels_inv invar ?b" and d: "side_depth depth_of b = book_depth (live H b)"
    using ok by (simp_all add: book_ok_def)
  obtain ch b' where r: "add_on_side L ?b sd (mk_level n p) = Inr (ch, b')"
    "orders_map b' = orders_map ?b"
    "side_depth depth_of b' = (side_depth depth_of ?b)((sd = Bid) :=
       spec_add (side_depth depth_of ?b (sd = Bid)) (mk_level n p))"
    using add_on_side_ok [OF inv, of sd "mk_level n p"] by blast
  have live: "live H b' = live H b"
    using r(2) flat_hash_map_lawsD(3) [OF H dup] by simp
  have depth: "side_depth depth_of b' (sd = Bid) =
    spec_add (book_depth (live H b) (sd = Bid)) (mk_level n p)"
    using r(3) d by simp
  have "(ucast n :: u64) \<noteq> 0" using n
    by (simp add: ucast_eq_0)
  then have "spec_add (book_depth (live H b) (sd = Bid)) (mk_level n p) p \<noteq> book_depth (live H b) (sd = Bid) p"
    by (simp add: spec_add_apply mk_level_def split: option.splits)
  then have "\<not> book_ok depth_of invar H b'"
    using live depth by (auto simp: book_ok_def dest: fun_cong [of _ _ p])
  with r(1) live depth show ?thesis by (auto simp: add_order_def Let_def)
qed

end

section \<open>Aborts\<close>

text \<open>The operations on a live order abort exactly when the order is unknown or too small.\<close>

definition names_live :: "(u64, Order, 'm) flat_hash_map \<Rightarrow> book_op \<Rightarrow> 'm \<Rightarrow> bool" where
  "names_live H op m = (case op of
     Add_Order i sd n p \<Rightarrow> True
   | Cancel_Order i n \<Rightarrow> (case hm_find H m i of None \<Rightarrow> False | Some ord \<Rightarrow> n \<le> Order.qty ord)
   | Execute_Order i n \<Rightarrow> (case hm_find H m i of None \<Rightarrow> False | Some ord \<Rightarrow> n \<le> Order.qty ord)
   | Replace_Order i j n p \<Rightarrow> hm_find H m i \<noteq> None
   | Delete_Order i \<Rightarrow> hm_find H m i \<noteq> None)"

lemma book_step_abort:
  "\<not> names_live H op (orders_map b) \<Longrightarrow> \<exists>message. book_step L H op b = Inl (Unexpected message)"
  by (cases op)
     (auto simp: names_live_def cancel_order_def execute_order_def reduce_order_def
        replace_order_def delete_order_def abort_unexpected_def not_le split: option.splits)

context best_levels
begin

lemma book_step_no_abort:
  assumes H: "flat_hash_map_laws H" and ok: "book_ok depth_of invar H b"
    and live: "names_live H op (orders_map b)"
  shows "\<exists>ch b'. book_step L H op b = Inr (ch, b')"
proof -
  have step: "\<exists>ch b'. r = Inr (ch, b')" if "step_ok depth_of invar L H b orders r" for r orders
    using that by (auto simp: step_ok_def split: sum.splits)
  show ?thesis
  proof (cases op)
    case (Add_Order i sd n p)
    let ?b = "b\<lparr>orders_map := hm_insert H (orders_map b) i (mk_order sd n p)\<rparr>"
    have "levels_inv invar ?b" using ok by (simp add: book_ok_def)
    from add_on_side_ok [OF this, of sd "mk_level n p"] Add_Order show ?thesis
      by (auto simp: add_order_def Let_def)
  next
    case (Replace_Order i j n p)
    then obtain ord where i: "live H b i = Some ord" using live by (auto simp: names_live_def)
    obtain ch1 b1 where
      r: "remove_on_side L b (Order.side ord) (mk_level (Order.qty ord) (Order.price ord)) = Inr (ch1, b1)"
      "levels_inv invar b1"
      by (rule remove_of_order [OF ok i order_refl])
    obtain ch2 b2 where "add_on_side L b1 (Order.side ord) (mk_level n p) = Inr (ch2, b2)"
      using add_on_side_ok [OF r(2), of "Order.side ord" "mk_level n p"] by blast
    with r i Replace_Order show ?thesis by (simp add: replace_order_def Let_def)
  next
    case (Cancel_Order i n)
    with live reduce_order_ok [OF H ok] show ?thesis
      by (auto simp: names_live_def cancel_order_def intro!: step split: option.splits)
  next
    case (Execute_Order i n)
    with live reduce_order_ok [OF H ok] show ?thesis
      by (auto simp: names_live_def execute_order_def intro!: step split: option.splits)
  next
    case (Delete_Order i)
    with live delete_order_ok [OF H ok] show ?thesis
      by (auto simp: names_live_def intro!: step)
  qed
qed

end

section \<open>The production book\<close>

text \<open>The book over the two sorted vectors, the instance \<open>main.cpp\<close> and the handler use.\<close>

type_synonym 'm split_book = "(VectorLevelBSearchSplit, 'm) OrderBook"

definition split_book_ok :: "(u64, Order, 'm) flat_hash_map \<Rightarrow> 'm split_book \<Rightarrow> bool" where
  "split_book_ok = book_ok split_depth split_inv"

text \<open>A small book for the concrete instances: two bids and an ask.\<close>

definition small_ops :: "book_op list" where
  "small_ops = [Add_Order 1 Bid 100 5000, Add_Order 2 Bid 50 5001, Add_Order 3 Ask 70 5003]"

definition small_book :: "(u64 \<times> Order) list split_book" where
  "small_book =
     \<lparr>max_orders = 0,
      orders_map = [(3, mk_order Ask 70 5003), (2, mk_order Bid 50 5001), (1, mk_order Bid 100 5000)],
      bid_levels = \<lparr>prices = [5000, 5001], qtys = [100, 50]\<rparr>,
      ask_levels = \<lparr>prices = [5003], qtys = [70]\<rparr>\<rparr>"

lemma small_ops_valid: "ops_valid split_ops alist_hash_map small_ops (book_init split_ops alist_hash_map)"
  by code_simp

lemma small_run: "book_run split_ops alist_hash_map small_ops (book_init split_ops alist_hash_map) = Inr small_book"
  by code_simp

lemma small_book_ok: "split_book_ok alist_hash_map small_book"
  using split_lv.book_run_ok [OF alist_hash_map_laws split_lv.book_init_ok [OF alist_hash_map_laws] small_ops_valid]
  by (simp add: small_run split_book_ok_def)

section \<open>Properties of the production book\<close>

definition split_step_ok ::
    "(u64, Order, 'm) flat_hash_map \<Rightarrow> 'm split_book \<Rightarrow> order_set \<Rightarrow>
       (BestLvlChange \<times> 'm split_book) result \<Rightarrow> bool" where
  "split_step_ok = step_ok split_depth split_inv split_ops"

text \<open>
  C2. One operation of the book refines the operation on the live orders: run on a book whose two
  sides hold exactly the summed quantity of the live orders, an operation that is in order
  returns, leaves exactly the live orders the exchange protocol asks for, keeps both sides in
  agreement with them, and its report is the new best level of the reported side, the other
  side's best being unmoved.
\<close>

theorem book_operation_refines:
  assumes "flat_hash_map_laws H" and "split_book_ok H b" and "op_valid H op (orders_map b)"
  shows "split_step_ok H b (orders_after op (live H b)) (book_step split_ops H op b)"
  unfolding split_step_ok_def
  using assms by (intro split_lv.book_step_ok) (simp_all add: split_book_ok_def)

lemma book_operation_refines_witness:
  "split_step_ok alist_hash_map small_book
     (orders_after (Replace_Order 2 4 30 4999) (live alist_hash_map small_book))
     (book_step split_ops alist_hash_map (Replace_Order 2 4 30 4999) small_book)"
  by (rule book_operation_refines [OF alist_hash_map_laws small_book_ok]) code_simp

text \<open>
  C3. A book that starts empty and receives any stream of operations, each of them in order, never
  aborts; at the end its live orders are the ones the operations leave, and the best bid and best
  ask it answers are the highest bid price and the lowest ask price of the live orders with the
  sum of the quantities there, or \<open>{0, 0}\<close> on a side with no order.
\<close>

theorem book_stream_correct:
  assumes "flat_hash_map_laws H" and "ops_valid split_ops H ops (book_init split_ops H)"
  shows "\<exists>b. book_run split_ops H ops (book_init split_ops H) = Inr b \<and>
    live H b = fold orders_after ops Map.empty \<and>
    is_best Bid (book_depth (live H b) True) (best_bid split_ops b) \<and>
    is_best Ask (book_depth (live H b) False) (best_ask split_ops b)"
proof -
  have "live H (book_init split_ops H) = Map.empty"
    using flat_hash_map_lawsD(1) [OF assms(1)] by (simp add: book_init_def)
  then show ?thesis
    using split_lv.book_run_ok [OF assms(1) split_lv.book_init_ok [OF assms(1)] assms(2)]
      split_lv.book_best [of H] by fastforce
qed

lemma book_stream_correct_witness:
  "\<exists>b. book_run split_ops alist_hash_map small_ops (book_init split_ops alist_hash_map) = Inr b \<and>
    live alist_hash_map b = fold orders_after small_ops Map.empty \<and>
    is_best Bid (book_depth (live alist_hash_map b) True) (best_bid split_ops b) \<and>
    is_best Ask (book_depth (live alist_hash_map b) False) (best_ask split_ops b)"
  by (rule book_stream_correct [OF alist_hash_map_laws small_ops_valid])

text \<open>
  C6. The operations on a known order abort with a message exactly when the order is unknown, or a
  cancel or execute asks for more than it holds; in every other case, an add included, they
  return. No level is ever missing or short when the book takes an order off it.
\<close>

theorem book_aborts_iff:
  assumes "flat_hash_map_laws H" and "split_book_ok H b"
  shows "((\<exists>message. book_step split_ops H op b = Inl (Unexpected message)) = (\<not> names_live H op (orders_map b))) \<and>
    ((\<exists>r. book_step split_ops H op b = Inr r) = names_live H op (orders_map b))"
  using book_step_abort [of H op b split_ops] split_lv.book_step_no_abort [OF assms(1), of b op] assms(2)
  unfolding split_book_ok_def by fastforce+

lemma book_aborts_iff_witness:
  "((\<exists>message. book_step split_ops alist_hash_map (Cancel_Order 2 51) small_book = Inl (Unexpected message)) =
     (\<not> names_live alist_hash_map (Cancel_Order 2 51) (orders_map small_book))) \<and>
   ((\<exists>r. book_step split_ops alist_hash_map (Cancel_Order 2 51) small_book = Inr r) =
     names_live alist_hash_map (Cancel_Order 2 51) (orders_map small_book))"
  by (rule book_aborts_iff [OF alist_hash_map_laws small_book_ok])

text \<open>
  C19. An add that reuses the identifier of a live order is not detected: the order map keeps the old
  order while the new quantity is added to its level, so the book no longer agrees with its orders
  (the side holds quantity no order accounts for).
\<close>

theorem add_order_duplicate_id:
  assumes "flat_hash_map_laws H" and "split_book_ok H b" and "live H b i \<noteq> None" and "n \<noteq> 0"
  shows "\<exists>ch b'. add_order split_ops H b i sd n p = Inr (ch, b') \<and> live H b' = live H b \<and>
    side_depth split_depth b' (sd = Bid) = spec_add (book_depth (live H b) (sd = Bid)) (mk_level n p) \<and>
    \<not> split_book_ok H b'"
  using split_lv.add_order_duplicate [OF assms(1) _ assms(3,4)] assms(2)
  unfolding split_book_ok_def by blast

lemma add_order_duplicate_id_witness:
  "\<exists>ch b'. add_order split_ops alist_hash_map small_book 1 Bid 10 5000 = Inr (ch, b') \<and>
    live alist_hash_map b' = live alist_hash_map small_book \<and>
    side_depth split_depth b' (Bid = Bid) =
      spec_add (book_depth (live alist_hash_map small_book) (Bid = Bid)) (mk_level 10 5000) \<and>
    \<not> split_book_ok alist_hash_map b'"
proof (rule add_order_duplicate_id [OF alist_hash_map_laws small_book_ok])
  show "live alist_hash_map small_book 1 \<noteq> None" by code_simp
qed simp

end
