(* ===== verification/Ring.thy ===== *)
theory Ring
  imports Prelude
begin

text \<open>
  Index arithmetic shared by the two ring buffers: a free-running 64-bit counter masked to one of
  131072 slots, and how often a slot has been written after a number of pushes.
\<close>

definition ring_slots :: nat where
  "ring_slots = 131072"

lemma unat_and_ring_mask: "unat ((i :: u64) AND 131071) = unat i mod ring_slots"
proof -
  have "(131071 :: u64) = mask 17" by (simp add: mask_eq_exp_minus_1)
  then have "i AND 131071 = take_bit 17 i" by (simp add: take_bit_eq_mask)
  then show ?thesis
    by (simp only: unsigned_take_bit_eq) (simp add: take_bit_eq_mod ring_slots_def)
qed

lemma unat_of_nat_mod_ring: "unat (of_nat n :: u64) mod ring_slots = n mod ring_slots"
proof -
  have "n mod 18446744073709551616 mod 131072 = n mod 131072"
    by (rule mod_mod_cancel) simp
  then show ?thesis by (simp add: unat_of_nat take_bit_eq_mod ring_slots_def)
qed

lemma unat_Suc_less:
  assumes "unat (x :: u64) < 131072"
  shows "unat (x + 1) = Suc (unat x)"
  using assms by (simp add: unat_word_ariths)

lemma mod_window:
  assumes "(a + i) mod N = (a + j) mod N" and "i < N" and "j < N"
  shows "i = (j :: nat)"
proof -
  have "(int a + int i) mod int N = (int a + int j) mod int N"
    using assms(1) by (metis of_nat_add zmod_int)
  then have "int N dvd int i - int j" by (simp add: mod_eq_dvd_iff)
  moreover have "\<bar>int i - int j\<bar> < int N" using assms(2,3) by linarith
  ultimately have "int i - int j = 0" by (metis dvd_imp_le_int linorder_not_less abs_of_nat of_nat_0_le_iff)
  then show ?thesis by simp
qed

text \<open>Two indices less than a round apart lie in different slots.\<close>

lemma mod_apart:
  assumes "m < n" and "n < m + N"
  shows "m mod N \<noteq> n mod (N :: nat)"
proof
  assume "m mod N = n mod N"
  with assms have "0 = n - m" by (intro mod_window [of m 0 N "n - m"]) auto
  with assms show False by simp
qed

text \<open>The number of indices below \<open>n\<close> that fall into slot \<open>j\<close>.\<close>

definition laps :: "nat \<Rightarrow> nat \<Rightarrow> nat" where
  "laps j n = n div ring_slots + (if j < n mod ring_slots then 1 else 0)"

lemma ring_slots_pos [simp]: "0 < ring_slots" by (simp add: ring_slots_def)

lemma laps_0 [simp]: "laps j 0 = 0"
  by (simp add: laps_def)

lemma laps_Suc:
  assumes "j < ring_slots"
  shows "laps j (Suc n) = laps j n + (if n mod ring_slots = j then 1 else 0)"
proof (cases "Suc (n mod ring_slots) = ring_slots")
  case True
  then show ?thesis using assms by (auto simp: laps_def mod_Suc div_Suc)
next
  case False
  then show ?thesis by (auto simp: laps_def mod_Suc div_Suc)
qed

lemma digits_le_iff:
  fixes N :: nat
  assumes "rn < N" and "rk < N"
  shows "qn + (if rk < rn then 1 else 0) \<le> qk \<longleftrightarrow> qn * N + rn \<le> qk * N + rk"
proof (cases "qn = qk")
  case False
  then consider "Suc qn \<le> qk" | "Suc qk \<le> qn" by linarith
  then show ?thesis
  proof cases
    case 1
    then have "Suc qn * N \<le> qk * N" by (rule mult_le_mono1)
    with 1 assms show ?thesis by (simp add: field_simps)
  next
    case 2
    then have "Suc qk * N \<le> qn * N" by (rule mult_le_mono1)
    with 2 assms show ?thesis by (simp add: field_simps)
  qed
qed auto

text \<open>The slot of index \<open>k\<close> has been written \<open>k div N + 1\<close> times exactly while \<open>k\<close> is in the last round.\<close>

lemma laps_less_iff: "laps (k mod ring_slots) n \<le> k div ring_slots \<longleftrightarrow> n \<le> k"
  unfolding laps_def
  by (subst digits_le_iff [of "n mod ring_slots" ring_slots]) (simp_all only: mod_less_divisor ring_slots_pos div_mult_mod_eq)

lemma laps_next_round: "laps (k mod ring_slots) n \<le> Suc (k div ring_slots) \<longleftrightarrow> n \<le> k + ring_slots"
  using laps_less_iff [of "k + ring_slots" n] by (simp add: div_add_self2)

lemma laps_eq_iff: "laps (k mod ring_slots) n = Suc (k div ring_slots) \<longleftrightarrow> k < n \<and> n \<le> k + ring_slots"
  using laps_less_iff [of k n] laps_next_round [of k n] by linarith

lemma laps_greater_iff: "Suc (k div ring_slots) < laps (k mod ring_slots) n \<longleftrightarrow> k + ring_slots < n"
  using laps_next_round [of k n] by linarith

lemma laps_next: "laps (n mod ring_slots) n = n div ring_slots"
  by (simp add: laps_def)

end
