(* ===== verification/Spsc_Threads.thy ===== *)
theory Spsc_Threads
  imports Spsc
begin

text \<open>
  The producer and the consumer of \<open>include/spsc_queue.hpp\<close> as two threads: a step relation with
  one step per atomic load or store of the indices and one for each end of the copies. A copy into
  a slot is not atomic, so while it lasts the slot holds an arbitrary value. A store of an index may
  reach the other thread late: a load of the other thread's index returns any of the values stored
  so far that is not older than the one the thread saw last, as acquire and release allow.
\<close>

section \<open>The threads\<close>

datatype 'a producer =
    P_Idle
  | P_Writer 'a u64
  | P_Both 'a u64 u64
  | P_Filling 'a u64
  | P_Filled 'a u64

datatype 'a consumer =
    C_Idle
  | C_Reader u64
  | C_Both u64 u64
  | C_Copying u64
  | C_Copied 'a u64

text \<open>
  \<open>readers\<close> and \<open>writers\<close> are the values of the two indices in the order of their stores, \<open>saw_reader\<close> the
  position of the one the producer saw last, \<open>saw_writer\<close> that of the consumer. A thread's own index is
  the newest, in \<open>queue\<close>. \<open>pushed\<close> and \<open>popped\<close> are the values of the calls that returned true, in order.
\<close>

record 'a spsc_threads =
  queue :: "'a SPSCQueue"
  prod :: "'a producer"
  cons :: "'a consumer"
  readers :: "u64 list"
  writers :: "u64 list"
  saw_reader :: nat
  saw_writer :: nat
  pushed :: "'a list"
  popped :: "'a list"

definition threads_init :: "'a \<Rightarrow> 'a spsc_threads" where
  "threads_init zero =
     \<lparr>queue = spsc_init zero, prod = P_Idle, cons = C_Idle, readers = [0], writers = [0],
      saw_reader = 0, saw_writer = 0, pushed = [], popped = []\<rparr>"

definition store_slot :: "u64 \<Rightarrow> 'a \<Rightarrow> 'a spsc_threads \<Rightarrow> 'a spsc_threads" where
  "store_slot w v s =
     s\<lparr>queue := (queue s)\<lparr>buffer := (buffer (queue s))(slot w := v)\<rparr>\<rparr>"

inductive spsc_step :: "'a spsc_threads \<Rightarrow> 'a spsc_threads \<Rightarrow> bool" where
  push_load_writer: "prod s = P_Idle \<Longrightarrow>
    spsc_step s (s\<lparr>prod := P_Writer x (writer (queue s))\<rparr>)"
| push_load_reader: "prod s = P_Writer x w \<Longrightarrow> saw_reader s \<le> k \<Longrightarrow> k < length (readers s) \<Longrightarrow>
    spsc_step s (s\<lparr>prod := P_Both x w (readers s ! k), saw_reader := k\<rparr>)"
| push_full: "prod s = P_Both x w r \<Longrightarrow> bufferSizeSlots - 1 - used w r < 1 \<Longrightarrow>
    spsc_step s (s\<lparr>prod := P_Idle\<rparr>)"
| push_copy_begin: "prod s = P_Both x w r \<Longrightarrow> \<not> bufferSizeSlots - 1 - used w r < 1 \<Longrightarrow>
    spsc_step s (store_slot w torn (s\<lparr>prod := P_Filling x w\<rparr>))"
| push_copy_end: "prod s = P_Filling x w \<Longrightarrow>
    spsc_step s (store_slot w x (s\<lparr>prod := P_Filled x w\<rparr>))"
| push_store_writer: "prod s = P_Filled x w \<Longrightarrow>
    spsc_step s (s\<lparr>queue := (queue s)\<lparr>writer := w + 1\<rparr>, prod := P_Idle, writers := writers s @ [w + 1],
                   pushed := pushed s @ [x]\<rparr>)"
| pop_load_reader: "cons s = C_Idle \<Longrightarrow>
    spsc_step s (s\<lparr>cons := C_Reader (reader (queue s))\<rparr>)"
| pop_load_writer: "cons s = C_Reader r \<Longrightarrow> saw_writer s \<le> k \<Longrightarrow> k < length (writers s) \<Longrightarrow>
    spsc_step s (s\<lparr>cons := C_Both r (writers s ! k), saw_writer := k\<rparr>)"
| pop_empty: "cons s = C_Both r w \<Longrightarrow> r = w \<Longrightarrow>
    spsc_step s (s\<lparr>cons := C_Idle\<rparr>)"
| pop_copy_begin: "cons s = C_Both r w \<Longrightarrow> r \<noteq> w \<Longrightarrow>
    spsc_step s (s\<lparr>cons := C_Copying r\<rparr>)"
| pop_copy_end: "cons s = C_Copying r \<Longrightarrow>
    spsc_step s (s\<lparr>cons := C_Copied (buffer (queue s) (slot r)) r\<rparr>)"
| pop_store_reader: "cons s = C_Copied v r \<Longrightarrow>
    spsc_step s (s\<lparr>queue := (queue s)\<lparr>reader := r + 1\<rparr>, cons := C_Idle, readers := readers s @ [r + 1],
                   popped := popped s @ [v]\<rparr>)"

definition spsc_reachable :: "'a \<Rightarrow> 'a spsc_threads \<Rightarrow> bool" where
  "spsc_reachable zero s = spsc_step\<^sup>*\<^sup>* (threads_init zero) s"

section \<open>The invariant\<close>

text \<open>The counters are the lengths of the two histories; the published slots hold the difference.\<close>

fun prod_ok :: "'a spsc_threads \<Rightarrow> 'a producer \<Rightarrow> bool" where
  "prod_ok s P_Idle \<longleftrightarrow> True"
| "prod_ok s (P_Writer x w) \<longleftrightarrow> w = of_nat (length (pushed s))"
| "prod_ok s (P_Both x w r) \<longleftrightarrow> w = of_nat (length (pushed s)) \<and> r = of_nat (saw_reader s)"
| "prod_ok s (P_Filling x w) \<longleftrightarrow> w = of_nat (length (pushed s)) \<and>
     length (pushed s) < saw_reader s + 131071"
| "prod_ok s (P_Filled x w) \<longleftrightarrow> w = of_nat (length (pushed s)) \<and>
     length (pushed s) < saw_reader s + 131071 \<and>
     buffer (queue s) (length (pushed s) mod 131072) = x"

fun cons_ok :: "'a spsc_threads \<Rightarrow> 'a consumer \<Rightarrow> bool" where
  "cons_ok s C_Idle \<longleftrightarrow> True"
| "cons_ok s (C_Reader r) \<longleftrightarrow> r = of_nat (length (popped s))"
| "cons_ok s (C_Both r w) \<longleftrightarrow> r = of_nat (length (popped s)) \<and> w = of_nat (saw_writer s)"
| "cons_ok s (C_Copying r) \<longleftrightarrow> r = of_nat (length (popped s)) \<and> length (popped s) < saw_writer s"
| "cons_ok s (C_Copied v r) \<longleftrightarrow> r = of_nat (length (popped s)) \<and>
     length (popped s) < saw_writer s \<and> v = pushed s ! length (popped s)"

definition counters_ok :: "'a spsc_threads \<Rightarrow> bool" where
  "counters_ok s \<longleftrightarrow>
     writer (queue s) = of_nat (length (pushed s)) \<and> reader (queue s) = of_nat (length (popped s)) \<and>
     writers s = map of_nat [0..<Suc (length (pushed s))] \<and>
     readers s = map of_nat [0..<Suc (length (popped s))] \<and>
     saw_reader s \<le> length (popped s) \<and> length (pushed s) \<le> saw_reader s + 131071 \<and>
     saw_writer s \<le> length (pushed s) \<and> length (popped s) \<le> saw_writer s"

definition slots_ok :: "'a spsc_threads \<Rightarrow> bool" where
  "slots_ok s \<longleftrightarrow>
     (\<forall>i. length (popped s) \<le> i \<longrightarrow> i < length (pushed s) \<longrightarrow>
        buffer (queue s) (i mod 131072) = pushed s ! i)"

definition threads_inv :: "'a spsc_threads \<Rightarrow> bool" where
  "threads_inv s \<longleftrightarrow>
     counters_ok s \<and> slots_ok s \<and> popped s = take (length (popped s)) (pushed s) \<and>
     prod_ok s (prod s) \<and> cons_ok s (cons s)"

lemma full_test:
  assumes "k \<le> n" and "n \<le> k + 131071"
  shows "bufferSizeSlots - 1 - used (of_nat n) (of_nat k) < 1 \<longleftrightarrow> n = k + 131071"
proof -
  have d: "used (of_nat n) (of_nat k) = of_nat (n - k)"
    using assms(1) by (simp add: used_def of_nat_diff)
  have u: "unat (of_nat (n - k) :: u64) = n - k"
    using assms by (simp add: unat_of_nat take_bit_nat_eq_self del: of_nat_diff)
  then have "of_nat (n - k) \<le> (131071 :: u64)"
    using assms by (simp add: word_le_nat_alt del: of_nat_diff)
  from unat_sub [OF this] have "unat (131071 - of_nat (n - k) :: u64) = 131071 - (n - k)"
    by (simp only: u) simp
  then have "131071 - of_nat (n - k) < (1 :: u64) \<longleftrightarrow> 131071 - (n - k) = 0"
    by (simp add: word_less_nat_alt del: of_nat_diff)
  then show ?thesis using assms by (simp add: d bufferSizeSlots_eq del: of_nat_diff) linarith
qed

lemma empty_test:
  assumes "(of_nat m :: u64) = of_nat k" and "m \<le> k" and "k \<le> m + 131071"
  shows "m = k"
proof -
  have "(of_nat (k - m) :: u64) = 0" using assms(1,2) by (simp add: of_nat_diff)
  moreover have "unat (of_nat (k - m) :: u64) = k - m"
    using assms by (simp add: unat_of_nat take_bit_nat_eq_self del: of_nat_diff)
  ultimately show ?thesis using assms(2) by simp
qed

text \<open>The slot being filled is none of the published ones, nor the one being read.\<close>

lemma filling_slot_free:
  assumes "m \<le> i" and "i < n" and "n < m + 131072"
  shows "i mod 131072 \<noteq> n mod (131072 :: nat)"
  using assms by (intro mod_apart) auto

lemmas threads_defs = threads_inv_def counters_ok_def slots_ok_def store_slot_def

lemma threads_inv_init: "threads_inv (threads_init zero)"
  by (simp add: threads_defs threads_init_def spsc_init_def)

lemma take_snoc_pushed:
  "xs = take (length xs) ys \<Longrightarrow> length xs < length ys \<Longrightarrow> v = ys ! length xs \<Longrightarrow>
   xs @ [v] = take (Suc (length xs)) ys"
  by (simp add: take_Suc_conv_app_nth)

lemma ok_unrelated [simp]:
  "prod_ok (s\<lparr>cons := c\<rparr>) p = prod_ok s p" "prod_ok (s\<lparr>prod := p'\<rparr>) p = prod_ok s p"
  "cons_ok (s\<lparr>prod := p\<rparr>) c = cons_ok s c" "cons_ok (s\<lparr>cons := c'\<rparr>) c = cons_ok s c"
  "cons_ok (store_slot w v s) c = cons_ok s c"
  "counters_ok (store_slot w v s) = counters_ok s"
  by ((cases p; cases c; simp add: counters_ok_def store_slot_def)+)

lemma ok_unrelated_state [simp]:
  "counters_ok (s\<lparr>prod := p\<rparr>) = counters_ok s" "counters_ok (s\<lparr>cons := c\<rparr>) = counters_ok s"
  "slots_ok (s\<lparr>prod := p\<rparr>) = slots_ok s" "slots_ok (s\<lparr>cons := c\<rparr>) = slots_ok s"
  by (simp_all add: counters_ok_def slots_ok_def)

lemma store_slot_sel [simp]:
  "prod (store_slot w v s) = prod s" "cons (store_slot w v s) = cons s"
  "pushed (store_slot w v s) = pushed s" "popped (store_slot w v s) = popped s"
  "saw_reader (store_slot w v s) = saw_reader s" "saw_writer (store_slot w v s) = saw_writer s"
  by (simp_all add: store_slot_def)

lemma store_writer_ok:
  assumes "threads_inv s" and "prod s = P_Filled x w"
  shows "threads_inv (s\<lparr>queue := (queue s)\<lparr>writer := w + 1\<rparr>, prod := P_Idle, writers := writers s @ [w + 1],
    pushed := pushed s @ [x]\<rparr>)"
    (is "threads_inv ?s")
proof -
  have c: "cons_ok s (cons s)" "saw_writer s \<le> length (pushed s)"
    using assms(1) by (simp_all add: threads_inv_def counters_ok_def)
  then have "cons_ok ?s (cons s)" by (cases "cons s") (auto simp: nth_append)
  moreover have "slots_ok ?s"
    using assms by (auto simp: threads_inv_def slots_ok_def nth_append less_Suc_eq)
  ultimately show ?thesis
    using assms by (auto simp: threads_inv_def counters_ok_def add.commute)
qed

lemma store_reader_ok:
  assumes "threads_inv s" and "cons s = C_Copied v r"
  shows "threads_inv (s\<lparr>queue := (queue s)\<lparr>reader := r + 1\<rparr>, cons := C_Idle, readers := readers s @ [r + 1],
    popped := popped s @ [v]\<rparr>)"
    (is "threads_inv ?s")
proof -
  have p: "prod_ok s (prod s)" using assms(1) by (simp add: threads_inv_def)
  then have "prod_ok ?s (prod s)" by (cases "prod s") auto
  moreover have "popped s @ [v] = take (Suc (length (popped s))) (pushed s)"
    using assms by (intro take_snoc_pushed) (simp_all add: threads_inv_def counters_ok_def)
  ultimately show ?thesis
    using assms by (auto simp: threads_inv_def counters_ok_def slots_ok_def add.commute)
qed

text \<open>A thread looks at the other's index.\<close>

lemma load_reader_ok:
  assumes s: "threads_inv s" and p: "prod s = P_Writer x w" and k: "saw_reader s \<le> k" "k < length (readers s)"
  shows "threads_inv (s\<lparr>prod := P_Both x w (readers s ! k), saw_reader := k\<rparr>)" (is "threads_inv ?s")
proof -
  have "readers s ! k = of_nat k" "k \<le> length (popped s)"
    using s k(2) by (auto simp: threads_inv_def counters_ok_def simp del: upt_Suc)
  moreover have "cons_ok ?s (cons s) = cons_ok s (cons s)" by (cases "cons s") simp_all
  ultimately show ?thesis
    using s p k(1) by (auto simp: threads_inv_def counters_ok_def slots_ok_def)
qed

lemma load_writer_ok:
  assumes s: "threads_inv s" and c: "cons s = C_Reader r" and k: "saw_writer s \<le> k" "k < length (writers s)"
  shows "threads_inv (s\<lparr>cons := C_Both r (writers s ! k), saw_writer := k\<rparr>)" (is "threads_inv ?s")
proof -
  have "writers s ! k = of_nat k" "k \<le> length (pushed s)"
    using s k(2) by (auto simp: threads_inv_def counters_ok_def simp del: upt_Suc)
  moreover have "prod_ok ?s (prod s) = prod_ok s (prod s)" by (cases "prod s") simp_all
  ultimately show ?thesis
    using s c k(1) by (auto simp: threads_inv_def counters_ok_def slots_ok_def)
qed

lemma store_slot_ok:
  assumes "threads_inv s" and w: "w = of_nat (length (pushed s))"
    and room: "length (pushed s) < saw_reader s + 131071"
    and p: "prod_ok (store_slot w v s) p"
  shows "threads_inv (store_slot w v (s\<lparr>prod := p\<rparr>))"
proof -
  have room: "length (pushed s) < length (popped s) + 131071"
    using assms(1) room by (simp add: threads_inv_def counters_ok_def)
  have "slots_ok (store_slot w v s)"
    unfolding slots_ok_def
  proof (intro allI impI)
    fix i assume i: "length (popped (store_slot w v s)) \<le> i" "i < length (pushed (store_slot w v s))"
    then have "i mod 131072 \<noteq> length (pushed s) mod 131072"
      using room by (intro filling_slot_free [of "length (popped s)"]) auto
    with i assms(1) show "buffer (queue (store_slot w v s)) (i mod 131072) = pushed (store_slot w v s) ! i"
      by (simp add: w slot_of_nat threads_inv_def slots_ok_def store_slot_def)
  qed
  moreover have "store_slot w v (s\<lparr>prod := p\<rparr>) = (store_slot w v s)\<lparr>prod := p\<rparr>"
    by (simp add: store_slot_def)
  ultimately show ?thesis
    using assms(1) p by (simp add: threads_inv_def)
qed

lemma threads_inv_step:
  assumes "spsc_step s s'" and "threads_inv s"
  shows "threads_inv s'"
  using assms
proof (cases rule: spsc_step.cases)
  case (push_load_writer x)
  with assms(2) show ?thesis by (simp add: threads_inv_def counters_ok_def)
next
  case (push_load_reader x w k)
  with assms(2) show ?thesis by (simp add: load_reader_ok)
next
  case (push_full x w r)
  with assms(2) show ?thesis by (simp add: threads_inv_def)
next
  case (push_copy_begin x w r torn)
  with assms(2) have k: "w = of_nat (length (pushed s))" "r = of_nat (saw_reader s)"
    "length (pushed s) \<le> saw_reader s + 131071" "saw_reader s \<le> length (pushed s)"
    by (simp_all add: threads_inv_def counters_ok_def)
  then have room: "length (pushed s) < saw_reader s + 131071"
    using push_copy_begin(3) full_test [of "saw_reader s" "length (pushed s)"] by auto
  then have "prod_ok (store_slot w torn s) (P_Filling x w)" by (simp add: k(1))
  with assms(2) k(1) room push_copy_begin(1) show ?thesis by (simp add: store_slot_ok)
next
  case (push_copy_end x w)
  with assms(2) have w: "w = of_nat (length (pushed s))" "length (pushed s) < saw_reader s + 131071"
    by (simp_all add: threads_inv_def)
  then have "prod_ok (store_slot w x s) (P_Filled x w)"
    by (simp add: store_slot_def slot_of_nat)
  with assms(2) w push_copy_end(1) show ?thesis by (simp add: store_slot_ok)
next
  case (push_store_writer x w)
  with assms(2) show ?thesis by (simp add: store_writer_ok)
next
  case pop_load_reader
  with assms(2) show ?thesis by (simp add: threads_inv_def counters_ok_def)
next
  case (pop_load_writer r k)
  with assms(2) show ?thesis by (simp add: load_writer_ok)
next
  case (pop_empty r w)
  with assms(2) show ?thesis by (simp add: threads_inv_def)
next
  case (pop_copy_begin r w)
  with assms(2) have "r = of_nat (length (popped s))" "w = of_nat (saw_writer s)"
    "length (popped s) \<le> saw_writer s" by (simp_all add: threads_inv_def counters_ok_def)
  moreover from this pop_copy_begin(3) have "length (popped s) \<noteq> saw_writer s" by auto
  ultimately show ?thesis using assms(2) pop_copy_begin(1) by (simp add: threads_inv_def)
next
  case (pop_copy_end r)
  with assms(2) show ?thesis
    by (simp add: threads_inv_def counters_ok_def slots_ok_def slot_of_nat)
next
  case (pop_store_reader v r)
  with assms(2) show ?thesis by (simp add: store_reader_ok)
qed

lemma threads_inv_reachable: "spsc_reachable zero s \<Longrightarrow> threads_inv s"
  unfolding spsc_reachable_def
  by (induction rule: rtranclp_induct) (auto intro: threads_inv_init threads_inv_step)

section \<open>The steps as functions\<close>

text \<open>
  What each thread does next, given the value the producer wants to push and the torn one, when every
  load returns the newest value.
\<close>

definition producer_step :: "'a \<Rightarrow> 'a \<Rightarrow> 'a spsc_threads \<Rightarrow> 'a spsc_threads" where
  "producer_step x torn s =
     (case prod s of
        P_Idle \<Rightarrow> s\<lparr>prod := P_Writer x (writer (queue s))\<rparr>
      | P_Writer y w \<Rightarrow>
          s\<lparr>prod := P_Both y w (readers s ! (length (readers s) - 1)), saw_reader := length (readers s) - 1\<rparr>
      | P_Both y w r \<Rightarrow>
          if bufferSizeSlots - 1 - used w r < 1 then s\<lparr>prod := P_Idle\<rparr>
          else store_slot w torn (s\<lparr>prod := P_Filling y w\<rparr>)
      | P_Filling y w \<Rightarrow> store_slot w y (s\<lparr>prod := P_Filled y w\<rparr>)
      | P_Filled y w \<Rightarrow>
          s\<lparr>queue := (queue s)\<lparr>writer := w + 1\<rparr>, prod := P_Idle, writers := writers s @ [w + 1],
            pushed := pushed s @ [y]\<rparr>)"

definition consumer_step :: "'a spsc_threads \<Rightarrow> 'a spsc_threads" where
  "consumer_step s =
     (case cons s of
        C_Idle \<Rightarrow> s\<lparr>cons := C_Reader (reader (queue s))\<rparr>
      | C_Reader r \<Rightarrow>
          s\<lparr>cons := C_Both r (writers s ! (length (writers s) - 1)), saw_writer := length (writers s) - 1\<rparr>
      | C_Both r w \<Rightarrow> if r = w then s\<lparr>cons := C_Idle\<rparr> else s\<lparr>cons := C_Copying r\<rparr>
      | C_Copying r \<Rightarrow> s\<lparr>cons := C_Copied (buffer (queue s) (slot r)) r\<rparr>
      | C_Copied v r \<Rightarrow>
          s\<lparr>queue := (queue s)\<lparr>reader := r + 1\<rparr>, cons := C_Idle, readers := readers s @ [r + 1],
            popped := popped s @ [v]\<rparr>)"

lemma newest_seen:
  assumes "threads_inv s"
  shows "readers s \<noteq> []" "saw_reader s \<le> length (readers s) - 1"
    and "writers s \<noteq> []" "saw_writer s \<le> length (writers s) - 1"
  using assms by (simp_all add: threads_inv_def counters_ok_def)

lemma producer_step_step: "threads_inv s \<Longrightarrow> spsc_step s (producer_step x torn s)"
  using newest_seen [of s] by (cases "prod s") (auto simp: producer_step_def intro: spsc_step.intros)

lemma consumer_step_step: "threads_inv s \<Longrightarrow> spsc_step s (consumer_step s)"
  using newest_seen [of s] by (cases "cons s") (auto simp: consumer_step_def intro: spsc_step.intros)

fun run_threads :: "'a \<Rightarrow> 'a option list \<Rightarrow> 'a spsc_threads \<Rightarrow> 'a spsc_threads" where
  "run_threads torn [] s = s"
| "run_threads torn (Some x # sched) s = run_threads torn sched (producer_step x torn s)"
| "run_threads torn (None # sched) s = run_threads torn sched (consumer_step s)"

lemma run_threads_steps: "threads_inv s \<Longrightarrow> spsc_step\<^sup>*\<^sup>* s (run_threads torn sched s)"
  by (induction torn sched s rule: run_threads.induct)
     (auto intro: producer_step_step consumer_step_step threads_inv_step converse_rtranclp_into_rtranclp)

text \<open>Two pushes and a pop, stopped while the second push fills its slot and the pop copies.\<close>

definition busy_state :: "nat spsc_threads" where
  "busy_state =
     run_threads 99 (replicate 5 (Some 7) @ replicate 3 (Some 8) @ replicate 3 None) (threads_init 0)"

lemma busy_state_reachable: "spsc_reachable 0 busy_state"
  unfolding spsc_reachable_def busy_state_def by (rule run_threads_steps [OF threads_inv_init])

section \<open>Properties\<close>

text \<open>
  C10. One push and one pop refine the bounded list: a push appends exactly when fewer than 131071
  values are queued and otherwise answers false and changes nothing, a pop takes the oldest value
  and answers false exactly on the empty queue; this holds at every value of the two 64-bit
  counters, their wrap-around included.
\<close>

theorem spsc_refines_bounded_list:
  assumes "spsc_inv q"
  shows "(case try_push q x of (ok, q') \<Rightarrow>
            spsc_inv q' \<and> ok = (length (spsc_items q) < 131071) \<and>
            spsc_items q' = (if ok then spsc_items q @ [x] else spsc_items q)) \<and>
         (case try_pop q of (r, q') \<Rightarrow>
            spsc_inv q' \<and>
            (case spsc_items q of
               [] \<Rightarrow> r = None \<and> q' = q
             | y # ys \<Rightarrow> r = Some y \<and> spsc_items q' = ys))"
proof
  show "case try_push q x of (ok, q') \<Rightarrow>
            spsc_inv q' \<and> ok = (length (spsc_items q) < 131071) \<and>
            spsc_items q' = (if ok then spsc_items q @ [x] else spsc_items q)"
    using assms by (cases rule: spsc.push_cases [OF assms, of x]) (simp_all add: spsc_capacity_def)
  show "case try_pop q of (r, q') \<Rightarrow> spsc_inv q' \<and>
            (case spsc_items q of [] \<Rightarrow> r = None \<and> q' = q | y # ys \<Rightarrow> r = Some y \<and> spsc_items q' = ys)"
  proof (cases "spsc_items q")
    case Nil
    with spsc.pop_empty [OF assms] assms show ?thesis by simp
  next
    case (Cons y ys)
    with spsc.pop_ok [OF assms, of y ys] show ?thesis by auto
  qed
qed

text \<open>A queue whose writer has wrapped around while its reader has not.\<close>

definition wrapped_queue :: "nat SPSCQueue" where
  "wrapped_queue = \<lparr>buffer = (\<lambda>i. i), reader = - 2, writer = 1\<rparr>"

lemma spsc_refines_bounded_list_witness:
  "(case try_push wrapped_queue 5 of (ok, q') \<Rightarrow>
            spsc_inv q' \<and> ok = (length (spsc_items wrapped_queue) < 131071) \<and>
            spsc_items q' = (if ok then spsc_items wrapped_queue @ [5] else spsc_items wrapped_queue)) \<and>
         (case try_pop wrapped_queue of (r, q') \<Rightarrow>
            spsc_inv q' \<and>
            (case spsc_items wrapped_queue of
               [] \<Rightarrow> r = None \<and> q' = wrapped_queue
             | y # ys \<Rightarrow> r = Some y \<and> spsc_items q' = ys))"
  by (rule spsc_refines_bounded_list) (simp add: spsc_inv_def wrapped_queue_def spsc_capacity_def)

text \<open>
  C8. Under every interleaving of the two threads, with torn copies and indices seen late, the values popped so far are
  the first values pushed, in order and without loss or duplication, and never more than 131071
  values are in flight.
\<close>

theorem spsc_fifo:
  assumes "spsc_reachable zero s"
  shows "popped s = take (length (popped s)) (pushed s) \<and>
    length (popped s) \<le> length (pushed s) \<and> length (pushed s) \<le> length (popped s) + 131071"
  using threads_inv_reachable [OF assms] by (auto simp: threads_inv_def counters_ok_def)

lemma spsc_fifo_witness:
  "popped busy_state = take (length (popped busy_state)) (pushed busy_state) \<and>
    length (popped busy_state) \<le> length (pushed busy_state) \<and>
    length (pushed busy_state) \<le> length (popped busy_state) + 131071"
  by (rule spsc_fifo [OF busy_state_reachable])

text \<open>
  C9. The copies never touch the same slot at once: while the producer fills a slot and the consumer
  copies one out, the two slots differ, so the plain memory accesses of the queue do not race.
\<close>

theorem spsc_no_slot_race:
  assumes "spsc_reachable zero s" and "prod s = P_Filling x w" and "cons s = C_Copying r"
  shows "slot w \<noteq> slot r"
proof -
  have "threads_inv s" by (rule threads_inv_reachable [OF assms(1)])
  with assms(2,3) have w: "w = of_nat (length (pushed s))" and r: "r = of_nat (length (popped s))"
    and len: "length (popped s) < length (pushed s)" "length (pushed s) < length (popped s) + 131071"
    by (simp_all add: threads_inv_def counters_ok_def)
  have "length (popped s) mod 131072 \<noteq> length (pushed s) mod 131072"
    using len by (intro filling_slot_free [OF order_refl]) simp_all
  then show ?thesis by (simp add: w r slot_of_nat)
qed

lemma spsc_no_slot_race_witness: "slot (1 :: u64) \<noteq> slot 0"
proof (rule spsc_no_slot_race [OF busy_state_reachable])
  show "prod busy_state = P_Filling 8 1" "cons busy_state = C_Copying 0"
    by code_simp+
qed

end
