(* ===== verification/Spmc.thy ===== *)
theory Spmc
  imports Ring Order_Shared
begin

text \<open>
  \<open>include/spmc_queue.hpp\<close>: the broadcast queue between the handler and the strategy threads. One
  producer writes slots guarded by a version counter (a sequence lock per slot); every consumer
  reads all messages pushed after it was made, and aborts when the producer laps it. This theory
  has the queue as a sequential object and its contract, the log of all messages pushed.
\<close>

section \<open>The queue\<close>

text \<open>
  \<open>sizeof(Slot)\<close> is 64 for every message of at most 56 bytes (\<open>StrategyMsg\<close> has 32): the version,
  the data, and the padding of \<open>alignas(64)\<close>.
\<close>

definition sizeof_Slot :: u64 where
  "sizeof_Slot = 64"

definition buffer_size :: u64 where
  "buffer_size = 8 * 1024 * 1024 div sizeof_Slot"

definition wrap_mask :: u64 where
  "wrap_mask = buffer_size - 1"

definition countr_zero :: "u64 \<Rightarrow> nat" where
  "countr_zero x = length (takeWhile (\<lambda>i. \<not> bit x i) [0..<64])"

record 'a SPMCQueue =
  version :: "nat \<Rightarrow> u64"
  data :: "nat \<Rightarrow> 'a"
  writer :: u64

record Consumer =
  reader :: u64

definition spmc_init :: "'a \<Rightarrow> 'a SPMCQueue" where
  "spmc_init zero = \<lparr>version = (\<lambda>_. 0), data = (\<lambda>_. zero), writer = 0\<rparr>"

definition make_consumer :: "'a SPMCQueue \<Rightarrow> Consumer" where
  "make_consumer q = \<lparr>reader = writer q\<rparr>"

definition slot_index :: "u64 \<Rightarrow> nat" where
  "slot_index i = unat (i AND wrap_mask)"

definition expected_version :: "u64 \<Rightarrow> u64" where
  "expected_version r = (let gen = drop_bit (countr_zero buffer_size) r in 2 * (gen + 1))"

definition push :: "'a SPMCQueue \<Rightarrow> 'a \<Rightarrow> 'a SPMCQueue" where
  "push q val =
     (let w = writer q;
          i = slot_index w;
          slot_ver = version q i;
          q1 = q\<lparr>version := (version q)(i := slot_ver + 1)\<rparr>;
          q2 = q1\<lparr>data := (data q1)(i := val)\<rparr>;
          q3 = q2\<lparr>version := (version q2)(i := slot_ver + 2)\<rparr>
      in q3\<lparr>writer := w + 1\<rparr>)"

definition pop :: "'a SPMCQueue \<Rightarrow> Consumer \<Rightarrow> ('a option \<times> Consumer) result" where
  "pop q c =
     (let r_idx = slot_index (reader c);
          expected = expected_version (reader c);
          v1 = version q r_idx
      in rbind (UNEXPECTED (v1 > expected) ''Consumer was overun before trying to pop.'') (\<lambda>_.
         if v1 < expected then Inr (None, c)
         else
           let temp = data q r_idx;
               v2 = version q r_idx
           in rbind (UNEXPECTED (v2 \<noteq> expected) ''Consumer was overun while popping.'') (\<lambda>_.
              Inr (Some temp, c\<lparr>reader := reader c + 1\<rparr>))))"

section \<open>Version arithmetic\<close>

lemma buffer_size_eq: "buffer_size = 131072"
  by (simp add: buffer_size_def sizeof_Slot_def)

lemma countr_zero_buffer_size: "countr_zero buffer_size = 17"
  unfolding buffer_size_eq by code_simp

lemma slot_index_of_nat: "slot_index (of_nat n) = n mod ring_slots"
  using unat_and_ring_mask [of "of_nat n"] unat_of_nat_mod_ring [of n]
  by (simp add: slot_index_def wrap_mask_def buffer_size_eq)

lemma slot_index_less [simp]: "slot_index i < ring_slots"
  using unat_and_ring_mask [of i] by (simp add: slot_index_def wrap_mask_def buffer_size_eq)

text \<open>Below \<open>2 ^ 64\<close> pushes the version numbers are far from wrapping.\<close>

lemma round_bound: "k < 2 ^ 64 \<Longrightarrow> k div ring_slots < 2 ^ 47"
  by (simp add: ring_slots_def div_less_iff_less_mult)

lemma expected_version_of_nat:
  assumes "k < 2 ^ 64"
  shows "unat (expected_version (of_nat k)) = 2 * Suc (k div ring_slots)"
proof -
  have "unat (of_nat k :: u64) = k"
    using assms by (simp add: unat_of_nat take_bit_nat_eq_self)
  moreover from this have "take_bit 64 k = k"
    using assms by (simp add: take_bit_nat_eq_self)
  ultimately have "unat (drop_bit 17 (of_nat k :: u64)) = k div ring_slots"
    by (simp only: unsigned_drop_bit_eq) (simp add: drop_bit_eq_div ring_slots_def)
  then show ?thesis
    using round_bound [OF assms]
    by (simp add: expected_version_def countr_zero_buffer_size unat_word_ariths)
qed

lemma laps_bound: "n < 2 ^ 64 \<Longrightarrow> laps j n \<le> 2 ^ 47"
  using round_bound [of n] by (simp add: laps_def)

lemma unat_version:
  assumes "n < 2 ^ 64" and "b \<le> 1"
  shows "unat (of_nat (2 * laps j n + b) :: u64) = 2 * laps j n + b"
proof -
  have "2 * laps j n + b < 2 ^ 64" using laps_bound [OF assms(1), of j] assms(2) by simp
  then show ?thesis by (simp only: unat_of_nat) (simp add: take_bit_nat_eq_self)
qed

section \<open>The log the queue broadcasts\<close>

text \<open>
  \<open>log_ok q log\<close>: \<open>log\<close> lists everything pushed so far and the slots hold its last round. The
  contract of a broadcast queue: a push appends to the log, and a consumer at position \<open>k\<close> reads
  entry \<open>k\<close>, or nothing at the end of the log, or aborts once it is more than a round behind.
\<close>

locale broadcast_queue =
  fixes init :: 'q
    and put :: "'q \<Rightarrow> 'a \<Rightarrow> 'q"
    and get :: "'q \<Rightarrow> 'c \<Rightarrow> ('a option \<times> 'c) result"
    and connect :: "'q \<Rightarrow> 'c"
    and logged :: "'q \<Rightarrow> 'a list \<Rightarrow> bool"
    and at :: "'c \<Rightarrow> nat \<Rightarrow> bool"
    and slots :: nat and limit :: nat
  assumes init_ok: "logged init []"
    and put_ok: "logged q log \<Longrightarrow> length log + 1 < limit \<Longrightarrow> logged (put q x) (log @ [x])"
    and connect_ok: "logged q log \<Longrightarrow> at (connect q) (length log)"
    and get_next: "logged q log \<Longrightarrow> at c k \<Longrightarrow> k < length log \<Longrightarrow> length log \<le> k + slots \<Longrightarrow>
      \<exists>c'. get q c = Inr (Some (log ! k), c') \<and> at c' (k + 1)"
    and get_end: "logged q log \<Longrightarrow> at c (length log) \<Longrightarrow> get q c = Inr (None, c)"
    and get_overrun: "logged q log \<Longrightarrow> at c k \<Longrightarrow> k + slots < length log \<Longrightarrow>
      \<exists>message. get q c = Inl (Unexpected message)"
begin

fun drain :: "'q \<Rightarrow> nat \<Rightarrow> 'c \<Rightarrow> ('a list \<times> 'c) result" where
  "drain q 0 c = Inr ([], c)"
| "drain q (Suc n) c =
     rbind (get q c) (\<lambda>(r, c1). case r of
         None \<Rightarrow> Inr ([], c1)
       | Some x \<Rightarrow> rbind (drain q n c1) (\<lambda>(xs, c2). Inr (x # xs, c2)))"

lemma puts_ok:
  "logged q log \<Longrightarrow> length log + length xs < limit \<Longrightarrow> logged (foldl put q xs) (log @ xs)"
proof (induction xs arbitrary: q log)
  case (Cons x xs)
  then have "logged (put q x) (log @ [x])" by (intro put_ok) auto
  with Cons.IH [OF this] Cons.prems show ?case by simp
qed simp

text \<open>A consumer within a round of the end reads the rest of the log.\<close>

lemma drain_ok:
  assumes "logged q log" and "at c k" and "k \<le> length log" and "length log \<le> k + slots"
  shows "\<exists>c'. drain q (length log - k) c = Inr (drop k log, c') \<and> at c' (length log)"
  using assms
proof (induction "length log - k" arbitrary: c k)
  case 0
  then have "k = length log" by simp
  with 0 show ?case by auto
next
  case (Suc d)
  then have k: "k < length log" by simp
  obtain c1 where g: "get q c = Inr (Some (log ! k), c1)" "at c1 (k + 1)"
    using get_next [OF Suc.prems(1,2) k Suc.prems(4)] by auto
  have d: "d = length log - (k + 1)" using Suc.hyps(2) by simp
  obtain c2 where "drain q d c1 = Inr (drop (k + 1) log, c2)" "at c2 (length log)"
    using Suc.hyps(1) [OF d Suc.prems(1) g(2)] d k Suc.prems(4) by auto
  with g(1) k show ?case
    unfolding Suc.hyps(2) [symmetric] by (simp add: Cons_nth_drop_Suc)
qed

end

definition log_ok :: "'a SPMCQueue \<Rightarrow> 'a list \<Rightarrow> bool" where
  "log_ok q log \<longleftrightarrow>
     length log < 2 ^ 64 \<and> writer q = of_nat (length log) \<and>
     (\<forall>j < ring_slots. version q j = of_nat (2 * laps j (length log))) \<and>
     (\<forall>k < length log. length log \<le> k + ring_slots \<longrightarrow> data q (k mod ring_slots) = log ! k)"

definition consumer_at :: "Consumer \<Rightarrow> nat \<Rightarrow> bool" where
  "consumer_at c k \<longleftrightarrow> k < 2 ^ 64 \<and> reader c = of_nat k"

lemma log_ok_init: "log_ok (spmc_init zero) []"
  by (simp add: log_ok_def spmc_init_def)

lemma push_log_ok:
  assumes ok: "log_ok q log" and len: "length log + 1 < 2 ^ 64"
  shows "log_ok (push q x) (log @ [x])"
proof -
  let ?n = "length log"
  let ?i = "?n mod ring_slots"
  have i: "slot_index (writer q) = ?i" using ok by (simp add: log_ok_def slot_index_of_nat)
  have sel: "version (push q x) = (version q)(?i := version q ?i + 2)"
    "data (push q x) = (data q)(?i := x)" "writer (push q x) = writer q + 1"
    by (simp_all add: push_def Let_def i)
  have "version (push q x) j = of_nat (2 * laps j (Suc ?n))" if j: "j < ring_slots" for j
    using ok j by (auto simp: log_ok_def sel(1) laps_Suc)
  moreover have "data (push q x) (k mod ring_slots) = (log @ [x]) ! k"
    if k: "k < Suc ?n" "Suc ?n \<le> k + ring_slots" for k
  proof (cases "k = ?n")
    case False
    with k have "k mod ring_slots \<noteq> ?i" by (intro mod_apart) auto
    with False k ok show ?thesis by (simp add: sel(2) log_ok_def nth_append)
  qed (simp add: sel(2))
  moreover have "writer (push q x) = of_nat (Suc ?n)"
    using ok by (simp add: log_ok_def sel)
  ultimately show ?thesis
    using len by (simp add: log_ok_def)
qed

lemma pop_cases:
  assumes ok: "log_ok q log" and at: "consumer_at c k" and k: "k \<le> length log"
  shows "(k + ring_slots < length log \<longrightarrow> pop q c = Inl (Unexpected ''Consumer was overun before trying to pop.'')) \<and>
    (k = length log \<longrightarrow> pop q c = Inr (None, c)) \<and>
    (k < length log \<longrightarrow> length log \<le> k + ring_slots \<longrightarrow>
       pop q c = Inr (Some (log ! k), c\<lparr>reader := reader c + 1\<rparr>))"
proof -
  let ?n = "length log"
  let ?v = "version q (slot_index (reader c))" and ?e = "expected_version (reader c)"
  have r: "reader c = of_nat k" and k64: "k < 2 ^ 64" using at by (simp_all add: consumer_at_def)
  have n64: "?n < 2 ^ 64" using ok by (simp add: log_ok_def)
  have s: "slot_index (reader c) = k mod ring_slots" by (simp add: r slot_index_of_nat)
  have "?v = of_nat (2 * laps (k mod ring_slots) ?n + 0)"
    unfolding s using ok by (simp add: log_ok_def)
  then have v: "unat ?v = 2 * laps (k mod ring_slots) ?n"
    by (simp only: unat_version [OF n64])
  have e: "unat ?e = 2 * Suc (k div ring_slots)"
    unfolding r by (rule expected_version_of_nat [OF k64])
  have gt: "?v > ?e \<longleftrightarrow> k + ring_slots < ?n"
    unfolding word_less_nat_alt v e laps_greater_iff [of k ?n, symmetric] by (subst mult_less_cancel1) simp
  have lt: "?v < ?e \<longleftrightarrow> ?n \<le> k"
    unfolding word_less_nat_alt v e laps_less_iff [of k ?n, symmetric]
    by (subst mult_less_cancel1) (simp add: less_Suc_eq_le)
  have d: "data q (slot_index (reader c)) = log ! k" if "k < ?n" "?n \<le> k + ring_slots"
    unfolding s using ok that by (simp add: log_ok_def)
  show ?thesis
  proof (cases "k < ?n \<and> ?n \<le> k + ring_slots")
    case True
    then have "?v = ?e" using gt lt by auto
    with True d show ?thesis by (simp add: pop_def Let_def)
  next
    case False
    with k gt lt show ?thesis by (auto simp: pop_def Let_def)
  qed
qed

interpretation spmc: broadcast_queue "spmc_init zero" push pop make_consumer log_ok consumer_at
  ring_slots "2 ^ 64"
proof
  show "log_ok (spmc_init zero) []" by (rule log_ok_init)
  show "log_ok (push q x) (log @ [x])" if "log_ok q log" "length log + 1 < 2 ^ 64" for q log x
    using that by (rule push_log_ok)
  show "consumer_at (make_consumer q) (length log)" if "log_ok q log" for q :: "'a SPMCQueue" and log
    using that by (simp add: consumer_at_def make_consumer_def log_ok_def)
  show "\<exists>c'. pop q c = Inr (Some (log ! k), c') \<and> consumer_at c' (k + 1)"
    if "log_ok q log" "consumer_at c k" "k < length log" "length log \<le> k + ring_slots" for q log c k
    using pop_cases [OF that(1,2)] that by (auto simp: consumer_at_def log_ok_def add.commute)
  show "pop q c = Inr (None, c)" if "log_ok q log" "consumer_at c (length log)" for q log c
    using pop_cases [OF that] by simp
  show "\<exists>message. pop q c = Inl (Unexpected message)"
    if "log_ok q log" "consumer_at c k" "k + ring_slots < length log" for q log c k
    using pop_cases [OF that(1,2)] that(3) by simp
qed

end
