(* ===== verification/Spmc_Threads.thy ===== *)
theory Spmc_Threads
  imports Spmc
begin

text \<open>
  The producer and any number of consumers of \<open>include/spmc_queue.hpp\<close> as threads, one step per
  atomic access and one for each end of the plain copies of \<open>data\<close>. A copy that overlaps a write
  yields an arbitrary value; the version check must reject it. Loads and stores keep their program
  order, as on x86, which the code relies on.
\<close>

section \<open>The threads\<close>

datatype 'a producer =
    W_Idle
  | W_Loaded 'a u64
  | W_Version 'a u64 u64
  | W_Odd 'a u64 u64
  | W_Filling 'a u64 u64
  | W_Filled 'a u64 u64
  | W_Published u64

text \<open>
  \<open>R_Valid\<close> has seen the expected version, \<open>R_Copying dirty\<close> is copying the data, \<open>dirty\<close> when a
  write to the slot has overlapped the copy, \<open>R_Copied\<close> has its copy and has not checked it.
\<close>

datatype 'a consumer =
    R_None
  | R_Idle
  | R_Valid
  | R_Copying bool
  | R_Copied 'a
  | R_Aborted

text \<open>
  \<open>published\<close> lists the pushed values in order, \<open>started\<close> the number of values pushed before a
  consumer was made, \<open>received\<close> what its calls returned.
\<close>

record 'a spmc_threads =
  mem :: "'a SPMCQueue"
  prod :: "'a producer"
  cons :: "nat \<Rightarrow> 'a consumer"
  handles :: "nat \<Rightarrow> Consumer"
  published :: "'a list"
  started :: "nat \<Rightarrow> nat"
  received :: "nat \<Rightarrow> 'a list"

definition spmc_threads_init :: "'a \<Rightarrow> 'a spmc_threads" where
  "spmc_threads_init zero =
     \<lparr>mem = spmc_init zero, prod = W_Idle, cons = (\<lambda>_. R_None), handles = (\<lambda>_. \<lparr>reader = 0\<rparr>),
      published = [], started = (\<lambda>_. 0), received = (\<lambda>_. [])\<rparr>"

definition set_version :: "u64 \<Rightarrow> u64 \<Rightarrow> 'a SPMCQueue \<Rightarrow> 'a SPMCQueue" where
  "set_version w v q = q\<lparr>version := (version q)(slot_index w := v)\<rparr>"

definition set_data :: "u64 \<Rightarrow> 'a \<Rightarrow> 'a SPMCQueue \<Rightarrow> 'a SPMCQueue" where
  "set_data w x q = q\<lparr>data := (data q)(slot_index w := x)\<rparr>"

definition touched :: "u64 \<Rightarrow> ('a, 'b) spmc_threads_scheme \<Rightarrow> nat \<Rightarrow> 'a consumer" where
  "touched w s i =
     (case cons s i of
        R_Copying dirty \<Rightarrow> R_Copying (dirty \<or> slot_index (reader (handles s i)) = slot_index w)
      | c \<Rightarrow> c)"

fun filling :: "'a producer \<Rightarrow> nat \<Rightarrow> bool" where
  "filling (W_Filling x w v) j \<longleftrightarrow> slot_index w = j"
| "filling p j \<longleftrightarrow> False"

text \<open>The version and the expected version a consumer compares.\<close>

definition seen :: "('a, 'b) spmc_threads_scheme \<Rightarrow> nat \<Rightarrow> u64" where
  "seen s i = version (mem s) (slot_index (reader (handles s i)))"

definition wanted :: "('a, 'b) spmc_threads_scheme \<Rightarrow> nat \<Rightarrow> u64" where
  "wanted s i = expected_version (reader (handles s i))"

definition counted :: "'a spmc_threads \<Rightarrow> nat" where
  "counted s = (case prod s of W_Published w \<Rightarrow> length (published s) - 1 | _ \<Rightarrow> length (published s))"

inductive spmc_step :: "'a spmc_threads \<Rightarrow> 'a spmc_threads \<Rightarrow> bool" where
  load_writer: "prod s = W_Idle \<Longrightarrow>
    spmc_step s (s\<lparr>prod := W_Loaded x (writer (mem s))\<rparr>)"
| load_version: "prod s = W_Loaded x w \<Longrightarrow>
    spmc_step s (s\<lparr>prod := W_Version x w (version (mem s) (slot_index w))\<rparr>)"
| store_odd: "prod s = W_Version x w v \<Longrightarrow>
    spmc_step s (s\<lparr>mem := set_version w (v + 1) (mem s), prod := W_Odd x w v\<rparr>)"
| fill_begin: "prod s = W_Odd x w v \<Longrightarrow>
    spmc_step s (s\<lparr>mem := set_data w torn (mem s), prod := W_Filling x w v, cons := touched w s\<rparr>)"
| fill_end: "prod s = W_Filling x w v \<Longrightarrow>
    spmc_step s (s\<lparr>mem := set_data w x (mem s), prod := W_Filled x w v\<rparr>)"
| store_even: "prod s = W_Filled x w v \<Longrightarrow>
    spmc_step s (s\<lparr>mem := set_version w (v + 2) (mem s), prod := W_Published w,
                   published := published s @ [x]\<rparr>)"
| store_writer: "prod s = W_Published w \<Longrightarrow>
    spmc_step s (s\<lparr>mem := (mem s)\<lparr>writer := w + 1\<rparr>, prod := W_Idle\<rparr>)"
| connect: "cons s i = R_None \<Longrightarrow>
    spmc_step s (s\<lparr>cons := (cons s)(i := R_Idle), handles := (handles s)(i := make_consumer (mem s)),
                   started := (started s)(i := counted s)\<rparr>)"
| overrun: "cons s i = R_Idle \<Longrightarrow> seen s i > wanted s i \<Longrightarrow>
    spmc_step s (s\<lparr>cons := (cons s)(i := R_Aborted)\<rparr>)"
| nothing: "cons s i = R_Idle \<Longrightarrow> seen s i < wanted s i \<Longrightarrow> spmc_step s s"
| valid: "cons s i = R_Idle \<Longrightarrow> \<not> seen s i > wanted s i \<Longrightarrow> \<not> seen s i < wanted s i \<Longrightarrow>
    spmc_step s (s\<lparr>cons := (cons s)(i := R_Valid)\<rparr>)"
| copy_begin: "cons s i = R_Valid \<Longrightarrow>
    spmc_step s (s\<lparr>cons := (cons s)(i := R_Copying (filling (prod s) (slot_index (reader (handles s i)))))\<rparr>)"
| copy_end: "cons s i = R_Copying dirty \<Longrightarrow>
    (\<not> dirty \<Longrightarrow> t = data (mem s) (slot_index (reader (handles s i)))) \<Longrightarrow>
    spmc_step s (s\<lparr>cons := (cons s)(i := R_Copied t)\<rparr>)"
| overrun_while_popping: "cons s i = R_Copied t \<Longrightarrow> seen s i \<noteq> wanted s i \<Longrightarrow>
    spmc_step s (s\<lparr>cons := (cons s)(i := R_Aborted)\<rparr>)"
| receive: "cons s i = R_Copied t \<Longrightarrow> seen s i = wanted s i \<Longrightarrow>
    spmc_step s (s\<lparr>cons := (cons s)(i := R_Idle),
                   handles := (handles s)(i := (handles s i)\<lparr>reader := reader (handles s i) + 1\<rparr>),
                   received := (received s)(i := received s i @ [t])\<rparr>)"

definition spmc_reachable :: "'a \<Rightarrow> 'a spmc_threads \<Rightarrow> bool" where
  "spmc_reachable zero s = spmc_step\<^sup>*\<^sup>* (spmc_threads_init zero) s"

section \<open>The invariant of the producer and the memory\<close>

text \<open>The version of a slot as a natural number: twice its laps, plus one while it is written.\<close>

fun busy :: "'a producer \<Rightarrow> bool" where
  "busy (W_Odd x w v) = True"
| "busy (W_Filling x w v) = True"
| "busy (W_Filled x w v) = True"
| "busy p = False"

fun dirty_data :: "'a producer \<Rightarrow> bool" where
  "dirty_data (W_Filling x w v) = True"
| "dirty_data (W_Filled x w v) = True"
| "dirty_data p = False"

definition lap_version :: "nat \<Rightarrow> 'a producer \<Rightarrow> nat \<Rightarrow> nat" where
  "lap_version n p j = 2 * laps j n + (if busy p \<and> j = n mod ring_slots then 1 else 0)"

fun prod_ok :: "nat \<Rightarrow> 'a SPMCQueue \<Rightarrow> 'a producer \<Rightarrow> bool" where
  "prod_ok n q W_Idle \<longleftrightarrow> writer q = of_nat n"
| "prod_ok n q (W_Loaded x w) \<longleftrightarrow> writer q = of_nat n \<and> w = of_nat n"
| "prod_ok n q (W_Version x w v) \<longleftrightarrow>
     writer q = of_nat n \<and> w = of_nat n \<and> v = of_nat (2 * laps (n mod ring_slots) n)"
| "prod_ok n q (W_Odd x w v) \<longleftrightarrow>
     writer q = of_nat n \<and> w = of_nat n \<and> v = of_nat (2 * laps (n mod ring_slots) n)"
| "prod_ok n q (W_Filling x w v) \<longleftrightarrow>
     writer q = of_nat n \<and> w = of_nat n \<and> v = of_nat (2 * laps (n mod ring_slots) n)"
| "prod_ok n q (W_Filled x w v) \<longleftrightarrow>
     writer q = of_nat n \<and> w = of_nat n \<and> v = of_nat (2 * laps (n mod ring_slots) n) \<and>
     data q (n mod ring_slots) = x"
| "prod_ok n q (W_Published w) \<longleftrightarrow> 0 < n \<and> w = of_nat (n - 1) \<and> writer q = of_nat (n - 1)"

definition versions_ok :: "nat \<Rightarrow> 'a producer \<Rightarrow> 'a SPMCQueue \<Rightarrow> bool" where
  "versions_ok n p q \<longleftrightarrow> (\<forall>j < ring_slots. version q j = of_nat (lap_version n p j))"

definition data_ok :: "'a list \<Rightarrow> 'a producer \<Rightarrow> 'a SPMCQueue \<Rightarrow> bool" where
  "data_ok pub p q \<longleftrightarrow>
     (\<forall>k < length pub. length pub \<le> k + ring_slots \<longrightarrow>
        (dirty_data p \<longrightarrow> length pub \<noteq> k + ring_slots) \<longrightarrow> data q (k mod ring_slots) = pub ! k)"

definition mem_ok :: "'a list \<Rightarrow> 'a producer \<Rightarrow> 'a SPMCQueue \<Rightarrow> bool" where
  "mem_ok pub p q \<longleftrightarrow> prod_ok (length pub) q p \<and> versions_ok (length pub) p q \<and> data_ok pub p q"

lemma mem_ok_init: "mem_ok [] W_Idle (spmc_init zero)"
  by (simp add: mem_ok_def versions_ok_def data_ok_def lap_version_def spmc_init_def)

lemma lap_version_not_busy: "\<not> busy p \<Longrightarrow> \<not> busy p' \<Longrightarrow> lap_version n p = lap_version n p'"
  by (simp add: lap_version_def fun_eq_iff)

lemma lap_version_both_busy: "busy p \<Longrightarrow> busy p' \<Longrightarrow> lap_version n p = lap_version n p'"
  by (simp add: lap_version_def fun_eq_iff)

lemma set_sel [simp]:
  "version (set_version w v q) = (version q)(slot_index w := v)"
  "data (set_version w v q) = data q" "writer (set_version w v q) = writer q"
  "data (set_data w x q) = (data q)(slot_index w := x)"
  "version (set_data w x q) = version q" "writer (set_data w x q) = writer q"
  by (simp_all add: set_version_def set_data_def)

lemma slot_of_pub: "w = of_nat n \<Longrightarrow> slot_index w = n mod ring_slots"
  by (simp add: slot_index_of_nat)

lemma mem_ok_load_version:
  "mem_ok pub (W_Loaded x w) q \<Longrightarrow> mem_ok pub (W_Version x w (version q (slot_index w))) q"
  by (auto simp: mem_ok_def versions_ok_def data_ok_def lap_version_def slot_index_of_nat)

lemma mem_ok_store_odd:
  "mem_ok pub (W_Version x w v) q \<Longrightarrow> mem_ok pub (W_Odd x w v) (set_version w (v + 1) q)"
  by (auto simp: mem_ok_def versions_ok_def data_ok_def lap_version_def slot_index_of_nat add.commute)

lemma fill_keeps:
  assumes "length pub \<le> k + ring_slots" and "k < length pub" and "length pub \<noteq> k + ring_slots"
  shows "k mod ring_slots \<noteq> length pub mod ring_slots"
  using assms by (intro mod_apart) auto

lemma mem_ok_fill_begin:
  "mem_ok pub (W_Odd x w v) q \<Longrightarrow> mem_ok pub (W_Filling x w v) (set_data w torn q)"
  using fill_keeps [of pub]
  by (auto simp: mem_ok_def versions_ok_def data_ok_def lap_version_def slot_index_of_nat)

lemma mem_ok_fill_end:
  "mem_ok pub (W_Filling x w v) q \<Longrightarrow> mem_ok pub (W_Filled x w v) (set_data w x q)"
  using fill_keeps [of pub]
  by (auto simp: mem_ok_def versions_ok_def data_ok_def lap_version_def slot_index_of_nat)

lemma mem_ok_store_even:
  assumes ok: "mem_ok pub (W_Filled x w v) q"
  shows "mem_ok (pub @ [x]) (W_Published w) (set_version w (v + 2) q)"
proof -
  let ?n = "length pub"
  have w: "w = of_nat ?n" and v: "v = of_nat (2 * laps (?n mod ring_slots) ?n)"
    and x: "data q (?n mod ring_slots) = x" and wr: "writer q = of_nat ?n"
    using ok by (simp_all add: mem_ok_def)
  have "versions_ok (Suc ?n) (W_Published w :: 'a producer) (set_version w (v + 2) q)"
    using ok by (auto simp: mem_ok_def versions_ok_def lap_version_def slot_index_of_nat v laps_Suc)
  moreover have "data_ok (pub @ [x]) (W_Published w) (set_version w (v + 2) q)"
    unfolding data_ok_def
  proof (intro allI impI)
    fix k assume k: "k < length (pub @ [x])" "length (pub @ [x]) \<le> k + ring_slots"
    show "data (set_version w (v + 2) q) (k mod ring_slots) = (pub @ [x]) ! k"
    proof (cases "k = ?n")
      case False
      with k ok show ?thesis by (auto simp: mem_ok_def data_ok_def nth_append)
    qed (simp add: x)
  qed
  ultimately show ?thesis
    by (simp add: mem_ok_def w wr)
qed

lemma mem_ok_store_writer:
  "mem_ok pub (W_Published w) q \<Longrightarrow> mem_ok pub W_Idle (q\<lparr>writer := w + 1\<rparr>)"
  by (cases "length pub") (auto simp: mem_ok_def versions_ok_def data_ok_def lap_version_def)

lemma mem_ok_load_writer:
  "mem_ok pub W_Idle q \<Longrightarrow> mem_ok pub (W_Loaded x (writer q)) q"
  by (auto simp: mem_ok_def versions_ok_def data_ok_def lap_version_def)

section \<open>The invariant of the consumers\<close>

definition turn :: "nat \<Rightarrow> nat" where
  "turn k = 2 * Suc (k div ring_slots)"

text \<open>
  What a consumer at position \<open>k\<close> knows: in \<open>R_Copied\<close> that its copy is the published value if the
  version is still the expected one, in \<open>R_Aborted\<close> that the producer was a whole round ahead.
\<close>

fun cons_ok :: "(nat \<Rightarrow> nat) \<Rightarrow> 'a list \<Rightarrow> nat \<Rightarrow> 'a consumer \<Rightarrow> bool" where
  "cons_ok v pub k R_None \<longleftrightarrow> True"
| "cons_ok v pub k R_Idle \<longleftrightarrow> k \<le> length pub"
| "cons_ok v pub k R_Valid \<longleftrightarrow> k < length pub"
| "cons_ok v pub k (R_Copying dirty) \<longleftrightarrow>
     k < length pub \<and> (dirty \<longrightarrow> turn k < v (k mod ring_slots))"
| "cons_ok v pub k (R_Copied t) \<longleftrightarrow>
     k < length pub \<and> (v (k mod ring_slots) = turn k \<longrightarrow> t = pub ! k)"
| "cons_ok v pub k R_Aborted \<longleftrightarrow> k + ring_slots \<le> length pub"

definition position :: "'a spmc_threads \<Rightarrow> nat \<Rightarrow> nat" where
  "position s i = started s i + length (received s i)"

definition consumer_ok :: "'a spmc_threads \<Rightarrow> nat \<Rightarrow> bool" where
  "consumer_ok s i \<longleftrightarrow>
     (if cons s i = R_None then received s i = []
      else reader (handles s i) = of_nat (position s i) \<and> position s i \<le> length (published s) \<and>
           received s i = take (length (received s i)) (drop (started s i) (published s)) \<and>
           cons_ok (lap_version (length (published s)) (prod s)) (published s) (position s i) (cons s i))"

definition spmc_inv :: "'a spmc_threads \<Rightarrow> bool" where
  "spmc_inv s \<longleftrightarrow>
     length (published s) < 2 ^ 64 \<longrightarrow>
       mem_ok (published s) (prod s) (mem s) \<and> (\<forall>i. consumer_ok s i)"

lemma turn_le:
  assumes "k < n"
  shows "turn k \<le> lap_version n p (k mod ring_slots)"
  using assms laps_less_iff [of k n] by (simp add: turn_def lap_version_def)

lemma version_is_turn:
  assumes "lap_version n p (k mod ring_slots) = turn k"
  shows "k < n \<and> n \<le> k + ring_slots \<and> \<not> (busy p \<and> n = k + ring_slots)"
proof -
  have parity: "2 * a + 1 \<noteq> 2 * b" for a b :: nat by presburger
  have "laps (k mod ring_slots) n = Suc (k div ring_slots) \<and> \<not> (busy p \<and> k mod ring_slots = n mod ring_slots)"
  proof (cases "busy p \<and> k mod ring_slots = n mod ring_slots")
    case True
    with assms parity show ?thesis unfolding lap_version_def turn_def by metis
  next
    case False
    with assms show ?thesis by (simp add: lap_version_def turn_def split: if_split_asm)
  qed
  then show ?thesis using laps_eq_iff [of k n] by auto
qed

lemma version_above_turn:
  assumes "turn k < lap_version n p (k mod ring_slots)"
  shows "k + ring_slots \<le> n"
proof (rule ccontr)
  assume less: "\<not> k + ring_slots \<le> n"
  then have le: "laps (k mod ring_slots) n \<le> Suc (k div ring_slots)"
    using laps_greater_iff [of k n] by linarith
  then have b: "busy p" "k mod ring_slots = n mod ring_slots" and
    "laps (k mod ring_slots) n = Suc (k div ring_slots)"
    using assms by (auto simp: lap_version_def turn_def split: if_split_asm)
  then have "k < n" using laps_eq_iff [of k n] by simp
  with b(2) less show False using mod_apart [of k n ring_slots] by simp
qed

lemma version_below_turn:
  "lap_version n p (k mod ring_slots) < turn k \<Longrightarrow> n \<le> k"
  using turn_le [of k n p] by (meson not_less)

lemma cons_ok_mono:
  assumes "cons_ok v pub k c" and "\<And>j. v j \<le> v' j" and "k < length pub \<Longrightarrow> turn k \<le> v (k mod ring_slots)"
  shows "cons_ok v' (pub @ ys) k c"
proof (cases c)
  case (R_Copied t)
  with assms(1) have k: "k < length pub" by simp
  then have "v (k mod ring_slots) = turn k" if "v' (k mod ring_slots) = turn k"
    using assms(2) [of "k mod ring_slots"] assms(3) that by simp
  with R_Copied assms(1) k show ?thesis by (auto simp: nth_append)
next
  case (R_Copying dirty)
  with assms(1,2) show ?thesis by (auto intro: less_le_trans)
qed (use assms(1) in auto)

text \<open>The comparison of the two version words is the comparison of the two natural numbers.\<close>

lemma seen_wanted:
  assumes m: "mem_ok (published s) (prod s) (mem s)" and n: "length (published s) < 2 ^ 64"
    and r: "reader (handles s i) = of_nat k" and k: "k \<le> length (published s)"
  shows "unat (seen s i) = lap_version (length (published s)) (prod s) (k mod ring_slots)"
    and "unat (wanted s i) = turn k"
proof -
  have "seen s i = of_nat (lap_version (length (published s)) (prod s) (k mod ring_slots))"
    using m unfolding seen_def r slot_index_of_nat by (simp add: mem_ok_def versions_ok_def)
  then show "unat (seen s i) = lap_version (length (published s)) (prod s) (k mod ring_slots)"
    unfolding lap_version_def by (simp only: unat_version [OF n] split: if_split) simp
  show "unat (wanted s i) = turn k"
    unfolding wanted_def r turn_def using k n by (intro expected_version_of_nat) simp
qed

section \<open>Every step keeps the invariant\<close>

text \<open>A step of the producer only raises versions and extends the published list.\<close>

lemma consumer_ok_producer:
  assumes ok: "consumer_ok s i"
    and same: "cons s' i = cons s i" "handles s' i = handles s i" "started s' i = started s i"
      "received s' i = received s i"
    and ext: "published s' = published s @ ys"
    and up: "\<And>j. lap_version (length (published s)) (prod s) j \<le> lap_version (length (published s')) (prod s') j"
  shows "consumer_ok s' i"
proof (cases "cons s i = R_None")
  case True
  with ok same show ?thesis by (simp add: consumer_ok_def)
next
  case False
  have pos: "position s' i = position s i" by (simp add: position_def same)
  have "cons_ok (lap_version (length (published s')) (prod s')) (published s') (position s i) (cons s i)"
    unfolding ext using ok False up ext
    by (intro cons_ok_mono [where v = "lap_version (length (published s)) (prod s)"])
       (auto simp: consumer_ok_def intro: turn_le)
  moreover have "received s i = take (length (received s i)) (drop (started s i) (published s @ ys))"
    using ok False by (simp add: consumer_ok_def position_def)
  ultimately show ?thesis
    using ok False by (simp add: consumer_ok_def pos same ext)
qed

lemma touched_ok:
  assumes ok: "consumer_ok s i" and p: "prod s = W_Odd x w v" and w: "w = of_nat (length (published s))"
    and n: "length (published s) < 2 ^ 64"
  shows "consumer_ok (s\<lparr>mem := q, prod := W_Filling x w v, cons := touched w s\<rparr>) i"
proof -
  let ?n = "length (published s)" and ?k = "position s i"
  have v: "lap_version ?n (W_Filling x w v) = lap_version ?n (prod s)"
    unfolding p by (rule lap_version_both_busy) simp_all
  show ?thesis
  proof (cases "cons s i")
    case (R_Copying dirty)
    with ok have k: "reader (handles s i) = of_nat ?k" "?k < ?n" "dirty \<longrightarrow> turn ?k < lap_version ?n (prod s) (?k mod ring_slots)"
      by (simp_all add: consumer_ok_def)
    have "turn ?k < lap_version ?n (prod s) (?k mod ring_slots)" if "slot_index (reader (handles s i)) = slot_index w"
    proof -
      have same: "?k mod ring_slots = ?n mod ring_slots" using that by (simp add: k(1) w slot_index_of_nat)
      then have "lap_version ?n (prod s) (?k mod ring_slots) \<noteq> turn ?k"
        using version_is_turn [of ?n "prod s" ?k] mod_apart [of ?k ?n ring_slots] p k(2) by force
      then show ?thesis using turn_le [OF k(2), of "prod s"] by simp
    qed
    with R_Copying k ok show ?thesis by (auto simp: consumer_ok_def touched_def v position_def)
  qed (use ok in \<open>auto simp: consumer_ok_def touched_def v position_def\<close>)
qed

lemma connect_ok:
  assumes "mem_ok (published s) (prod s) (mem s)"
  shows "writer (mem s) = of_nat (counted s) \<and> counted s \<le> length (published s)"
  using assms by (cases "prod s") (auto simp: mem_ok_def counted_def)

text \<open>The steps of one consumer, which leave the shared part and the other consumers alone.\<close>

lemma consumer_ok_other:
  "j \<noteq> i \<Longrightarrow> consumer_ok (s\<lparr>cons := (cons s)(i := c)\<rparr>) j = consumer_ok s j"
  by (simp add: consumer_ok_def position_def)

lemma consumer_ok_state:
  assumes "consumer_ok s i" and "cons s i \<noteq> R_None" and "c \<noteq> R_None"
    and "cons_ok (lap_version (length (published s)) (prod s)) (published s) (position s i) c"
  shows "consumer_ok (s\<lparr>cons := (cons s)(i := c)\<rparr>) i"
  using assms by (simp add: consumer_ok_def position_def)

lemma spmc_inv_cons:
  assumes inv: "spmc_inv s" and i: "cons s i \<noteq> R_None" "c \<noteq> R_None"
    and c: "length (published s) < 2 ^ 64 \<Longrightarrow> mem_ok (published s) (prod s) (mem s) \<Longrightarrow> consumer_ok s i \<Longrightarrow>
      cons_ok (lap_version (length (published s)) (prod s)) (published s) (position s i) c"
  shows "spmc_inv (s\<lparr>cons := (cons s)(i := c)\<rparr>)"
  unfolding spmc_inv_def
proof (intro impI conjI allI)
  assume "length (published (s\<lparr>cons := (cons s)(i := c)\<rparr>)) < 2 ^ 64"
  then have n: "length (published s) < 2 ^ 64" by simp
  with inv have m: "mem_ok (published s) (prod s) (mem s)" and k: "\<And>j. consumer_ok s j"
    by (simp_all add: spmc_inv_def)
  from m show "mem_ok (published (s\<lparr>cons := (cons s)(i := c)\<rparr>)) (prod (s\<lparr>cons := (cons s)(i := c)\<rparr>))
      (mem (s\<lparr>cons := (cons s)(i := c)\<rparr>))" by simp
  show "consumer_ok (s\<lparr>cons := (cons s)(i := c)\<rparr>) j" for j
  proof (cases "j = i")
    case True
    show ?thesis unfolding True by (rule consumer_ok_state [OF k i c [OF n m k]])
  next
    case False
    with k show ?thesis by (simp add: consumer_ok_other)
  qed
qed

lemma spmc_inv_prod:
  assumes inv: "spmc_inv s"
    and m: "mem_ok (published s) (prod s) (mem s) \<Longrightarrow> mem_ok (published s @ ys) p q"
    and up: "\<And>j. lap_version (length (published s)) (prod s) j \<le> lap_version (length (published s @ ys)) p j"
  shows "spmc_inv (s\<lparr>mem := q, prod := p, published := published s @ ys\<rparr>)"
  unfolding spmc_inv_def
proof (intro impI conjI allI)
  let ?s = "s\<lparr>mem := q, prod := p, published := published s @ ys\<rparr>"
  assume "length (published ?s) < 2 ^ 64"
  then have n: "length (published s) < 2 ^ 64" by simp
  with inv m show "mem_ok (published ?s) (prod ?s) (mem ?s)" by (simp add: spmc_inv_def)
  show "consumer_ok ?s i" for i
    using inv n up by (intro consumer_ok_producer [of s i ?s ys]) (auto simp: spmc_inv_def)
qed

lemma lap_version_publish:
  "lap_version n (W_Filled x w v) j \<le> lap_version (Suc n) (W_Published w') j"
proof (cases "j < ring_slots")
  case True
  then show ?thesis by (simp add: lap_version_def laps_Suc)
next
  case False
  have "n mod ring_slots < ring_slots" and "Suc n mod ring_slots < ring_slots" by simp_all
  with False have "\<not> j < n mod ring_slots" "\<not> j < Suc n mod ring_slots" "j \<noteq> n mod ring_slots"
    by linarith+
  then show ?thesis by (simp add: lap_version_def laps_def div_le_mono)
qed

lemma lap_version_up: "\<not> busy p \<Longrightarrow> lap_version n p j \<le> lap_version n p' j"
  by (simp add: lap_version_def)

lemma lap_version_same: "busy p = busy p' \<Longrightarrow> lap_version n p j \<le> lap_version n p' j"
  by (simp add: lap_version_def)

lemma spmc_inv_step_prod:
  assumes inv: "spmc_inv s" and p: "prod s = p0"
    and m: "mem_ok (published s) p0 (mem s) \<Longrightarrow> mem_ok (published s) p q"
    and up: "\<not> busy p0 \<or> busy p0 = busy p"
  shows "spmc_inv (s\<lparr>mem := q, prod := p\<rparr>)"
proof -
  have "spmc_inv (s\<lparr>mem := q, prod := p, published := published s @ []\<rparr>)"
    using m up p by (intro spmc_inv_prod [OF inv]) (auto intro: lap_version_up lap_version_same)
  moreover have "s\<lparr>mem := q, prod := p, published := published s @ []\<rparr> = s\<lparr>mem := q, prod := p\<rparr>"
    by simp
  ultimately show ?thesis by metis
qed

lemma spmc_inv_load_prod:
  assumes inv: "spmc_inv s" and p: "prod s = p0" and nb: "\<not> busy p0"
    and m: "mem_ok (published s) p0 (mem s) \<Longrightarrow> mem_ok (published s) p (mem s)"
  shows "spmc_inv (s\<lparr>prod := p\<rparr>)"
  using spmc_inv_step_prod [OF inv p m] nb by simp

lemma spmc_inv_fill_begin:
  assumes inv: "spmc_inv s" and p: "prod s = W_Odd x w v"
  shows "spmc_inv (s\<lparr>mem := set_data w torn (mem s), prod := W_Filling x w v, cons := touched w s\<rparr>)"
  unfolding spmc_inv_def
proof (intro impI conjI allI)
  let ?s = "s\<lparr>mem := set_data w torn (mem s), prod := W_Filling x w v, cons := touched w s\<rparr>"
  assume "length (published ?s) < 2 ^ 64"
  then have n: "length (published s) < 2 ^ 64" by simp
  with inv p have m: "mem_ok (published s) (W_Odd x w v) (mem s)" by (simp add: spmc_inv_def)
  from mem_ok_fill_begin [OF m] show "mem_ok (published ?s) (prod ?s) (mem ?s)" by simp
  from m have w: "w = of_nat (length (published s))" by (simp add: mem_ok_def)
  show "consumer_ok ?s i" for i
    using inv n by (intro touched_ok [OF _ p w n]) (simp add: spmc_inv_def)
qed

lemma spmc_inv_connect:
  assumes inv: "spmc_inv s" and i: "cons s i = R_None"
  shows "spmc_inv (s\<lparr>cons := (cons s)(i := R_Idle), handles := (handles s)(i := make_consumer (mem s)),
                   started := (started s)(i := counted s)\<rparr>)" (is "spmc_inv ?s")
  unfolding spmc_inv_def
proof (intro impI conjI allI)
  assume "length (published ?s) < 2 ^ 64"
  with inv have m: "mem_ok (published s) (prod s) (mem s)" and k: "\<And>j. consumer_ok s j"
    by (simp_all add: spmc_inv_def)
  from m show "mem_ok (published ?s) (prod ?s) (mem ?s)" by simp
  show "consumer_ok ?s j" for j
  proof (cases "j = i")
    case True
    have "received s i = []" using k [of i] i by (simp add: consumer_ok_def)
    with True connect_ok [OF m] show ?thesis
      by (simp add: consumer_ok_def position_def make_consumer_def)
  next
    case False
    with k [of j] show ?thesis
      by (cases "cons s j = R_None") (simp_all add: consumer_ok_def position_def)
  qed
qed

lemma take_drop_snoc:
  assumes "xs = take (length xs) (drop a ys)" and "a + length xs < length ys" and "t = ys ! (a + length xs)"
  shows "xs @ [t] = take (Suc (length xs)) (drop a ys)"
  using assms by (simp add: take_Suc_conv_app_nth)

lemma spmc_inv_receive:
  assumes inv: "spmc_inv s" and i: "cons s i = R_Copied t" and eq: "seen s i = wanted s i"
  shows "spmc_inv (s\<lparr>cons := (cons s)(i := R_Idle),
                   handles := (handles s)(i := (handles s i)\<lparr>reader := reader (handles s i) + 1\<rparr>),
                   received := (received s)(i := received s i @ [t])\<rparr>)" (is "spmc_inv ?s")
  unfolding spmc_inv_def
proof (intro impI conjI allI)
  let ?k = "position s i"
  assume "length (published ?s) < 2 ^ 64"
  then have n: "length (published s) < 2 ^ 64" by simp
  with inv have m: "mem_ok (published s) (prod s) (mem s)" and k: "\<And>j. consumer_ok s j"
    by (simp_all add: spmc_inv_def)
  from m show "mem_ok (published ?s) (prod ?s) (mem ?s)" by simp
  have r: "reader (handles s i) = of_nat ?k" and less: "?k < length (published s)"
    and copy: "lap_version (length (published s)) (prod s) (?k mod ring_slots) = turn ?k \<Longrightarrow> t = published s ! ?k"
    and rec: "received s i = take (length (received s i)) (drop (started s i) (published s))"
    using k [of i] i by (simp_all add: consumer_ok_def)
  have "t = published s ! ?k"
    using seen_wanted [OF m n r] less eq by (intro copy) simp
  then have "received s i @ [t] = take (Suc (length (received s i))) (drop (started s i) (published s))"
    using less rec by (intro take_drop_snoc) (simp_all add: position_def)
  then have "consumer_ok ?s i" using less r by (simp add: consumer_ok_def position_def add.commute)
  then show "consumer_ok ?s j" for j
    using k [of j] by (cases "j = i") (auto simp: consumer_ok_def position_def)
qed

lemma spmc_inv_copy_end:
  assumes inv: "spmc_inv s" and i: "cons s i = R_Copying dirty"
    and t: "\<not> dirty \<Longrightarrow> t = data (mem s) (slot_index (reader (handles s i)))"
  shows "spmc_inv (s\<lparr>cons := (cons s)(i := R_Copied t)\<rparr>)"
proof (rule spmc_inv_cons [OF inv])
  let ?n = "length (published s)" and ?k = "position s i"
  assume m: "mem_ok (published s) (prod s) (mem s)" and c: "consumer_ok s i"
  have "t = published s ! ?k" if v: "lap_version ?n (prod s) (?k mod ring_slots) = turn ?k"
  proof -
    from c i v have "\<not> dirty" by (simp add: consumer_ok_def)
    moreover have "reader (handles s i) = of_nat ?k" using c i by (simp add: consumer_ok_def)
    moreover have "dirty_data (prod s) \<Longrightarrow> busy (prod s)" by (cases "prod s") auto
    ultimately show ?thesis
      using t m version_is_turn [OF v] by (auto simp: mem_ok_def data_ok_def slot_index_of_nat)
  qed
  then show "cons_ok (lap_version ?n (prod s)) (published s) ?k (R_Copied t)"
    using c i by (simp add: consumer_ok_def)
qed (simp_all add: i)

lemma spmc_inv_compare:
  assumes inv: "spmc_inv s" and c0: "cons s i \<noteq> R_None" "c \<noteq> R_None"
    and c: "\<And>v k n. v k = unat (seen s i) \<Longrightarrow> k = position s i \<Longrightarrow> turn k = unat (wanted s i) \<Longrightarrow>
      n = length (published s) \<Longrightarrow> v k = lap_version n (prod s) (k mod ring_slots) \<Longrightarrow> k \<le> n \<Longrightarrow>
      cons_ok (lap_version n (prod s)) (published s) k (cons s i) \<Longrightarrow>
      cons_ok (lap_version n (prod s)) (published s) k c"
  shows "spmc_inv (s\<lparr>cons := (cons s)(i := c)\<rparr>)"
proof (rule spmc_inv_cons [OF inv c0])
  assume n: "length (published s) < 2 ^ 64" and m: "mem_ok (published s) (prod s) (mem s)"
    and k: "consumer_ok s i"
  have r: "reader (handles s i) = of_nat (position s i)" "position s i \<le> length (published s)"
    using k c0 by (simp_all add: consumer_ok_def)
  note sw = seen_wanted [OF m n r]
  show "cons_ok (lap_version (length (published s)) (prod s)) (published s) (position s i) c"
    using k c0 sw r
    by (intro c [of "\<lambda>k. lap_version (length (published s)) (prod s) (k mod ring_slots)"])
       (simp_all add: consumer_ok_def)
qed

lemma spmc_inv_step:
  assumes "spmc_step s s'" and inv: "spmc_inv s"
  shows "spmc_inv s'"
  using assms(1)
proof (cases rule: spmc_step.cases)
  case (load_writer x)
  then show ?thesis using mem_ok_load_writer by (auto intro!: spmc_inv_load_prod [OF inv])
next
  case (load_version x w)
  then show ?thesis using mem_ok_load_version by (auto intro!: spmc_inv_load_prod [OF inv])
next
  case (store_odd x w v)
  then show ?thesis using mem_ok_store_odd by (auto intro!: spmc_inv_step_prod [OF inv])
next
  case (fill_begin x w v torn)
  then show ?thesis using spmc_inv_fill_begin [OF inv] by simp
next
  case (fill_end x w v)
  then show ?thesis using mem_ok_fill_end by (auto intro!: spmc_inv_step_prod [OF inv])
next
  case (store_even x w v)
  then show ?thesis
    using mem_ok_store_even by (auto intro!: spmc_inv_prod [OF inv] simp: lap_version_publish)
next
  case (store_writer w)
  then show ?thesis using mem_ok_store_writer by (auto intro!: spmc_inv_step_prod [OF inv])
next
  case (connect i)
  then show ?thesis using spmc_inv_connect [OF inv] by simp
next
  case (overrun i)
  then show ?thesis
    unfolding overrun(1)
    by (intro spmc_inv_compare [OF inv]) (auto simp: word_less_nat_alt intro: version_above_turn)
next
  case (nothing i)
  with inv show ?thesis by simp
next
  case (valid i)
  then show ?thesis
    unfolding valid(1)
    by (intro spmc_inv_compare [OF inv])
       (auto simp: word_less_nat_alt dest!: version_is_turn [OF sym])
next
  case (copy_begin i)
  show ?thesis
    unfolding copy_begin(1)
  proof (rule spmc_inv_cons [OF inv])
    assume m: "mem_ok (published s) (prod s) (mem s)" and c: "consumer_ok s i"
    from c copy_begin(2) have k: "position s i < length (published s)"
      "reader (handles s i) = of_nat (position s i)" by (simp_all add: consumer_ok_def)
    show "cons_ok (lap_version (length (published s)) (prod s)) (published s) (position s i)
      (R_Copying (filling (prod s) (slot_index (reader (handles s i)))))"
      using k m version_is_turn [of "length (published s)" "prod s" "position s i"]
        turn_le [OF k(1), of "prod s"] mod_apart [of "position s i" "length (published s)" ring_slots]
      by (cases "prod s") (auto simp: mem_ok_def slot_index_of_nat order_le_less)
  qed (simp_all add: copy_begin)
next
  case (copy_end i dirty t)
  then show ?thesis using spmc_inv_copy_end [OF inv] by simp
next
  case (overrun_while_popping i t)
  have above: "k + ring_slots \<le> n" if "lap_version n p (k mod ring_slots) \<noteq> turn k" "k < n"
    for k n and p :: "'a producer"
    using turn_le [OF that(2), of p] that(1) by (intro version_above_turn [of k n p]) simp
  then show ?thesis
    using overrun_while_popping unfolding overrun_while_popping(1)
    by (intro spmc_inv_compare [OF inv]) (auto simp: word_unat_eq_iff [of "seen s i"])
next
  case (receive i t)
  then show ?thesis using spmc_inv_receive [OF inv] by simp
qed

lemma spmc_inv_init: "spmc_inv (spmc_threads_init zero)"
  by (simp add: spmc_inv_def spmc_threads_init_def mem_ok_init consumer_ok_def)

lemma spmc_inv_reachable: "spmc_reachable zero s \<Longrightarrow> spmc_inv s"
  unfolding spmc_reachable_def
  by (induction rule: rtranclp_induct) (auto intro: spmc_inv_init spmc_inv_step)

section \<open>The steps as functions\<close>

definition spmc_producer_step :: "'a \<Rightarrow> 'a \<Rightarrow> 'a spmc_threads \<Rightarrow> 'a spmc_threads" where
  "spmc_producer_step x torn s =
     (case prod s of
        W_Idle \<Rightarrow> s\<lparr>prod := W_Loaded x (writer (mem s))\<rparr>
      | W_Loaded y w \<Rightarrow> s\<lparr>prod := W_Version y w (version (mem s) (slot_index w))\<rparr>
      | W_Version y w v \<Rightarrow> s\<lparr>mem := set_version w (v + 1) (mem s), prod := W_Odd y w v\<rparr>
      | W_Odd y w v \<Rightarrow>
          s\<lparr>mem := set_data w torn (mem s), prod := W_Filling y w v, cons := touched w s\<rparr>
      | W_Filling y w v \<Rightarrow> s\<lparr>mem := set_data w y (mem s), prod := W_Filled y w v\<rparr>
      | W_Filled y w v \<Rightarrow>
          s\<lparr>mem := set_version w (v + 2) (mem s), prod := W_Published w, published := published s @ [y]\<rparr>
      | W_Published w \<Rightarrow> s\<lparr>mem := (mem s)\<lparr>writer := w + 1\<rparr>, prod := W_Idle\<rparr>)"

definition spmc_consumer_step :: "nat \<Rightarrow> 'a \<Rightarrow> 'a spmc_threads \<Rightarrow> 'a spmc_threads" where
  "spmc_consumer_step i torn s =
     (case cons s i of
        R_None \<Rightarrow>
          s\<lparr>cons := (cons s)(i := R_Idle), handles := (handles s)(i := make_consumer (mem s)),
            started := (started s)(i := counted s)\<rparr>
      | R_Idle \<Rightarrow>
          if seen s i > wanted s i then s\<lparr>cons := (cons s)(i := R_Aborted)\<rparr>
          else if seen s i < wanted s i then s
          else s\<lparr>cons := (cons s)(i := R_Valid)\<rparr>
      | R_Valid \<Rightarrow>
          s\<lparr>cons := (cons s)(i := R_Copying (filling (prod s) (slot_index (reader (handles s i)))))\<rparr>
      | R_Copying dirty \<Rightarrow>
          s\<lparr>cons := (cons s)(i :=
             R_Copied (if dirty then torn else data (mem s) (slot_index (reader (handles s i)))))\<rparr>
      | R_Copied t \<Rightarrow>
          if seen s i \<noteq> wanted s i then s\<lparr>cons := (cons s)(i := R_Aborted)\<rparr>
          else s\<lparr>cons := (cons s)(i := R_Idle),
                 handles := (handles s)(i := (handles s i)\<lparr>reader := reader (handles s i) + 1\<rparr>),
                 received := (received s)(i := received s i @ [t])\<rparr>
      | R_Aborted \<Rightarrow> s)"

lemma spmc_producer_step_step: "spmc_step s (spmc_producer_step x torn s)"
  by (cases "prod s") (auto simp: spmc_producer_step_def intro: spmc_step.intros)

lemma spmc_consumer_step_step: "spmc_step\<^sup>*\<^sup>* s (spmc_consumer_step i torn s)"
  by (cases "cons s i")
     (auto simp: spmc_consumer_step_def intro!: r_into_rtranclp intro: spmc_step.intros)

text \<open>A schedule lists the steps: \<open>Inl x\<close> for the producer, pushing \<open>x\<close> next, \<open>Inr i\<close> for consumer \<open>i\<close>.\<close>

fun run_spmc :: "'a \<Rightarrow> ('a + nat) list \<Rightarrow> 'a spmc_threads \<Rightarrow> 'a spmc_threads" where
  "run_spmc torn [] s = s"
| "run_spmc torn (Inl x # sched) s = run_spmc torn sched (spmc_producer_step x torn s)"
| "run_spmc torn (Inr i # sched) s = run_spmc torn sched (spmc_consumer_step i torn s)"

lemma run_spmc_steps: "spmc_step\<^sup>*\<^sup>* s (run_spmc torn sched s)"
  by (induction torn sched s rule: run_spmc.induct)
     (auto intro: spmc_producer_step_step spmc_consumer_step_step converse_rtranclp_into_rtranclp
        rtranclp_trans)

text \<open>Two pushes, the consumers 0 and 1, and a third push under way.\<close>

definition spmc_busy :: "nat spmc_threads" where
  "spmc_busy =
     run_spmc 99 ([Inr 0] @ replicate 7 (Inl 5) @ [Inr 1] @ replicate 7 (Inl 6) @ replicate 4 (Inr 0) @
                  replicate 4 (Inr 1) @ replicate 5 (Inl 7)) (spmc_threads_init 0)"

lemma spmc_busy_reachable: "spmc_reachable 0 spmc_busy"
  unfolding spmc_reachable_def spmc_busy_def by (rule run_spmc_steps)

lemma spmc_busy_published: "published spmc_busy = [5, 6]"
  by code_simp

section \<open>Properties\<close>

text \<open>
  C11. The queue refines the log of all messages: a push appends to it; a consumer at position \<open>k\<close>
  pops entry \<open>k\<close> and moves on, learns at the end of the log that there is nothing, and aborts
  exactly when more than the 131072 slots have been pushed since, when entry \<open>k\<close> is overwritten.
\<close>

theorem spmc_refines_log:
  assumes "log_ok q log" and "length log + 1 < 2 ^ 64" and "consumer_at c k" and "k \<le> length log"
  shows "log_ok (push q x) (log @ [x]) \<and>
    (case pop q c of
       Inl e \<Rightarrow> k + ring_slots < length log \<and> e = Unexpected ''Consumer was overun before trying to pop.''
     | Inr (None, c') \<Rightarrow> k = length log \<and> c' = c
     | Inr (Some y, c') \<Rightarrow>
         k < length log \<and> length log \<le> k + ring_slots \<and> y = log ! k \<and> consumer_at c' (k + 1))"
proof
  show "log_ok (push q x) (log @ [x])" by (rule push_log_ok [OF assms(1,2)])
  show "case pop q c of
       Inl e \<Rightarrow> k + ring_slots < length log \<and> e = Unexpected ''Consumer was overun before trying to pop.''
     | Inr (None, c') \<Rightarrow> k = length log \<and> c' = c
     | Inr (Some y, c') \<Rightarrow>
         k < length log \<and> length log \<le> k + ring_slots \<and> y = log ! k \<and> consumer_at c' (k + 1)"
  proof (cases "k + ring_slots < length log")
    case True
    with pop_cases [OF assms(1,3,4)] show ?thesis by simp
  next
    case False
    show ?thesis
    proof (cases "k = length log")
      case True
      with pop_cases [OF assms(1,3,4)] show ?thesis by simp
    next
      case ne: False
      have "consumer_at (c\<lparr>reader := reader c + 1\<rparr>) (k + 1)"
        using assms by (auto simp: consumer_at_def add.commute)
      with ne False assms(4) pop_cases [OF assms(1,3,4)] show ?thesis by simp
    qed
  qed
qed

lemma spmc_refines_log_witness:
  "log_ok (push (push (spmc_init 0) (7 :: nat)) 8) ([7] @ [8]) \<and>
    (case pop (push (spmc_init 0) (7 :: nat)) \<lparr>reader = 0\<rparr> of
       Inl e \<Rightarrow> 0 + ring_slots < length [7 :: nat] \<and> e = Unexpected ''Consumer was overun before trying to pop.''
     | Inr (None, c') \<Rightarrow> 0 = length [7 :: nat] \<and> c' = \<lparr>reader = 0\<rparr>
     | Inr (Some y, c') \<Rightarrow>
         0 < length [7 :: nat] \<and> length [7 :: nat] \<le> 0 + ring_slots \<and> y = [7] ! 0 \<and> consumer_at c' (0 + 1))"
proof (rule spmc_refines_log)
  show "log_ok (push (spmc_init 0) (7 :: nat)) [7]"
    using push_log_ok [of "spmc_init 0" "[]" 7] by (simp add: log_ok_init)
qed (simp_all add: consumer_at_def)

text \<open>What a consumer has received, and when it cannot have aborted.\<close>

lemma spmc_consumers_in_order:
  assumes "spmc_reachable zero s" and "length (published s) < 2 ^ 64"
  shows "received s i = take (length (received s i)) (drop (started s i) (published s))"
proof -
  have "consumer_ok s i" using spmc_inv_reachable [OF assms(1)] assms(2) by (simp add: spmc_inv_def)
  then show ?thesis by (cases "cons s i = R_None") (simp_all add: consumer_ok_def)
qed

text \<open>A consumer that is less than a whole buffer behind the producer never aborts.\<close>

lemma spmc_no_spurious_abort:
  assumes "spmc_reachable zero s" and "length (published s) < 2 ^ 64"
    and "length (published s) < started s i + length (received s i) + ring_slots"
  shows "cons s i \<noteq> R_Aborted"
proof
  assume "cons s i = R_Aborted"
  moreover have "consumer_ok s i" using spmc_inv_reachable [OF assms(1)] assms(2) by (simp add: spmc_inv_def)
  ultimately show False using assms(3) by (simp add: consumer_ok_def position_def)
qed

text \<open>A thread that runs an operation without being interrupted does what the operation does at once.\<close>

lemma push_alone:
  assumes "prod s = W_Idle"
  shows "prod ((spmc_producer_step x torn ^^ 7) s) = W_Idle"
    and "mem ((spmc_producer_step x torn ^^ 7) s) = push (mem s) x"
    and "published ((spmc_producer_step x torn ^^ 7) s) = published s @ [x]"
  using assms
  by (simp_all add: eval_nat_numeral spmc_producer_step_def push_def Let_def set_version_def set_data_def)

lemma pop_alone:
  assumes "cons s i = R_Idle" and "\<not> filling (prod s) (slot_index (reader (handles s i)))"
  shows "case pop (mem s) (handles s i) of
      Inl e \<Rightarrow> cons ((spmc_consumer_step i torn ^^ 4) s) i = R_Aborted
    | Inr (None, c) \<Rightarrow> (spmc_consumer_step i torn ^^ 4) s = s \<and> c = handles s i
    | Inr (Some y, c) \<Rightarrow>
        (let s' = (spmc_consumer_step i torn ^^ 4) s in
         cons s' i = R_Idle \<and> handles s' i = c \<and> received s' i = received s i @ [y])"
proof -
  let ?v = "version (mem s) (slot_index (reader (handles s i)))"
  let ?e = "expected_version (reader (handles s i))"
  note run = eval_nat_numeral spmc_consumer_step_def pop_def Let_def seen_def wanted_def assms
  consider "?e < ?v" | "?v < ?e" | "?v = ?e" by (rule linorder_cases [of ?v ?e]) auto
  then show ?thesis
  proof cases
    case 1
    then show ?thesis by (simp add: run abort_unexpected_def)
  next
    case 2
    then have "\<not> ?e < ?v" by simp
    with 2 show ?thesis by (simp add: run)
  next
    case 3
    then show ?thesis by (simp add: run)
  qed
qed

text \<open>
  C12. The threads are faithful to the operations. In every reachable state in which the producer is between two
  calls the memory is the queue after pushing what has been published, and a consumer between two calls is at
  its place in it; and from there a call that runs without interruption does exactly what \<open>push\<close> or
  \<open>pop\<close> does at once: the value published, the value received, the empty answer and the abort.
\<close>

theorem spmc_threads_refine_operations:
  assumes "spmc_reachable zero s" and "length (published s) < 2 ^ 64" and "prod s = W_Idle" and "cons s i = R_Idle"
  shows "log_ok (mem s) (published s) \<and> consumer_at (handles s i) (started s i + length (received s i)) \<and>
    (let s' = (spmc_producer_step x torn ^^ 7) s in
       prod s' = W_Idle \<and> mem s' = push (mem s) x \<and> published s' = published s @ [x]) \<and>
    (case pop (mem s) (handles s i) of
       Inl e \<Rightarrow> cons ((spmc_consumer_step i torn ^^ 4) s) i = R_Aborted
     | Inr (None, c) \<Rightarrow> (spmc_consumer_step i torn ^^ 4) s = s \<and> c = handles s i
     | Inr (Some y, c) \<Rightarrow>
         (let s' = (spmc_consumer_step i torn ^^ 4) s in
          cons s' i = R_Idle \<and> handles s' i = c \<and> received s' i = received s i @ [y]))"
proof -
  have inv: "mem_ok (published s) (prod s) (mem s)" "consumer_ok s i"
    using spmc_inv_reachable [OF assms(1)] assms(2) by (simp_all add: spmc_inv_def)
  have "log_ok (mem s) (published s)"
    using inv(1) assms(2,3) by (simp add: mem_ok_def versions_ok_def data_ok_def lap_version_def log_ok_def)
  moreover have "consumer_at (handles s i) (started s i + length (received s i))"
    using inv(2) assms(2,4) by (simp add: consumer_ok_def position_def consumer_at_def)
  ultimately show ?thesis
    using push_alone [OF assms(3), of x torn] pop_alone [OF assms(4), of torn] assms(3) by (simp add: Let_def)
qed

text \<open>Two pushes are done and consumer 0 has received the first.\<close>

definition spmc_rest :: "nat spmc_threads" where
  "spmc_rest = run_spmc 99 ([Inr 0] @ replicate 14 (Inl 5) @ replicate 4 (Inr 0)) (spmc_threads_init 0)"

lemma spmc_threads_refine_operations_witness:
  "log_ok (mem spmc_rest) (published spmc_rest) \<and>
   received ((spmc_consumer_step 0 99 ^^ 4) spmc_rest) 0 = [5, 5]"
proof -
  have "spmc_reachable 0 spmc_rest" unfolding spmc_reachable_def spmc_rest_def by (rule run_spmc_steps)
  moreover have "published spmc_rest = [5, 5]" "prod spmc_rest = W_Idle" "cons spmc_rest 0 = R_Idle"
    by code_simp+
  moreover have "pop (mem spmc_rest) (handles spmc_rest 0) = Inr (Some 5, \<lparr>reader = 2\<rparr>)"
    and "received spmc_rest 0 = [5]"
    by code_simp+
  ultimately show ?thesis
    using spmc_threads_refine_operations [of 0 spmc_rest 0 7 99] by (simp add: Let_def)
qed

end
