(* ===== verification/Spmc_Tso.thy ===== *)
theory Spmc_Tso
  imports Spmc_Threads
begin

text \<open>
  The queue of \<open>include/spmc_queue.hpp\<close> on the processors it is written for. A store on x86 first goes
  into a buffer of its thread and reaches the memory later, in the order of the program, while the
  thread's own loads already see it. Here the producer runs ahead of the memory in this way; the
  consumers store nothing that is shared and so need no buffer. Every state the consumers can get
  into is one of the interleavings of \<open>Spmc_Threads\<close>. That the compiler keeps the order of the accesses
  is assumed, as the source does.
\<close>

section \<open>The program of \<open>push\<close>\<close>

text \<open>
  The data is written piece by piece: from \<open>St_Begin\<close> to \<open>St_End\<close> the slot holds a mixture. The value in
  \<open>St_Even\<close> is there to tell what has been published.
\<close>

datatype 'a store =
    St_Odd u64 u64
  | St_Begin u64 'a
  | St_End u64 'a
  | St_Even u64 u64 'a
  | St_Writer u64

inductive load_step :: "'a SPMCQueue \<Rightarrow> 'a producer \<Rightarrow> 'a producer \<Rightarrow> bool" where
  load_writer: "load_step q W_Idle (W_Loaded x (writer q))"
| load_version: "load_step q (W_Loaded x w) (W_Version x w (version q (slot_index w)))"

inductive store_step :: "'a producer \<Rightarrow> 'a store \<Rightarrow> 'a producer \<Rightarrow> bool" where
  store_odd: "store_step (W_Version x w v) (St_Odd w (v + 1)) (W_Odd x w v)"
| fill_begin: "store_step (W_Odd x w v) (St_Begin w torn) (W_Filling x w v)"
| fill_end: "store_step (W_Filling x w v) (St_End w x) (W_Filled x w v)"
| store_even: "store_step (W_Filled x w v) (St_Even w (v + 2) x) (W_Published w)"
| store_writer: "store_step (W_Published w) (St_Writer (w + 1)) W_Idle"

section \<open>The machine\<close>

text \<open>
  \<open>prod\<close> is how far the program has come, \<open>buffer\<close> what it has stored and the memory does not hold
  yet. \<open>mixed\<close> is the slot whose data is partly written, \<open>opened\<close> the number of values whose \<open>writer\<close> is
  in the memory.
\<close>

record 'a spmc_tso = "'a spmc_threads" +
  buffer :: "'a store list"
  mixed :: "nat option"
  opened :: nat

fun commit :: "'a store \<Rightarrow> 'a SPMCQueue \<Rightarrow> 'a SPMCQueue" where
  "commit (St_Odd w v) q = set_version w v q"
| "commit (St_Begin w x) q = set_data w x q"
| "commit (St_End w x) q = set_data w x q"
| "commit (St_Even w v x) q = set_version w v q"
| "commit (St_Writer w) q = q\<lparr>writer := w\<rparr>"

text \<open>What the producer's own loads see: the newest store in its buffer, else the memory.\<close>

definition own_view :: "'a spmc_tso \<Rightarrow> 'a SPMCQueue" where
  "own_view s = fold commit (buffer s) (mem s)"

text \<open>A store reaches the memory.\<close>

fun drain :: "'a store \<Rightarrow> 'a spmc_tso \<Rightarrow> 'a spmc_tso" where
  "drain (St_Odd w v) s = s\<lparr>mem := commit (St_Odd w v) (mem s)\<rparr>"
| "drain (St_Begin w x) s =
     s\<lparr>mem := commit (St_Begin w x) (mem s), cons := touched w s, mixed := Some (slot_index w)\<rparr>"
| "drain (St_End w x) s = s\<lparr>mem := commit (St_End w x) (mem s), mixed := None\<rparr>"
| "drain (St_Even w v x) s = s\<lparr>mem := commit (St_Even w v x) (mem s), published := published s @ [x]\<rparr>"
| "drain (St_Writer w) s = s\<lparr>mem := commit (St_Writer w) (mem s), opened := length (published s)\<rparr>"

definition spmc_tso_init :: "'a \<Rightarrow> 'a spmc_tso" where
  "spmc_tso_init zero =
     \<lparr>mem = spmc_init zero, prod = W_Idle, cons = (\<lambda>_. R_None), handles = (\<lambda>_. \<lparr>reader = 0\<rparr>),
      published = [], started = (\<lambda>_. 0), received = (\<lambda>_. []), buffer = [], mixed = None, opened = 0\<rparr>"

inductive tso_step :: "'a spmc_tso \<Rightarrow> 'a spmc_tso \<Rightarrow> bool" where
  load: "load_step (own_view s) (prod s) p \<Longrightarrow> tso_step s (s\<lparr>prod := p\<rparr>)"
| store: "store_step (prod s) st p \<Longrightarrow> tso_step s (s\<lparr>prod := p, buffer := buffer s @ [st]\<rparr>)"
| drain: "buffer s = st # b \<Longrightarrow> tso_step s (drain st (s\<lparr>buffer := b\<rparr>))"
| connect: "cons s i = R_None \<Longrightarrow>
    tso_step s (s\<lparr>cons := (cons s)(i := R_Idle), handles := (handles s)(i := make_consumer (mem s)),
                  started := (started s)(i := opened s)\<rparr>)"
| overrun: "cons s i = R_Idle \<Longrightarrow> seen s i > wanted s i \<Longrightarrow>
    tso_step s (s\<lparr>cons := (cons s)(i := R_Aborted)\<rparr>)"
| nothing: "cons s i = R_Idle \<Longrightarrow> seen s i < wanted s i \<Longrightarrow> tso_step s s"
| valid: "cons s i = R_Idle \<Longrightarrow> \<not> seen s i > wanted s i \<Longrightarrow> \<not> seen s i < wanted s i \<Longrightarrow>
    tso_step s (s\<lparr>cons := (cons s)(i := R_Valid)\<rparr>)"
| copy_begin: "cons s i = R_Valid \<Longrightarrow>
    tso_step s (s\<lparr>cons := (cons s)(i := R_Copying (mixed s = Some (slot_index (reader (handles s i)))))\<rparr>)"
| copy_end: "cons s i = R_Copying dirty \<Longrightarrow>
    (\<not> dirty \<Longrightarrow> t = data (mem s) (slot_index (reader (handles s i)))) \<Longrightarrow>
    tso_step s (s\<lparr>cons := (cons s)(i := R_Copied t)\<rparr>)"
| overrun_while_popping: "cons s i = R_Copied t \<Longrightarrow> seen s i \<noteq> wanted s i \<Longrightarrow>
    tso_step s (s\<lparr>cons := (cons s)(i := R_Aborted)\<rparr>)"
| receive: "cons s i = R_Copied t \<Longrightarrow> seen s i = wanted s i \<Longrightarrow>
    tso_step s (s\<lparr>cons := (cons s)(i := R_Idle),
                  handles := (handles s)(i := (handles s i)\<lparr>reader := reader (handles s i) + 1\<rparr>),
                  received := (received s)(i := received s i @ [t])\<rparr>)"

definition tso_reachable :: "'a \<Rightarrow> 'a spmc_tso \<Rightarrow> bool" where
  "tso_reachable zero s = tso_step\<^sup>*\<^sup>* (spmc_tso_init zero) s"

section \<open>A producer that runs ahead\<close>

text \<open>
  \<open>runs_ahead q p b p'\<close>: from the position \<open>p\<close> and the memory \<open>q\<close> the producer, alone, can get to \<open>p'\<close>
  with the stores \<open>b\<close>.
\<close>

inductive runs_ahead :: "'a SPMCQueue \<Rightarrow> 'a producer \<Rightarrow> 'a store list \<Rightarrow> 'a producer \<Rightarrow> bool" where
  ahead_refl: "runs_ahead q p [] p"
| ahead_load: "runs_ahead q p b p1 \<Longrightarrow> load_step (fold commit b q) p1 p2 \<Longrightarrow> runs_ahead q p b p2"
| ahead_store: "runs_ahead q p b p1 \<Longrightarrow> store_step p1 st p2 \<Longrightarrow> runs_ahead q p (b @ [st]) p2"

text \<open>The oldest of the stores can be taken first.\<close>

lemma runs_ahead_Cons:
  "runs_ahead q p b0 p' \<Longrightarrow> b0 = st # b \<Longrightarrow>
    \<exists>p1 p2. runs_ahead q p [] p1 \<and> store_step p1 st p2 \<and> runs_ahead (commit st q) p2 b p'"
proof (induction arbitrary: b rule: runs_ahead.induct)
  case (ahead_load q p b0 p1 p2)
  then show ?case by (fastforce intro: runs_ahead.ahead_load)
next
  case (ahead_store q p b0 p1 st' p2)
  show ?case
  proof (cases b0)
    case Nil
    with ahead_store show ?thesis by (auto intro: runs_ahead.ahead_refl)
  next
    case (Cons st0 b1)
    with ahead_store.prems have "b0 = st # b1" "b = b1 @ [st']" by auto
    with ahead_store.IH [of b1] ahead_store.hyps(2) show ?thesis by (blast intro: runs_ahead.ahead_store)
  qed
qed simp

text \<open>The same steps in the interleaving machine.\<close>

lemma loads_in_interleaving:
  "runs_ahead q p b p' \<Longrightarrow> b = [] \<Longrightarrow> prod s = p \<Longrightarrow> mem s = q \<Longrightarrow> spmc_step\<^sup>*\<^sup>* s (s\<lparr>prod := p'\<rparr>)"
proof (induction rule: runs_ahead.induct)
  case (ahead_load q p b p1 p2)
  have "spmc_step (s\<lparr>prod := p1\<rparr>) (s\<lparr>prod := p2\<rparr>)"
    using ahead_load.hyps(2) ahead_load.prems
      spmc_step.load_writer [of "s\<lparr>prod := p1\<rparr>"] spmc_step.load_version [of "s\<lparr>prod := p1\<rparr>"]
    by (cases rule: load_step.cases) auto
  with ahead_load.IH ahead_load.prems show ?case by (meson rtranclp.rtrancl_into_rtrancl)
qed auto

lemma load_quiet:
  "load_step q p p' \<Longrightarrow> filling p' = filling p"
  "load_step q p p' \<Longrightarrow> counted (s\<lparr>prod := p'\<rparr>) = counted (s\<lparr>prod := p\<rparr>)"
  by (erule load_step.cases, simp_all add: counted_def fun_eq_iff)+

lemma loads_quiet:
  "runs_ahead q p b p' \<Longrightarrow> b = [] \<Longrightarrow> filling p' = filling p"
  "runs_ahead q p b p' \<Longrightarrow> b = [] \<Longrightarrow> counted (s\<lparr>prod := p'\<rparr>) = counted (s\<lparr>prod := p\<rparr>)"
  by (induction rule: runs_ahead.induct) (simp_all add: load_quiet)

section \<open>Every state is an interleaving\<close>

text \<open>
  \<open>shows t s\<close>: what is outside the producer is the same in \<open>t\<close> and in the interleaving state \<open>s\<close>, whose
  producer has got as far as the memory shows, and from there to the place it is at in \<open>t\<close> makes
  the stores of the buffer.
\<close>

definition shown_by :: "'a spmc_tso \<Rightarrow> 'a spmc_threads \<Rightarrow> bool" where
  "shown_by t s \<longleftrightarrow>
     mem t = mem s \<and> cons t = cons s \<and> handles t = handles s \<and> published t = published s \<and>
     started t = started s \<and> received t = received s \<and>
     runs_ahead (mem s) (prod s) (buffer t) (prod t) \<and>
     (\<forall>j. filling (prod s) j \<longleftrightarrow> mixed t = Some j) \<and> opened t = counted s"

lemma shown_by_seen:
  "shown_by t s \<Longrightarrow> seen t i = seen s i"
  "shown_by t s \<Longrightarrow> wanted t i = wanted s i"
  "shown_by t s \<Longrightarrow> touched w t = touched w s"
  by (simp_all add: shown_by_def seen_def wanted_def touched_def fun_eq_iff split: consumer.split)

lemma shown_by_drain:
  assumes t: "shown_by t s" and b: "buffer t = st # b"
  shows "\<exists>s'. spmc_step\<^sup>*\<^sup>* s s' \<and> shown_by (drain st (t\<lparr>buffer := b\<rparr>)) s'"
proof -
  obtain p1 p2 where ahead: "runs_ahead (mem s) (prod s) [] p1" "store_step p1 st p2"
    "runs_ahead (commit st (mem s)) p2 b (prod t)"
    using t runs_ahead_Cons [of "mem s" "prod s" "buffer t" "prod t" st b] b
    unfolding shown_by_def by blast
  let ?s1 = "s\<lparr>prod := p1\<rparr>"
  have loads: "spmc_step\<^sup>*\<^sup>* s ?s1" by (rule loads_in_interleaving [OF ahead(1)]) simp_all
  have s1: "\<forall>j. filling p1 j \<longleftrightarrow> mixed t = Some j" "opened t = counted ?s1"
    using t loads_quiet(1) [OF ahead(1) refl] loads_quiet(2) [OF ahead(1) refl, of s]
    by (simp_all add: shown_by_def)
  have same: "mem t = mem s" "cons t = cons s" "handles t = handles s" "published t = published s"
    "started t = started s" "received t = received s"
    using t by (simp_all add: shown_by_def)
  have "\<exists>s'. spmc_step ?s1 s' \<and> shown_by (drain st (t\<lparr>buffer := b\<rparr>)) s'"
    using ahead(2)
  proof cases
    case (store_odd x w v)
    then show ?thesis using s1 same ahead(3) spmc_step.store_odd [of ?s1 x w v]
      by (intro exI conjI) (auto simp: shown_by_def counted_def)
  next
    case (fill_begin x w v torn)
    then show ?thesis using s1 same ahead(3) spmc_step.fill_begin [of ?s1 x w v torn]
      by (intro exI conjI) (auto simp: shown_by_def counted_def touched_def fun_eq_iff split: consumer.splits)
  next
    case (fill_end x w v)
    then show ?thesis using s1 same ahead(3) spmc_step.fill_end [of ?s1 x w v]
      by (intro exI conjI) (auto simp: shown_by_def counted_def)
  next
    case (store_even x w v)
    then show ?thesis using s1 same ahead(3) spmc_step.store_even [of ?s1 x w v]
      by (intro exI conjI) (auto simp: shown_by_def counted_def)
  next
    case (store_writer w)
    then show ?thesis using s1 same ahead(3) spmc_step.store_writer [of ?s1 w]
      by (intro exI conjI) (auto simp: shown_by_def counted_def)
  qed
  with loads show ?thesis by (meson rtranclp.rtrancl_into_rtrancl)
qed

text \<open>What a consumer does changes nothing of the producer.\<close>

lemma shown_by_consumer:
  fixes s :: "'a spmc_threads"
  assumes "shown_by t s"
  shows "shown_by (t\<lparr>cons := c\<rparr>) (s\<lparr>cons := c\<rparr>)"
    and "shown_by (t\<lparr>cons := c, handles := h, started := st\<rparr>) (s\<lparr>cons := c, handles := h, started := st\<rparr>)"
    and "shown_by (t\<lparr>cons := c, handles := h, received := r\<rparr>) (s\<lparr>cons := c, handles := h, received := r\<rparr>)"
  using assms by (simp_all add: shown_by_def counted_def split: producer.split)

lemma shown_by_step:
  assumes "tso_step t t'" and t: "shown_by t s"
  shows "\<exists>s'. spmc_step\<^sup>*\<^sup>* s s' \<and> shown_by t' s'"
proof -
  have same: "mem t = mem s" "cons t = cons s" "handles t = handles s" "started t = started s"
    "received t = received s" "opened t = counted s" "mixed t = Some j \<longleftrightarrow> filling (prod s) j" for j
    using t by (simp_all add: shown_by_def)
  note one = r_into_rtranclp [of spmc_step]
  note consumer = shown_by_consumer [OF t]
  show ?thesis
    using assms(1)
  proof cases
    case (load p)
    with t have "shown_by t' s" by (auto simp: shown_by_def own_view_def intro: ahead_load)
    then show ?thesis by blast
  next
    case (store st p)
    with t have "shown_by t' s" by (auto simp: shown_by_def intro: ahead_store)
    then show ?thesis by blast
  next
    case (drain st b)
    with shown_by_drain [OF t] show ?thesis by simp
  next
    case (connect i)
    with spmc_step.connect [of s i] show ?thesis by (auto simp: same intro!: exI conjI one consumer)
  next
    case (overrun i)
    with spmc_step.overrun [of s i] show ?thesis
      by (auto simp: same shown_by_seen [OF t] intro!: exI conjI one consumer)
  next
    case (nothing i)
    with t show ?thesis by blast
  next
    case (valid i)
    with spmc_step.valid [of s i] show ?thesis
      by (auto simp: same shown_by_seen [OF t] intro!: exI conjI one consumer)
  next
    case (copy_begin i)
    with spmc_step.copy_begin [of s i] show ?thesis by (auto simp: same intro!: exI conjI one consumer)
  next
    case (copy_end i dirty x)
    with spmc_step.copy_end [of s i dirty x] show ?thesis by (auto simp: same intro!: exI conjI one consumer)
  next
    case (overrun_while_popping i x)
    with spmc_step.overrun_while_popping [of s i x] show ?thesis
      by (auto simp: same shown_by_seen [OF t] intro!: exI conjI one consumer)
  next
    case (receive i x)
    with spmc_step.receive [of s i x] show ?thesis
      by (auto simp: same shown_by_seen [OF t] intro!: exI conjI one consumer)
  qed
qed

lemma shown_by_init: "shown_by (spmc_tso_init zero) (spmc_threads_init zero)"
  by (simp add: shown_by_def spmc_tso_init_def spmc_threads_init_def counted_def ahead_refl)

lemma tso_is_interleaving:
  assumes "tso_reachable zero t"
  shows "\<exists>s. spmc_reachable zero s \<and> shown_by t s"
  using assms unfolding tso_reachable_def spmc_reachable_def
proof (induction rule: rtranclp_induct)
  case base
  show ?case by (rule exI [of _ "spmc_threads_init zero"]) (simp add: shown_by_init)
next
  case (step t t')
  from step.IH obtain s where s: "spmc_step\<^sup>*\<^sup>* (spmc_threads_init zero) s" "shown_by t s" by blast
  from shown_by_step [OF step.hyps(2) s(2)] obtain s' where "spmc_step\<^sup>*\<^sup>* s s'" "shown_by t' s'" by blast
  with rtranclp_trans [OF s(1)] show ?case by (intro exI [of _ s'] conjI)
qed

section \<open>The steps as functions\<close>

text \<open>One instruction of the producer: \<open>x\<close> is the value of the next push, \<open>torn\<close> the mixture while it is written.\<close>

definition tso_instruction :: "'a \<Rightarrow> 'a \<Rightarrow> 'a spmc_tso \<Rightarrow> 'a spmc_tso" where
  "tso_instruction x torn s =
     (let put = (\<lambda>st p. s\<lparr>prod := p, buffer := buffer s @ [st]\<rparr>) in
      case prod s of
        W_Idle \<Rightarrow> s\<lparr>prod := W_Loaded x (writer (own_view s))\<rparr>
      | W_Loaded y w \<Rightarrow> s\<lparr>prod := W_Version y w (version (own_view s) (slot_index w))\<rparr>
      | W_Version y w v \<Rightarrow> put (St_Odd w (v + 1)) (W_Odd y w v)
      | W_Odd y w v \<Rightarrow> put (St_Begin w torn) (W_Filling y w v)
      | W_Filling y w v \<Rightarrow> put (St_End w y) (W_Filled y w v)
      | W_Filled y w v \<Rightarrow> put (St_Even w (v + 2) y) (W_Published w)
      | W_Published w \<Rightarrow> put (St_Writer (w + 1)) W_Idle)"

definition tso_drain :: "'a spmc_tso \<Rightarrow> 'a spmc_tso" where
  "tso_drain s = (case buffer s of [] \<Rightarrow> s | st # b \<Rightarrow> drain st (s\<lparr>buffer := b\<rparr>))"

lemma tso_instruction_step: "tso_step s (tso_instruction x torn s)"
proof (cases "prod s")
  case W_Idle
  with tso_step.load [of s "W_Loaded x (writer (own_view s))"] show ?thesis
    by (simp add: tso_instruction_def load_step.intros)
next
  case (W_Loaded y w)
  with tso_step.load [of s "W_Version y w (version (own_view s) (slot_index w))"] show ?thesis
    by (simp add: tso_instruction_def load_step.intros)
qed (simp_all add: tso_instruction_def tso_step.store store_step.intros)

lemma tso_drain_step: "tso_step\<^sup>*\<^sup>* s (tso_drain s)"
  using tso_step.drain [of s] by (auto simp: tso_drain_def split: list.split)

definition tso_consumer_step :: "nat \<Rightarrow> 'a \<Rightarrow> 'a spmc_tso \<Rightarrow> 'a spmc_tso" where
  "tso_consumer_step i torn s =
     (case cons s i of
        R_None \<Rightarrow>
          s\<lparr>cons := (cons s)(i := R_Idle), handles := (handles s)(i := make_consumer (mem s)),
            started := (started s)(i := opened s)\<rparr>
      | R_Idle \<Rightarrow>
          if seen s i > wanted s i then s\<lparr>cons := (cons s)(i := R_Aborted)\<rparr>
          else if seen s i < wanted s i then s
          else s\<lparr>cons := (cons s)(i := R_Valid)\<rparr>
      | R_Valid \<Rightarrow>
          s\<lparr>cons := (cons s)(i := R_Copying (mixed s = Some (slot_index (reader (handles s i)))))\<rparr>
      | R_Copying dirty \<Rightarrow>
          s\<lparr>cons := (cons s)(i :=
             R_Copied (if dirty then torn else data (mem s) (slot_index (reader (handles s i)))))\<rparr>
      | R_Copied t \<Rightarrow>
          if seen s i \<noteq> wanted s i then s\<lparr>cons := (cons s)(i := R_Aborted)\<rparr>
          else s\<lparr>cons := (cons s)(i := R_Idle),
                 handles := (handles s)(i := (handles s i)\<lparr>reader := reader (handles s i) + 1\<rparr>),
                 received := (received s)(i := received s i @ [t])\<rparr>
      | R_Aborted \<Rightarrow> s)"

lemma tso_consumer_step_step: "tso_step\<^sup>*\<^sup>* s (tso_consumer_step i torn s)"
  by (cases "cons s i")
     (auto simp: tso_consumer_step_def intro!: r_into_rtranclp intro: tso_step.intros)

datatype 'a tso_event =
    Instruct 'a
  | Drain
  | Consume nat

fun run_tso :: "'a \<Rightarrow> 'a tso_event list \<Rightarrow> 'a spmc_tso \<Rightarrow> 'a spmc_tso" where
  "run_tso torn [] s = s"
| "run_tso torn (Instruct x # es) s = run_tso torn es (tso_instruction x torn s)"
| "run_tso torn (Drain # es) s = run_tso torn es (tso_drain s)"
| "run_tso torn (Consume i # es) s = run_tso torn es (tso_consumer_step i torn s)"

lemma run_tso_steps: "tso_step\<^sup>*\<^sup>* s (run_tso torn es s)"
  by (induction torn es s rule: run_tso.induct)
     (auto intro: tso_instruction_step tso_drain_step tso_consumer_step_step
        converse_rtranclp_into_rtranclp rtranclp_trans)

text \<open>Two pushes are in the buffer, the first has reached the memory, and consumer 0 has received it.\<close>

definition tso_busy :: "nat spmc_tso" where
  "tso_busy =
     run_tso 99 ([Consume 0] @ replicate 14 (Instruct 5) @ replicate 7 Drain @ replicate 4 (Consume 0))
       (spmc_tso_init 0)"

lemma tso_busy_reachable: "tso_reachable 0 tso_busy"
  unfolding tso_reachable_def tso_busy_def by (rule run_tso_steps)

lemma tso_busy_state: "published tso_busy = [5]" "received tso_busy 0 = [5]" "length (buffer tso_busy) = 3"
  by code_simp+

section \<open>Properties\<close>

text \<open>
  C7. The queue is safe on x86, whose stores reach the memory late. However far the producer runs ahead of
  its stores, each consumer receives exactly the values published in the memory since it was made, in
  order, none skipped, none twice and none torn, and aborts only if it is a whole buffer behind; this for
  runs of fewer than \<open>2 ^ 64\<close> pushes.
\<close>

theorem spmc_tso_safe:
  assumes "tso_reachable zero t" and "length (published t) < 2 ^ 64"
  shows "received t i = take (length (received t i)) (drop (started t i) (published t)) \<and>
    (cons t i = R_Aborted \<longrightarrow> started t i + length (received t i) + ring_slots \<le> length (published t))"
proof -
  obtain s where s: "spmc_reachable zero s" "shown_by t s" using tso_is_interleaving [OF assms(1)] by blast
  then have same: "published t = published s" "received t = received s" "started t = started s" "cons t = cons s"
    by (simp_all add: shown_by_def)
  show ?thesis
    using spmc_consumers_in_order [OF s(1)] spmc_no_spurious_abort [OF s(1), of i] assms(2)
    unfolding same by (meson not_less)
qed

lemma spmc_tso_safe_witness:
  "received tso_busy 0 = take 1 (drop (started tso_busy 0) (published tso_busy)) \<and> cons tso_busy 0 \<noteq> R_Aborted"
  using spmc_tso_safe [OF tso_busy_reachable, of 0] by (auto simp: tso_busy_state ring_slots_def)

end
