(* ===== verification/Handler.thy ===== *)
theory Handler
  imports Parser_Correct Book_Correct Spmc
begin

text \<open>
  \<open>include/handler.hpp\<close>: the production handler. It keeps a book for every subscribed instrument,
  applies the order messages to it and pushes every change of a best level, with the time the
  message arrived, to the instrument's broadcast queue.
\<close>

section \<open>Messages to the strategies\<close>

record BookUpdateMsg =
  t0 :: u64
  qty :: u64
  price :: u32
  side :: Side

text \<open>The tag \<open>StrategyMsgType\<close> and the union it selects from.\<close>

datatype StrategyMsg = BookUpdate BookUpdateMsg | Stop

section \<open>The state\<close>

text \<open>
  Pointers to books are indices into \<open>books\<close> (which only grows), pointers to queues are indices
  into \<open>queues\<close>, the queues the caller owns; \<open>None\<close> is the null pointer. \<open>clock\<close> counts the
  readings taken of the time stamp counter.
\<close>

record InstrumentConfig =
  symbol :: string
  queue :: "nat option"

record 'm Handler =
  t0 :: u64
  last_message :: bool
  record_prices :: bool
  max_orders :: u64
  instruments :: "string \<rightharpoonup> InstrumentConfig"
  books :: "'m split_book list"
  locate_to_book :: "u16 \<Rightarrow> nat option"
  locate_to_queue :: "u16 \<Rightarrow> nat option"
  queues :: "nat \<Rightarrow> StrategyMsg SPMCQueue"
  clock :: nat

definition pad_symbol :: "string \<Rightarrow> string" where
  "pad_symbol str = take (min (length str) 8) str @ replicate (8 - min (length str) 8) (CHR '' '')"

text \<open>\<open>emplace\<close> does not replace an entry: of two instruments with one symbol the first stays.\<close>

definition emplace_instrument ::
    "(string \<rightharpoonup> InstrumentConfig) \<Rightarrow> InstrumentConfig \<Rightarrow> (string \<rightharpoonup> InstrumentConfig)" where
  "emplace_instrument m cfg =
     (let key = pad_symbol (symbol cfg) in if m key = None then m(key \<mapsto> cfg) else m)"

definition handler_init ::
    "InstrumentConfig list \<Rightarrow> (nat \<Rightarrow> StrategyMsg SPMCQueue) \<Rightarrow> 'm Handler" where
  "handler_init cfgs qs =
     \<lparr>Handler.t0 = 0, last_message = False, record_prices = False, max_orders = 0,
      instruments = foldl emplace_instrument Map.empty cfgs, books = [],
      locate_to_book = (\<lambda>_. None), locate_to_queue = (\<lambda>_. None), queues = qs, clock = 0\<rparr>"

definition should_stop :: "'m Handler \<Rightarrow> bool" where
  "should_stop h = last_message h"

section \<open>The operations\<close>

text \<open>The readings of \<open>__rdtscp\<close> are a parameter, one value per reading.\<close>

definition handle_before_msg :: "(nat \<Rightarrow> u64) \<Rightarrow> 'm Handler \<Rightarrow> 'm Handler" where
  "handle_before_msg rdtscp h = h\<lparr>Handler.t0 := rdtscp (clock h), clock := clock h + 1\<rparr>"

definition queue_push :: "nat option \<Rightarrow> StrategyMsg \<Rightarrow> 'm Handler \<Rightarrow> 'm Handler result" where
  "queue_push p m h =
     (case p of
        None \<Rightarrow> Inl Null_Deref
      | Some i \<Rightarrow> Inr (h\<lparr>queues := (queues h)(i := push (queues h i) m)\<rparr>))"

definition handle_change :: "BestLvlChange \<Rightarrow> nat option \<Rightarrow> 'm Handler \<Rightarrow> 'm Handler result" where
  "handle_change ch p h =
     (if BestLvlChange.side ch = Side_None then Inr h
      else queue_push p
        (BookUpdate \<lparr>BookUpdateMsg.t0 = Handler.t0 h, qty = BestLvlChange.qty ch,
           price = BestLvlChange.price ch, side = BestLvlChange.side ch\<rparr>) h)"

definition get_book_queue :: "'m Handler \<Rightarrow> u16 \<Rightarrow> nat option \<times> nat option" where
  "get_book_queue h l = (locate_to_book h l, locate_to_queue h l)"

text \<open>The common shape of the order messages: nothing without a book, else the operation and its report.\<close>

definition book_message ::
    "u16 \<Rightarrow> ('m split_book \<Rightarrow> (BestLvlChange \<times> 'm split_book) result) \<Rightarrow>
       ('m split_book \<Rightarrow> 'm Handler \<Rightarrow> 'm Handler) \<Rightarrow> 'm Handler \<Rightarrow> 'm Handler result" where
  "book_message l operation after h =
     (case get_book_queue h l of
        (None, p) \<Rightarrow> Inr h
      | (Some b, p) \<Rightarrow>
          rbind (operation (books h ! b)) (\<lambda>(change, book).
            handle_change change p (after book (h\<lparr>books := (books h)[b := book]\<rparr>))))"

definition no_more :: "'m split_book \<Rightarrow> 'm Handler \<Rightarrow> 'm Handler" where
  "no_more book h = h"

definition update_max ::
    "(u64, Order, 'm) flat_hash_map \<Rightarrow> 'm split_book \<Rightarrow> 'm Handler \<Rightarrow> 'm Handler" where
  "update_max H book h =
     h\<lparr>max_orders := max (max_orders h) (of_nat (hm_size H (orders_map book)))\<rparr>"

definition all_locates :: "u16 list" where
  "all_locates = map of_nat [0..<65536]"

definition stop_all :: "'m Handler \<Rightarrow> 'm Handler result" where
  "stop_all h =
     foldl (\<lambda>r l. rbind r (\<lambda>h'.
         if locate_to_queue h l \<noteq> None then queue_push (locate_to_queue h l) Stop h' else Inr h'))
       (Inr h) all_locates"

definition handle_SystemEvent :: "SystemEvent \<Rightarrow> 'm Handler \<Rightarrow> 'm Handler result" where
  "handle_SystemEvent msg h =
     (if event_code msg = CHR ''C'' then stop_all (h\<lparr>last_message := True\<rparr>)
      else if event_code msg = CHR ''Q'' then Inr (h\<lparr>record_prices := True\<rparr>)
      else if event_code msg = CHR ''M'' then Inr (h\<lparr>record_prices := False\<rparr>)
      else Inr h)"

definition handle_StockDirectory ::
    "(u64, Order, 'm) flat_hash_map \<Rightarrow> StockDirectory \<Rightarrow> 'm Handler \<Rightarrow> 'm Handler result" where
  "handle_StockDirectory H msg h =
     (let str = StockDirectory.stock msg;
          l = StockDirectory.stock_locate msg
      in case instruments h str of
           None \<Rightarrow> Inr h
         | Some cfg \<Rightarrow>
             if locate_to_book h l \<noteq> None then Inr h
             else
               let h1 = h\<lparr>books := books h @ [book_init split_ops H]\<rparr>
               in Inr (h1\<lparr>locate_to_book := (locate_to_book h1)(l \<mapsto> length (books h1) - 1),
                          locate_to_queue := (locate_to_queue h1)(l := queue cfg)\<rparr>))"

definition handle_AddOrderNoMpid ::
    "(u64, Order, 'm) flat_hash_map \<Rightarrow> AddOrderNoMpid \<Rightarrow> 'm Handler \<Rightarrow> 'm Handler result" where
  "handle_AddOrderNoMpid H msg =
     book_message (AddOrderNoMpid.stock_locate msg)
       (\<lambda>b. add_order split_ops H b (AddOrderNoMpid.order_reference_number msg)
          (side_of_char (AddOrderNoMpid.buy_sell msg)) (AddOrderNoMpid.shares msg) (AddOrderNoMpid.price msg))
       (update_max H)"

definition handle_AddOrderMpid ::
    "(u64, Order, 'm) flat_hash_map \<Rightarrow> AddOrderMpid \<Rightarrow> 'm Handler \<Rightarrow> 'm Handler result" where
  "handle_AddOrderMpid H msg =
     book_message (AddOrderMpid.stock_locate msg)
       (\<lambda>b. add_order split_ops H b (AddOrderMpid.order_reference_number msg)
          (side_of_char (AddOrderMpid.buy_sell msg)) (AddOrderMpid.shares msg) (AddOrderMpid.price msg))
       (update_max H)"

definition handle_OrderExecuted ::
    "(u64, Order, 'm) flat_hash_map \<Rightarrow> OrderExecuted \<Rightarrow> 'm Handler \<Rightarrow> 'm Handler result" where
  "handle_OrderExecuted H msg =
     book_message (OrderExecuted.stock_locate msg)
       (\<lambda>b. execute_order split_ops H b (OrderExecuted.order_reference_number msg)
          (OrderExecuted.executed_shares msg))
       no_more"

definition handle_OrderExecutedPrice ::
    "(u64, Order, 'm) flat_hash_map \<Rightarrow> OrderExecutedPrice \<Rightarrow> 'm Handler \<Rightarrow> 'm Handler result" where
  "handle_OrderExecutedPrice H msg =
     book_message (OrderExecutedPrice.stock_locate msg)
       (\<lambda>b. execute_order split_ops H b (OrderExecutedPrice.order_reference_number msg)
          (OrderExecutedPrice.executed_shares msg))
       no_more"

definition handle_OrderCancel ::
    "(u64, Order, 'm) flat_hash_map \<Rightarrow> OrderCancel \<Rightarrow> 'm Handler \<Rightarrow> 'm Handler result" where
  "handle_OrderCancel H msg =
     book_message (OrderCancel.stock_locate msg)
       (\<lambda>b. cancel_order split_ops H b (OrderCancel.order_reference_number msg)
          (OrderCancel.cancelled_shares msg))
       no_more"

definition handle_OrderDelete ::
    "(u64, Order, 'm) flat_hash_map \<Rightarrow> OrderDelete \<Rightarrow> 'm Handler \<Rightarrow> 'm Handler result" where
  "handle_OrderDelete H msg =
     book_message (OrderDelete.stock_locate msg)
       (\<lambda>b. delete_order split_ops H b (OrderDelete.order_reference_number msg))
       no_more"

definition handle_OrderReplace ::
    "(u64, Order, 'm) flat_hash_map \<Rightarrow> OrderReplace \<Rightarrow> 'm Handler \<Rightarrow> 'm Handler result" where
  "handle_OrderReplace H msg =
     book_message (OrderReplace.stock_locate msg)
       (\<lambda>b. replace_order split_ops H b (OrderReplace.order_reference_number msg)
          (OrderReplace.new_reference_number msg) (OrderReplace.shares msg) (OrderReplace.price msg))
       no_more"

text \<open>The overload set, and the handler as the parser's template argument sees it.\<close>

fun handler_has :: "MessageType \<Rightarrow> bool" where
  "handler_has SYSTEM_EVENT = True"
| "handler_has STOCK_DIRECTORY = True"
| "handler_has ADD_ORDER_NO_MPID = True"
| "handler_has ADD_ORDER_MPID = True"
| "handler_has ORDER_EXECUTED = True"
| "handler_has ORDER_EXECUTED_PRICE = True"
| "handler_has ORDER_CANCEL = True"
| "handler_has ORDER_DELETE = True"
| "handler_has ORDER_REPLACE = True"
| "handler_has k = False"

fun handler_handle ::
    "(u64, Order, 'm) flat_hash_map \<Rightarrow> itch_msg \<Rightarrow> 'm Handler \<Rightarrow> 'm Handler result" where
  "handler_handle H (Msg_SystemEvent m) = handle_SystemEvent m"
| "handler_handle H (Msg_StockDirectory m) = handle_StockDirectory H m"
| "handler_handle H (Msg_AddOrderNoMpid m) = handle_AddOrderNoMpid H m"
| "handler_handle H (Msg_AddOrderMpid m) = handle_AddOrderMpid H m"
| "handler_handle H (Msg_OrderExecuted m) = handle_OrderExecuted H m"
| "handler_handle H (Msg_OrderExecutedPrice m) = handle_OrderExecutedPrice H m"
| "handler_handle H (Msg_OrderCancel m) = handle_OrderCancel H m"
| "handler_handle H (Msg_OrderDelete m) = handle_OrderDelete H m"
| "handler_handle H (Msg_OrderReplace m) = handle_OrderReplace H m"
| "handler_handle H m = Inr"

definition production_ops ::
    "(u64, Order, 'm) flat_hash_map \<Rightarrow> (nat \<Rightarrow> u64) \<Rightarrow> 'm Handler handler_ops" where
  "production_ops H rdtscp =
     \<lparr>has_handle = handler_has, handle = handler_handle H, handle_before = handle_before_msg rdtscp,
      handle_after = (\<lambda>h. h)\<rparr>"

end
