(* ===== verification/Handler_Correct.thy ===== *)
theory Handler_Correct
  imports Handler
begin

text \<open>
  The handler of \<open>include/handler.hpp\<close> refines an abstract one that keeps only the live orders of
  every subscribed instrument, and what it pushes to an instrument's queue always lets a strategy
  know the best bid and ask of the book.
\<close>

section \<open>The abstract handler\<close>

text \<open>The order message a message is, with the instrument it is for.\<close>

fun order_op :: "itch_msg \<Rightarrow> (u16 \<times> book_op) option" where
  "order_op (Msg_AddOrderNoMpid m) = Some (AddOrderNoMpid.stock_locate m,
     Add_Order (AddOrderNoMpid.order_reference_number m) (side_of_char (AddOrderNoMpid.buy_sell m))
       (AddOrderNoMpid.shares m) (AddOrderNoMpid.price m))"
| "order_op (Msg_AddOrderMpid m) = Some (AddOrderMpid.stock_locate m,
     Add_Order (AddOrderMpid.order_reference_number m) (side_of_char (AddOrderMpid.buy_sell m))
       (AddOrderMpid.shares m) (AddOrderMpid.price m))"
| "order_op (Msg_OrderExecuted m) = Some (OrderExecuted.stock_locate m,
     Execute_Order (OrderExecuted.order_reference_number m) (OrderExecuted.executed_shares m))"
| "order_op (Msg_OrderExecutedPrice m) = Some (OrderExecutedPrice.stock_locate m,
     Execute_Order (OrderExecutedPrice.order_reference_number m) (OrderExecutedPrice.executed_shares m))"
| "order_op (Msg_OrderCancel m) = Some (OrderCancel.stock_locate m,
     Cancel_Order (OrderCancel.order_reference_number m) (OrderCancel.cancelled_shares m))"
| "order_op (Msg_OrderDelete m) = Some (OrderDelete.stock_locate m,
     Delete_Order (OrderDelete.order_reference_number m))"
| "order_op (Msg_OrderReplace m) = Some (OrderReplace.stock_locate m,
     Replace_Order (OrderReplace.order_reference_number m) (OrderReplace.new_reference_number m)
       (OrderReplace.shares m) (OrderReplace.price m))"
| "order_op m = None"

type_synonym market = "u16 \<rightharpoonup> order_set"

text \<open>A directory entry of a configured symbol opens an empty book, an order message changes it.\<close>

definition market_step :: "string set \<Rightarrow> itch_msg \<Rightarrow> market \<Rightarrow> market" where
  "market_step symbols m market =
     (case m of
        Msg_StockDirectory d \<Rightarrow>
          if StockDirectory.stock d \<in> symbols \<and> market (StockDirectory.stock_locate d) = None
          then market(StockDirectory.stock_locate d \<mapsto> Map.empty) else market
      | _ \<Rightarrow>
          (case order_op m of
             None \<Rightarrow> market
           | Some (l, op) \<Rightarrow>
               (case market l of None \<Rightarrow> market | Some orders \<Rightarrow> market(l \<mapsto> orders_after op orders))))"

definition market_of :: "(u64, Order, 'm) flat_hash_map \<Rightarrow> 'm Handler \<Rightarrow> market" where
  "market_of H h l = (case locate_to_book h l of None \<Rightarrow> None | Some b \<Rightarrow> Some (live H (books h ! b)))"

section \<open>What a strategy knows from its queue\<close>

fun apply_update :: "Level \<times> Level \<Rightarrow> StrategyMsg \<Rightarrow> Level \<times> Level" where
  "apply_update (bid, ask) (BookUpdate m) =
     (let lvl = \<lparr>Level.qty = BookUpdateMsg.qty m, Level.price = BookUpdateMsg.price m\<rparr>
      in if BookUpdateMsg.side m = Bid then (lvl, ask)
         else if BookUpdateMsg.side m = Ask then (bid, lvl) else (bid, ask))"
| "apply_update best Stop = best"

definition view :: "StrategyMsg list \<Rightarrow> Level \<times> Level" where
  "view log = foldl apply_update (empty_level, empty_level) log"

lemma view_Nil [simp]: "view [] = (empty_level, empty_level)"
  by (simp add: view_def)

lemma view_snoc [simp]: "view (log @ [m]) = apply_update (view log) m"
  by (simp add: view_def)

lemma view_stops [simp]: "view (log @ replicate n Stop) = view log"
proof (induction n)
  case (Suc n)
  have "log @ replicate (Suc n) Stop = (log @ replicate n Stop) @ [Stop]"
    by (simp add: replicate_append_same)
  with Suc show ?case by (cases "view log") (simp only: view_snoc, simp)
qed simp

section \<open>The invariant\<close>

text \<open>
  \<open>logs\<close> lists what has been pushed to every queue. Books and queues belong to one instrument each;
  a queue no instrument uses yet is empty.
\<close>

definition best_of :: "'m split_book \<Rightarrow> Level \<times> Level" where
  "best_of b = (best_bid split_ops b, best_ask split_ops b)"

definition locate_ok ::
    "(u64, Order, 'm) flat_hash_map \<Rightarrow> 'm Handler \<Rightarrow> (nat \<Rightarrow> StrategyMsg list) \<Rightarrow> u16 \<Rightarrow> bool" where
  "locate_ok H h logs l \<longleftrightarrow>
     (case locate_to_book h l of
        None \<Rightarrow> locate_to_queue h l = None
      | Some b \<Rightarrow> b < length (books h) \<and> split_book_ok H (books h ! b) \<and>
          (\<exists>i. locate_to_queue h l = Some i \<and> view (logs i) = best_of (books h ! b)))"

definition apart :: "('a \<rightharpoonup> 'b) \<Rightarrow> bool" where
  "apart f \<longleftrightarrow> (\<forall>x y v. f x = Some v \<longrightarrow> f y = Some v \<longrightarrow> x = y)"

definition handler_inv ::
    "(u64, Order, 'm) flat_hash_map \<Rightarrow> 'm Handler \<Rightarrow> (nat \<Rightarrow> StrategyMsg list) \<Rightarrow> bool" where
  "handler_inv H h logs \<longleftrightarrow>
     (\<forall>i. log_ok (queues h i) (logs i)) \<and> (\<forall>l. locate_ok H h logs l) \<and>
     apart (locate_to_book h) \<and> apart (locate_to_queue h) \<and>
     (\<forall>i. i \<notin> ran (locate_to_queue h) \<longrightarrow> logs i = []) \<and>
     (\<forall>str cfg. instruments h str = Some cfg \<longrightarrow> queue cfg \<noteq> None)"

lemma apartD: "apart f \<Longrightarrow> f x = Some v \<Longrightarrow> f y = Some v \<Longrightarrow> x = y"
  by (simp add: apart_def)

text \<open>The messages an exchange sends: operations in order, one instrument per queue.\<close>

definition msg_valid :: "(u64, Order, 'm) flat_hash_map \<Rightarrow> itch_msg \<Rightarrow> 'm Handler \<Rightarrow> bool" where
  "msg_valid H m h \<longleftrightarrow>
     (case m of
        Msg_StockDirectory d \<Rightarrow>
          (case instruments h (StockDirectory.stock d) of
             None \<Rightarrow> True
           | Some cfg \<Rightarrow> locate_to_book h (StockDirectory.stock_locate d) \<noteq> None \<or>
               (\<forall>l. locate_to_queue h l \<noteq> queue cfg))
      | _ \<Rightarrow>
          (case order_op m of
             None \<Rightarrow> True
           | Some (l, op) \<Rightarrow>
               (case locate_to_book h l of
                  None \<Rightarrow> True
                | Some b \<Rightarrow> op_valid H op (orders_map (books h ! b)))))"

definition grown :: "(nat \<Rightarrow> StrategyMsg list) \<Rightarrow> (nat \<Rightarrow> StrategyMsg list) \<Rightarrow> bool" where
  "grown logs logs' \<longleftrightarrow> (\<forall>i. \<exists>ext. logs' i = logs i @ ext \<and> length ext \<le> 65536)"

text \<open>The result of a message handled well.\<close>

definition handled ::
    "(u64, Order, 'm) flat_hash_map \<Rightarrow> 'm Handler \<Rightarrow> (nat \<Rightarrow> StrategyMsg list) \<Rightarrow> market \<Rightarrow>
       'm Handler result \<Rightarrow> bool" where
  "handled H h logs market r \<longleftrightarrow>
     (\<exists>h' logs'. r = Inr h' \<and> handler_inv H h' logs' \<and> market_of H h' = market \<and>
        instruments h' = instruments h \<and> grown logs logs')"

lemma handled_intro:
  "handler_inv H h' logs' \<Longrightarrow> market_of H h' = market \<Longrightarrow> instruments h' = instruments h \<Longrightarrow>
   grown logs logs' \<Longrightarrow> handled H h logs market (Inr h')"
  by (auto simp: handled_def)

lemma grown_refl [simp]: "grown logs logs"
  by (simp add: grown_def)

lemma locate_ok_unrelated [simp]:
  "locate_ok H (h\<lparr>max_orders := mx\<rparr>) logs l = locate_ok H h logs l"
  "locate_ok H (h\<lparr>Handler.t0 := t, clock := c\<rparr>) logs l = locate_ok H h logs l"
  "locate_ok H (h\<lparr>last_message := f\<rparr>) logs l = locate_ok H h logs l"
  "locate_ok H (h\<lparr>record_prices := f\<rparr>) logs l = locate_ok H h logs l"
  "locate_ok H (h\<lparr>queues := qs\<rparr>) logs l = locate_ok H h logs l"
  by (simp_all add: locate_ok_def cong: option.case_cong)

lemma handler_inv_unrelated [simp]:
  "handler_inv H (h\<lparr>max_orders := mx\<rparr>) logs = handler_inv H h logs"
  "handler_inv H (h\<lparr>Handler.t0 := t, clock := c\<rparr>) logs = handler_inv H h logs"
  "handler_inv H (h\<lparr>last_message := f\<rparr>) logs = handler_inv H h logs"
  "handler_inv H (h\<lparr>record_prices := f\<rparr>) logs = handler_inv H h logs"
  by (simp_all add: handler_inv_def)

lemma market_of_unrelated [simp]:
  "market_of H (h\<lparr>max_orders := mx\<rparr>) = market_of H h"
  "market_of H (h\<lparr>Handler.t0 := t, clock := c\<rparr>) = market_of H h"
  "market_of H (h\<lparr>last_message := f\<rparr>) = market_of H h"
  "market_of H (h\<lparr>record_prices := f\<rparr>) = market_of H h"
  "market_of H (h\<lparr>queues := qs\<rparr>) = market_of H h"
  by (simp_all add: market_of_def fun_eq_iff cong: option.case_cong)

section \<open>Order messages\<close>

text \<open>What a change reported by the book does to the view of the strategy.\<close>

lemma view_of_change:
  assumes "report_ok split_ops b ch b'" and "view log = best_of b"
  shows "if BestLvlChange.side ch = Side_None then best_of b' = best_of b
    else apply_update (view log) (BookUpdate \<lparr>BookUpdateMsg.t0 = t, qty = BestLvlChange.qty ch,
           price = BestLvlChange.price ch, side = BestLvlChange.side ch\<rparr>) = best_of b'"
  using assms by (auto simp: report_ok_def best_of_def level_of_change_def Let_def)

lemma handler_inv_book:
  assumes inv: "handler_inv H h logs" and l: "locate_to_book h l = Some b" "locate_to_queue h l = Some i"
    and bk: "split_book_ok H b'" and v: "view log' = best_of b'" and q: "log_ok q' log'"
    and i: "log' = logs i @ ext"
  shows "handler_inv H (h\<lparr>books := (books h)[b := b'], queues := (queues h)(i := q')\<rparr>) (logs(i := log'))"
    (is "handler_inv H ?h ?logs")
proof -
  have lo: "\<And>l. locate_ok H h logs l" and ap: "apart (locate_to_book h)" "apart (locate_to_queue h)"
    using inv by (simp_all add: handler_inv_def)
  have "locate_ok H ?h ?logs l'" for l'
  proof (cases "l' = l")
    case True
    with lo [of l] l bk v show ?thesis by (auto simp: locate_ok_def)
  next
    case False
    show ?thesis
    proof (cases "locate_to_book h l'")
      case None
      with lo [of l'] show ?thesis by (simp add: locate_ok_def)
    next
      case (Some b1)
      with False ap(1) l(1) have "b1 \<noteq> b" by (auto dest: apartD)
      moreover have "locate_to_queue h l' \<noteq> Some i" using False ap(2) l(2) by (auto dest: apartD)
      ultimately show ?thesis using Some lo [of l'] by (auto simp: locate_ok_def)
    qed
  qed
  then show ?thesis
    using inv q l(2) by (auto simp: handler_inv_def intro: ranI)
qed

lemma market_of_book:
  assumes "locate_to_book h l = Some b" and "apart (locate_to_book h)" and "b < length (books h)"
  shows "market_of H (h\<lparr>books := (books h)[b := b'], queues := qs\<rparr>) = (market_of H h)(l \<mapsto> live H b')"
  using assms by (auto simp: market_of_def fun_eq_iff nth_list_update split: option.splits dest: apartD)

lemma book_message_ok:
  assumes H: "flat_hash_map_laws H" and inv: "handler_inv H h logs"
    and l: "locate_to_book h l = Some b" and v: "op_valid H op (orders_map (books h ! b))"
    and room: "\<And>i. length (logs i) + 1 < 2 ^ 64"
    and after: "\<And>bk h. \<exists>mx. after bk h = h\<lparr>max_orders := mx\<rparr>"
  shows "handled H h logs ((market_of H h)(l \<mapsto> orders_after op (live H (books h ! b))))
    (book_message l (book_step split_ops H op) after h)"
proof -
  let ?b = "books h ! b"
  have "locate_ok H h logs l" using inv by (simp add: handler_inv_def)
  then obtain i where i: "locate_to_queue h l = Some i" and ok: "b < length (books h)" "split_book_ok H ?b"
    and vw: "view (logs i) = best_of ?b" by (auto simp: locate_ok_def l)
  obtain ch b' where st: "book_step split_ops H op ?b = Inr (ch, b')" "split_book_ok H b'"
    "live H b' = orders_after op (live H ?b)" "report_ok split_ops ?b ch b'"
    using split_lv.book_step_ok [OF H _ v] ok(2)
    by (auto simp: split_book_ok_def step_ok_def split: sum.splits)
  let ?h1 = "h\<lparr>books := (books h)[b := b']\<rparr>"
  obtain mx where h2: "after b' ?h1 = ?h1\<lparr>max_orders := mx\<rparr>" using after by blast
  have lq: "log_ok (queues h i) (logs i)" using inv by (simp add: handler_inv_def)
  have ap: "apart (locate_to_book h)" using inv by (simp add: handler_inv_def)
  show ?thesis
  proof (cases "BestLvlChange.side ch = Side_None")
    case True
    have vb: "view (logs i) = best_of b'" using view_of_change [OF st(4) vw] vw True by simp
    let ?h = "h\<lparr>books := (books h)[b := b'], queues := (queues h)(i := queues h i)\<rparr>"
    have h: "?h = ?h1" by simp
    have "handler_inv H ?h (logs(i := logs i))"
      by (rule handler_inv_book [OF inv l i st(2) vb lq, where ext = "[]"]) simp
    moreover have "market_of H ?h = (market_of H h)(l \<mapsto> live H b')"
      by (rule market_of_book [OF l ap ok(1)])
    moreover have "book_message l (book_step split_ops H op) after h = Inr (?h1\<lparr>max_orders := mx\<rparr>)"
      using True h2 by (simp add: book_message_def get_book_queue_def l st(1) handle_change_def)
    ultimately show ?thesis
      using st(3) unfolding h by (simp add: handled_intro)
  next
    case False
    let ?m = "BookUpdate \<lparr>BookUpdateMsg.t0 = Handler.t0 h, qty = BestLvlChange.qty ch,
           price = BestLvlChange.price ch, side = BestLvlChange.side ch\<rparr>"
    let ?logs = "logs(i := logs i @ [?m])"
    let ?h = "h\<lparr>books := (books h)[b := b'], queues := (queues h)(i := push (queues h i) ?m)\<rparr>"
    have vb: "view (logs i @ [?m]) = best_of b'"
      using view_of_change [OF st(4) vw, of "Handler.t0 h"] False by (simp del: apply_update.simps)
    have lp: "log_ok (push (queues h i) ?m) (logs i @ [?m])" by (rule push_log_ok [OF lq room])
    have "handler_inv H ?h ?logs"
      by (rule handler_inv_book [OF inv l i st(2) vb lp]) simp
    moreover have "market_of H ?h = (market_of H h)(l \<mapsto> live H b')"
      by (rule market_of_book [OF l ap ok(1)])
    moreover have "book_message l (book_step split_ops H op) after h = Inr (?h\<lparr>max_orders := mx\<rparr>)"
      using False h2 by (simp add: book_message_def get_book_queue_def l i st(1) handle_change_def queue_push_def)
    moreover have "grown logs ?logs" by (simp add: grown_def)
    ultimately show ?thesis
      using st(3) handled_intro [of H "?h\<lparr>max_orders := mx\<rparr>" ?logs _ h logs] by simp
  qed
qed

section \<open>The stock directory\<close>

text \<open>A book of its own for the locate \<open>l\<close>, whose queue \<open>i\<close> no other instrument uses.\<close>

definition with_book :: "(u64, Order, 'm) flat_hash_map \<Rightarrow> u16 \<Rightarrow> nat \<Rightarrow> 'm Handler \<Rightarrow> 'm Handler" where
  "with_book H l i h =
     h\<lparr>books := books h @ [book_init split_ops H], locate_to_book := (locate_to_book h)(l \<mapsto> length (books h)),
       locate_to_queue := (locate_to_queue h)(l \<mapsto> i)\<rparr>"

lemma new_book:
  assumes "flat_hash_map_laws H"
  shows "split_book_ok H (book_init split_ops H)" and "live H (book_init split_ops H) = Map.empty"
    and "best_of (book_init split_ops H) = (empty_level, empty_level)"
  using split_lv.book_init_ok [OF assms] flat_hash_map_lawsD(1) [OF assms]
  by (simp_all add: split_book_ok_def book_init_def best_of_def best_bid_def best_ask_def split_ops_def
      split_init_def split_best_def empty_level_def)

lemma books_old: "handler_inv H h logs \<Longrightarrow> locate_to_book h l = Some b \<Longrightarrow> b < length (books h)"
  unfolding handler_inv_def locate_ok_def by (auto split: option.splits dest: spec [of _ l])

lemma with_book_market:
  assumes H: "flat_hash_map_laws H" and inv: "handler_inv H h logs"
  shows "market_of H (with_book H l i h) = (market_of H h)(l \<mapsto> Map.empty)"
  using books_old [OF inv]
  by (auto simp: market_of_def with_book_def fun_eq_iff nth_append new_book(2) [OF H] split: option.splits)

lemma with_book_inv:
  assumes H: "flat_hash_map_laws H" and inv: "handler_inv H h logs"
    and l: "locate_to_book h l = None" and free: "\<And>l'. locate_to_queue h l' \<noteq> Some i"
  shows "handler_inv H (with_book H l i h) logs"
proof -
  let ?h = "with_book H l i h"
  have lo: "locate_ok H h logs l'" for l' using inv by (simp add: handler_inv_def)
  have empty: "logs i = []" using inv free by (auto simp: handler_inv_def ran_def)
  have "locate_ok H ?h logs l'" for l'
  proof (cases "l' = l")
    case True
    then show ?thesis using new_book [OF H] empty by (simp add: locate_ok_def with_book_def)
  next
    case False
    with lo [of l'] books_old [OF inv, of l'] show ?thesis
      by (cases "locate_to_book h l'") (simp_all add: locate_ok_def with_book_def nth_append)
  qed
  moreover have "apart (locate_to_book ?h)" "apart (locate_to_queue ?h)"
    using inv books_old [OF inv] free by (auto simp: handler_inv_def apart_def with_book_def)
  moreover have "i' \<in> ran (locate_to_queue h)" if "logs i' \<noteq> []" for i'
    using inv that by (auto simp: handler_inv_def)
  then have "logs i' = []" if "i' \<notin> ran (locate_to_queue ?h)" for i'
    using that empty lo [of l] l by (auto simp: locate_ok_def with_book_def)
  ultimately show ?thesis
    using inv by (simp add: handler_inv_def) (simp add: with_book_def)
qed

lemma handle_StockDirectory_ok:
  assumes H: "flat_hash_map_laws H" and inv: "handler_inv H h logs"
    and v: "msg_valid H (Msg_StockDirectory d) h"
  shows "handled H h logs (market_step (dom (instruments h)) (Msg_StockDirectory d) (market_of H h))
    (handle_StockDirectory H d h)"
proof (cases "instruments h (StockDirectory.stock d) = None \<or> locate_to_book h (StockDirectory.stock_locate d) \<noteq> None")
  case True
  then have "handle_StockDirectory H d h = Inr h"
    by (auto simp: handle_StockDirectory_def Let_def split: option.splits)
  moreover have "market_step (dom (instruments h)) (Msg_StockDirectory d) (market_of H h) = market_of H h"
    using True by (auto simp: market_step_def market_of_def)
  ultimately show ?thesis using inv by (simp add: handled_intro)
next
  case False
  let ?l = "StockDirectory.stock_locate d"
  obtain cfg where cfg: "instruments h (StockDirectory.stock d) = Some cfg" and l: "locate_to_book h ?l = None"
    using False by auto
  have "queue cfg \<noteq> None" using inv cfg unfolding handler_inv_def by blast
  then obtain i where i: "queue cfg = Some i" by blast
  have free: "\<And>l'. locate_to_queue h l' \<noteq> Some i" using v cfg l i by (simp add: msg_valid_def)
  have "handle_StockDirectory H d h = Inr (with_book H ?l i h)"
    by (simp add: handle_StockDirectory_def with_book_def cfg l i Let_def)
  moreover have "market_step (dom (instruments h)) (Msg_StockDirectory d) (market_of H h) =
    (market_of H h)(?l \<mapsto> Map.empty)"
    using cfg l by (simp add: market_step_def market_of_def domI)
  moreover have "instruments (with_book H ?l i h) = instruments h" by (simp add: with_book_def)
  ultimately show ?thesis
    using with_book_inv [OF H inv l free] with_book_market [OF H inv, of ?l i] by (simp add: handled_intro)
qed

section \<open>The end of the day\<close>

definition stops_for :: "'m Handler \<Rightarrow> u16 list \<Rightarrow> nat \<Rightarrow> nat" where
  "stops_for h ls i = length (filter (\<lambda>l. locate_to_queue h l = Some i) ls)"

lemma stop_loop:
  "foldl (\<lambda>r l. rbind r (\<lambda>h'.
       if locate_to_queue h l \<noteq> None then queue_push (locate_to_queue h l) Stop h' else Inr h'))
     (Inr h') ls =
   Inr (h'\<lparr>queues := \<lambda>i. foldl push (queues h' i) (replicate (stops_for h ls i) Stop)\<rparr>)"
proof (induction ls arbitrary: h')
  case Nil
  then show ?case by (simp add: stops_for_def)
next
  case (Cons l ls)
  show ?case
  proof (cases "locate_to_queue h l")
    case None
    with Cons show ?thesis by (simp add: stops_for_def)
  next
    case (Some i)
    have "foldl push (((queues h')(i := push (queues h' i) Stop)) j) (replicate (stops_for h ls j) Stop) =
          foldl push (queues h' j) (replicate (stops_for h (l # ls) j) Stop)" for j
      using Some by (simp add: stops_for_def)
    with Some Cons [of "h'\<lparr>queues := (queues h')(i := push (queues h' i) Stop)\<rparr>"]
    show ?thesis by (simp add: queue_push_def del: fun_upd_apply)
  qed
qed

lemma stop_all_eq:
  "stop_all h = Inr (h\<lparr>queues := \<lambda>i. foldl push (queues h i) (replicate (stops_for h all_locates i) Stop)\<rparr>)"
  unfolding stop_all_def by (rule stop_loop)

lemma stops_for_bound: "stops_for h all_locates i \<le> 65536"
proof -
  have "length all_locates = 65536" by (simp add: all_locates_def)
  then show ?thesis unfolding stops_for_def by (metis length_filter_le)
qed

lemma all_locates_all: "l \<in> set all_locates"
proof -
  have "unat l < 65536" using unsigned_less [of l, where 'a = nat] by simp
  then have "(of_nat (unat l) :: u16) \<in> of_nat ` set [0..<65536]" by (intro imageI) simp
  then show ?thesis by (simp add: all_locates_def)
qed

lemma stops_for_pos: "0 < stops_for h all_locates i \<longleftrightarrow> i \<in> ran (locate_to_queue h)"
  using all_locates_all by (auto simp: stops_for_def ran_def filter_empty_conv)

text \<open>Every queue in use ends with a \<open>Stop\<close>.\<close>

definition stopped :: "'m Handler \<Rightarrow> (nat \<Rightarrow> StrategyMsg list) \<Rightarrow> bool" where
  "stopped h logs \<longleftrightarrow>
     (\<forall>i \<in> ran (locate_to_queue h). log_ok (queues h i) (logs i) \<and> logs i \<noteq> [] \<and> last (logs i) = Stop)"

lemma stop_all_stops:
  assumes inv: "handler_inv H h logs" and room: "\<And>i. length (logs i) + 65536 < 2 ^ 64"
  shows "\<exists>h' logs'. stop_all h = Inr h' \<and> handler_inv H h' logs' \<and> market_of H h' = market_of H h \<and>
    instruments h' = instruments h \<and> grown logs logs' \<and> stopped h' logs'"
proof -
  let ?logs = "\<lambda>i. logs i @ replicate (stops_for h all_locates i) Stop"
  let ?h = "h\<lparr>queues := \<lambda>i. foldl push (queues h i) (replicate (stops_for h all_locates i) Stop)\<rparr>"
  have log: "log_ok (queues ?h i) (?logs i)" for i
    using inv room [of i] stops_for_bound [of h i]
    by (auto simp: handler_inv_def intro!: spmc.puts_ok)
  moreover have "locate_ok H ?h ?logs l" for l
    using inv by (simp add: handler_inv_def) (simp add: locate_ok_def cong: option.case_cong)
  moreover have "?logs i = []" if "i \<notin> ran (locate_to_queue h)" for i
    using inv that stops_for_pos [of h i] by (simp add: handler_inv_def)
  ultimately have "handler_inv H ?h ?logs"
    using inv by (simp add: handler_inv_def)
  moreover have "grown logs ?logs" using stops_for_bound by (auto simp: grown_def)
  moreover have "stopped ?h ?logs"
    using log stops_for_pos [of h] by (simp add: stopped_def)
  ultimately show ?thesis
    unfolding stop_all_eq by (intro exI [of _ ?h] exI [of _ ?logs]) simp
qed

lemma stop_all_ok:
  assumes "handler_inv H h logs" and "\<And>i. length (logs i) + 65536 < 2 ^ 64"
  shows "handled H h logs (market_of H h) (stop_all h)"
  using stop_all_stops [OF assms] by (auto simp: handled_def)

lemma handle_SystemEvent_ok:
  assumes inv: "handler_inv H h logs" and room: "\<And>i. length (logs i) + 65536 < 2 ^ 64"
  shows "handled H h logs (market_of H h) (handle_SystemEvent m h)"
proof -
  have "handled H h logs (market_of H h) (stop_all (h\<lparr>last_message := True\<rparr>))"
    using stop_all_ok [of H "h\<lparr>last_message := True\<rparr>" logs] inv room by (simp add: handled_def)
  then show ?thesis using inv by (simp add: handle_SystemEvent_def handled_intro)
qed

section \<open>Any message\<close>

lemma book_step_eta:
  "book_step L H (Add_Order i sd n p) = (\<lambda>b. add_order L H b i sd n p)"
  "book_step L H (Cancel_Order i n) = (\<lambda>b. cancel_order L H b i n)"
  "book_step L H (Execute_Order i n) = (\<lambda>b. execute_order L H b i n)"
  "book_step L H (Replace_Order i j n p) = (\<lambda>b. replace_order L H b i j n p)"
  "book_step L H (Delete_Order i) = (\<lambda>b. delete_order L H b i)"
  by (simp_all add: fun_eq_iff)

definition after_of ::
    "(u64, Order, 'm) flat_hash_map \<Rightarrow> itch_msg \<Rightarrow> 'm split_book \<Rightarrow> 'm Handler \<Rightarrow> 'm Handler" where
  "after_of H m =
     (case m of Msg_AddOrderNoMpid _ \<Rightarrow> update_max H | Msg_AddOrderMpid _ \<Rightarrow> update_max H | _ \<Rightarrow> no_more)"

lemma after_of_max: "\<exists>mx. after_of H m bk h = h\<lparr>max_orders := mx\<rparr>"
proof -
  have "no_more bk h = h\<lparr>max_orders := max_orders h\<rparr>" by (simp add: no_more_def)
  moreover have "update_max H bk h =
    h\<lparr>max_orders := max (max_orders h) (of_nat (hm_size H (orders_map bk)))\<rparr>"
    by (simp add: update_max_def)
  moreover have "after_of H m bk h = no_more bk h \<or> after_of H m bk h = update_max H bk h"
    by (cases m) (simp_all add: after_of_def)
  ultimately show ?thesis by metis
qed

lemma handler_handle_order:
  assumes "order_op m = Some (l, op)"
  shows "handler_has (msg_type m)"
    and "handler_handle H m = book_message l (book_step split_ops H op) (after_of H m)"
  using assms
  by (cases m; simp add: handle_AddOrderNoMpid_def handle_AddOrderMpid_def handle_OrderExecuted_def
        handle_OrderExecutedPrice_def handle_OrderCancel_def handle_OrderDelete_def
        handle_OrderReplace_def after_of_def; clarsimp simp: book_step_eta)+

lemma msg_cases:
  obtains (order) l op where "order_op m = Some (l, op)" "\<And>d. m \<noteq> Msg_StockDirectory d"
    | (directory) d where "m = Msg_StockDirectory d"
    | (event) e where "m = Msg_SystemEvent e"
    | (other) "order_op m = None" "\<not> handler_has (msg_type m)" "\<And>d. m \<noteq> Msg_StockDirectory d"
  by (cases m) auto

lemma market_step_order:
  "order_op m = Some (l, op) \<Longrightarrow> (\<And>d. m \<noteq> Msg_StockDirectory d) \<Longrightarrow>
   market_step symbols m market =
     (case market l of None \<Rightarrow> market | Some orders \<Rightarrow> market(l \<mapsto> orders_after op orders))"
  by (cases m) (auto simp: market_step_def split: option.splits)

lemma market_step_other:
  "order_op m = None \<Longrightarrow> (\<And>d. m \<noteq> Msg_StockDirectory d) \<Longrightarrow> market_step symbols m market = market"
  by (cases m) (auto simp: market_step_def)

lemma msg_valid_order:
  "order_op m = Some (l, op) \<Longrightarrow> (\<And>d. m \<noteq> Msg_StockDirectory d) \<Longrightarrow>
   msg_valid H m h = (case locate_to_book h l of None \<Rightarrow> True | Some b \<Rightarrow> op_valid H op (orders_map (books h ! b)))"
  by (cases m) (auto simp: msg_valid_def split: option.splits)

lemma handler_handle_ok:
  assumes H: "flat_hash_map_laws H" and inv: "handler_inv H h logs" and v: "msg_valid H m h"
    and room: "\<And>i. length (logs i) + 65536 < 2 ^ 64"
  shows "handled H h logs (market_step (dom (instruments h)) m (market_of H h))
    (if handler_has (msg_type m) then handler_handle H m h else Inr h)"
proof (cases m rule: msg_cases)
  case (order l op)
  note hm = handler_handle_order(1) [OF order(1)] handler_handle_order(2) [OF order(1), of H]
  show ?thesis
  proof (cases "locate_to_book h l")
    case None
    then have "book_message l (book_step split_ops H op) (after_of H m) h = Inr h"
      by (simp add: book_message_def get_book_queue_def)
    moreover have "market_of H h l = None" by (simp add: market_of_def None)
    ultimately show ?thesis using inv hm order by (simp add: market_step_order handled_intro)
  next
    case (Some b)
    have "length (logs i) + 1 < 2 ^ 64" for i using room [of i] by simp
    moreover have "op_valid H op (orders_map (books h ! b))"
      using v order Some by (simp add: msg_valid_order)
    moreover have "market_of H h l = Some (live H (books h ! b))" by (simp add: market_of_def Some)
    ultimately show ?thesis
      using book_message_ok [OF H inv Some _ _ after_of_max [of H m], of op] hm order by (simp add: market_step_order)
  qed
next
  case (directory d)
  with handle_StockDirectory_ok [OF H inv] v show ?thesis by simp
next
  case (event e)
  with handle_SystemEvent_ok [OF inv room, of e] show ?thesis by (simp add: market_step_def)
next
  case other
  with inv show ?thesis by (simp add: market_step_other handled_intro)
qed

lemma handle_msg_ok:
  assumes H: "flat_hash_map_laws H" and inv: "handler_inv H h logs" and v: "msg_valid H m h"
    and room: "\<And>i. length (logs i) + 65536 < 2 ^ 64"
  shows "handled H h logs (market_step (dom (instruments h)) m (market_of H h))
    (handle_msg (production_ops H rdtscp) m h)"
proof -
  let ?h = "handle_before_msg rdtscp h"
  have "handler_inv H ?h logs" and mk: "market_of H ?h = market_of H h"
    using inv by (simp_all add: handle_before_msg_def)
  moreover have "msg_valid H m ?h"
    using v by (simp add: msg_valid_def handle_before_msg_def cong: itch_msg.case_cong option.case_cong prod.case_cong)
  ultimately have "handled H ?h logs (market_step (dom (instruments ?h)) m (market_of H ?h))
    (if handler_has (msg_type m) then handler_handle H m ?h else Inr ?h)"
    by (intro handler_handle_ok [OF H _ _ room])
  then obtain h' logs' where h': "(if handler_has (msg_type m) then handler_handle H m ?h else Inr ?h) = Inr h'"
    "handler_inv H h' logs'" "market_of H h' = market_step (dom (instruments h)) m (market_of H h)"
    "instruments h' = instruments h" "grown logs logs'"
    unfolding handled_def mk by (auto simp: handle_before_msg_def)
  then have "handle_msg (production_ops H rdtscp) m h = Inr h'"
    by (cases "handler_has (msg_type m)") (simp_all add: handle_msg_def production_ops_def)
  with h' show ?thesis by (simp add: handled_intro)
qed

section \<open>Streams of messages\<close>

fun msgs_valid ::
    "(u64, Order, 'm) flat_hash_map \<Rightarrow> (nat \<Rightarrow> u64) \<Rightarrow> itch_msg list \<Rightarrow> 'm Handler \<Rightarrow> bool" where
  "msgs_valid H rdtscp [] h \<longleftrightarrow> True"
| "msgs_valid H rdtscp (m # ms) h \<longleftrightarrow>
     msg_valid H m h \<and>
     (case handle_msg (production_ops H rdtscp) m h of
        Inl e \<Rightarrow> True | Inr h' \<Rightarrow> msgs_valid H rdtscp ms h')"

lemma handle_msgs_ok:
  assumes H: "flat_hash_map_laws H" and "handler_inv H h logs" and "msgs_valid H rdtscp ms h"
    and "\<And>i. length (logs i) + 65536 * length ms < 2 ^ 64"
  shows "\<exists>h' logs'. handle_msgs (production_ops H rdtscp) ms h = Inr h' \<and> handler_inv H h' logs' \<and>
    market_of H h' = fold (market_step (dom (instruments h))) ms (market_of H h) \<and>
    instruments h' = instruments h \<and> (\<forall>i. length (logs' i) \<le> length (logs i) + 65536 * length ms)"
  using assms(2-)
proof (induction ms arbitrary: h logs)
  case (Cons m ms)
  have room: "length (logs i) + 65536 < 2 ^ 64" for i using Cons.prems(3) [of i] by simp
  have "msg_valid H m h" using Cons.prems(2) by simp
  then obtain h1 logs1 where h1: "handle_msg (production_ops H rdtscp) m h = Inr h1" "handler_inv H h1 logs1"
    "market_of H h1 = market_step (dom (instruments h)) m (market_of H h)" "instruments h1 = instruments h"
    "grown logs logs1"
    using handle_msg_ok [OF H Cons.prems(1) _ room, of m rdtscp] unfolding handled_def by blast
  have "length (logs1 i) + 65536 * length ms < 2 ^ 64" for i
    using h1(5) Cons.prems(3) [of i] by (auto simp: grown_def dest!: spec [of _ i])
  with Cons.IH [OF h1(2)] Cons.prems(2) h1(1,3,4) obtain h' logs'
    where h': "handle_msgs (production_ops H rdtscp) (m # ms) h = Inr h'" "handler_inv H h' logs'"
      "market_of H h' = fold (market_step (dom (instruments h))) (m # ms) (market_of H h)"
      "instruments h' = instruments h" "\<forall>i. length (logs' i) \<le> length (logs1 i) + 65536 * length ms"
    by auto
  have "length (logs1 i) \<le> length (logs i) + 65536" for i
    using h1(5) unfolding grown_def by (metis length_append nat_add_left_cancel_le)
  then have "length (logs' i) \<le> length (logs i) + 65536 * length (m # ms)" for i
    using h'(5) order_trans [of "length (logs' i)"] by (fastforce simp: algebra_simps)
  with h' show ?case by blast
qed auto

definition queues_set :: "(string \<rightharpoonup> InstrumentConfig) \<Rightarrow> bool" where
  "queues_set m \<longleftrightarrow> (\<forall>str cfg. m str = Some cfg \<longrightarrow> queue cfg \<noteq> None)"

lemma queues_set_emplace: "queues_set m \<Longrightarrow> queue cfg \<noteq> None \<Longrightarrow> queues_set (emplace_instrument m cfg)"
  by (simp add: queues_set_def emplace_instrument_def Let_def)

lemma queues_set_all:
  "queues_set m \<Longrightarrow> \<forall>cfg \<in> set cfgs. queue cfg \<noteq> None \<Longrightarrow> queues_set (foldl emplace_instrument m cfgs)"
  by (induction cfgs arbitrary: m) (simp_all add: queues_set_emplace)

lemma handler_init_inv:
  assumes "\<forall>cfg \<in> set cfgs. queue cfg \<noteq> None"
  shows "handler_inv H (handler_init cfgs (\<lambda>_. spmc_init zero)) (\<lambda>_. [])"
proof -
  have "queues_set (foldl emplace_instrument Map.empty cfgs)"
    using assms by (intro queues_set_all) (simp_all add: queues_set_def)
  then show ?thesis
    by (simp add: handler_inv_def handler_init_def locate_ok_def apart_def log_ok_init queues_set_def)
qed

lemma order_op_as_loaded [simp]: "order_op (as_loaded m) = order_op m"
  by (cases m) simp_all

lemma market_step_as_loaded [simp]: "market_step symbols (as_loaded m) = market_step symbols m"
  by (cases m) (simp_all add: market_step_def fun_eq_iff)

lemma fold_market_as_loaded: "fold (market_step symbols) (map as_loaded ms) = fold (market_step symbols) ms"
  by (simp add: fold_map comp_def)

lemma dom_instruments:
  "dom (foldl emplace_instrument m cfgs) = dom m \<union> (pad_symbol \<circ> symbol) ` set cfgs"
  by (induction cfgs arbitrary: m) (auto simp: emplace_instrument_def Let_def)

section \<open>Properties\<close>

text \<open>The log of every subscribed instrument's queue tells the best levels of its live orders.\<close>

definition best_known ::
    "(u64, Order, 'm) flat_hash_map \<Rightarrow> 'm Handler \<Rightarrow> (nat \<Rightarrow> StrategyMsg list) \<Rightarrow> bool" where
  "best_known H h logs \<longleftrightarrow>
     (\<forall>l orders. market_of H h l = Some orders \<longrightarrow>
        (\<exists>i. locate_to_queue h l = Some i \<and> log_ok (queues h i) (logs i) \<and>
          is_best Bid (book_depth orders True) (fst (view (logs i))) \<and>
          is_best Ask (book_depth orders False) (snd (view (logs i)))))"

lemma best_known_inv:
  assumes inv: "handler_inv H h logs"
  shows "best_known H h logs"
proof -
  have "\<exists>i. locate_to_queue h l = Some i \<and> log_ok (queues h i) (logs i) \<and>
      is_best Bid (book_depth orders True) (fst (view (logs i))) \<and>
      is_best Ask (book_depth orders False) (snd (view (logs i)))"
    if "market_of H h l = Some orders" for l orders
  proof -
    from that obtain b where b: "locate_to_book h l = Some b" "orders = live H (books h ! b)"
      by (auto simp: market_of_def split: option.splits)
    have "locate_ok H h logs l" using inv by (simp add: handler_inv_def)
    with b obtain i where "locate_to_queue h l = Some i" "view (logs i) = best_of (books h ! b)"
      "split_book_ok H (books h ! b)" by (auto simp: locate_ok_def)
    moreover from inv have "\<And>i. log_ok (queues h i) (logs i)" by (simp add: handler_inv_def)
    ultimately show ?thesis
      using split_lv.book_best [of H "books h ! b"] b(2) by (simp add: best_of_def split_book_ok_def)
  qed
  then show ?thesis unfolding best_known_def by blast
qed

definition configured :: "InstrumentConfig list \<Rightarrow> string set" where
  "configured cfgs = (pad_symbol \<circ> symbol) ` set cfgs"

lemma handler_init_facts:
  "dom (instruments (handler_init cfgs qs)) = configured cfgs"
  "market_of H (handler_init cfgs qs) = Map.empty"
  by (simp_all add: handler_init_def dom_instruments configured_def market_of_def fun_eq_iff)

text \<open>
  C1. From bytes to strategies: on a buffer framing the messages of an exchange (operations in
  order, one instrument per queue), the parser and the handler together never fail; afterwards the
  live orders of every subscribed instrument are the ones the messages leave, every queue holds its
  log, and a strategy that replays the log of its instrument's queue knows the best bid and the best
  ask of those live orders.
\<close>

theorem feed_shows_best:
  assumes "flat_hash_map_laws H" and "\<forall>cfg \<in> set cfgs. queue cfg \<noteq> None"
    and "list_all msg_ok ms" and "incomplete rest" and "length ms < 2 ^ 47"
    and "msgs_valid H rdtscp (map as_loaded ms) (handler_init cfgs (\<lambda>_. spmc_init zero))"
  shows "\<exists>h logs. parse (production_ops H rdtscp) (pre @ concat (map frame ms) @ rest @ post) (length pre)
        (length (concat (map frame ms)) + length rest) (handler_init cfgs (\<lambda>_. spmc_init zero)) = Inr h \<and>
      market_of H h = fold (market_step (configured cfgs)) ms Map.empty \<and> best_known H h logs"
proof -
  let ?h0 = "handler_init cfgs (\<lambda>_. spmc_init zero) :: 'a Handler"
  have inv0: "handler_inv H ?h0 (\<lambda>_. [])" by (rule handler_init_inv [OF assms(2)])
  note d = handler_init_facts
  obtain h logs where h: "handle_msgs (production_ops H rdtscp) (map as_loaded ms) ?h0 = Inr h"
    "handler_inv H h logs" "market_of H h = fold (market_step (configured cfgs)) ms Map.empty"
    using handle_msgs_ok [OF assms(1) inv0 assms(6)] assms(5) unfolding d fold_market_as_loaded by auto
  have "parse (production_ops H rdtscp) (pre @ concat (map frame ms) @ rest @ post) (length pre)
        (length (concat (map frame ms)) + length rest) ?h0 = Inr h"
    using parse_loop_frames [OF assms(3,4), of "production_ops H rdtscp" pre post ?h0] h(1)
    by (simp add: parse_def add.assoc)
  moreover have "best_known H h logs" by (rule best_known_inv [OF h(2)])
  ultimately show ?thesis using h(3) by blast
qed

definition sample_cfgs :: "InstrumentConfig list" where
  "sample_cfgs = [\<lparr>symbol = ''NVDA'', queue = Some 0\<rparr>, \<lparr>symbol = ''AAPL'', queue = Some 1\<rparr>]"

definition sample_directory :: StockDirectory where
  "sample_directory = StockDirectory_uninit\<lparr>StockDirectory.stock_locate := 7, StockDirectory.stock := ''NVDA    '',
     StockDirectory.issue_sub_type := ''Z ''\<rparr>"

definition sample_add :: AddOrderNoMpid where
  "sample_add = \<lparr>AddOrderNoMpid.stock_locate = 7, tracking_number = 0, timestamp = 5,
     order_reference_number = 42, buy_sell = CHR ''B'', shares = 100, stock = ''NVDA    '', price = 5000\<rparr>"

definition sample_day :: "itch_msg list" where
  "sample_day = [Msg_StockDirectory sample_directory, Msg_AddOrderNoMpid sample_add]"

lemma sample_day_ok: "list_all msg_ok sample_day"
  by code_simp

lemma sample_day_valid:
  "msgs_valid alist_hash_map of_nat (map as_loaded sample_day) (handler_init sample_cfgs (\<lambda>_. spmc_init Stop))"
proof -
  have pad: "pad_symbol ''NVDA'' = ''NVDA    ''" "pad_symbol ''AAPL'' = ''AAPL    ''" by code_simp+
  have side: "side_of_char (CHR ''B'') = Bid" by (simp add: side_of_char_def)
  show ?thesis
    by (simp add: sample_day_def sample_directory_def sample_add_def msg_valid_def handle_msg_def
        production_ops_def handle_StockDirectory_def handler_init_def sample_cfgs_def
        emplace_instrument_def pad handle_before_msg_def book_init_def alist_hash_map_def side
        split: sum.split)
qed

lemma feed_shows_best_witness:
  "\<exists>h logs. parse (production_ops alist_hash_map of_nat) ([1] @ concat (map frame sample_day) @ [0] @ [2])
        (length [1 :: byte]) (length (concat (map frame sample_day)) + length [0 :: byte])
        (handler_init sample_cfgs (\<lambda>_. spmc_init Stop)) = Inr h \<and>
      market_of alist_hash_map h = fold (market_step (configured sample_cfgs)) sample_day Map.empty \<and>
      best_known alist_hash_map h logs"
proof (rule feed_shows_best [OF alist_hash_map_laws _ sample_day_ok _ _ sample_day_valid])
  show "\<forall>cfg \<in> set sample_cfgs. queue cfg \<noteq> None" by (simp add: sample_cfgs_def)
  show "incomplete [0]" by (simp add: incomplete_def)
  show "length sample_day < 2 ^ 47" by (simp add: sample_day_def)
qed

text \<open>
  C13. The end-of-messages event stops the handler and pushes \<open>Stop\<close> to exactly the queues of the
  instruments that have had a directory entry; a configured queue whose instrument never got one
  receives nothing, so a strategy thread on it does not end.
\<close>

theorem end_of_day_stops:
  "\<exists>h'. handle_SystemEvent (m\<lparr>event_code := CHR ''C''\<rparr>) h = Inr h' \<and> should_stop h' \<and>
    (\<forall>i. \<exists>n. queues h' i = foldl push (queues h i) (replicate n Stop) \<and>
       (n = 0) = (i \<notin> ran (locate_to_queue h)))"
proof -
  let ?h = "h\<lparr>last_message := True\<rparr>"
  let ?h' = "?h\<lparr>queues := \<lambda>i. foldl push (queues ?h i) (replicate (stops_for ?h all_locates i) Stop)\<rparr>"
  have "(stops_for ?h all_locates i = 0) = (i \<notin> ran (locate_to_queue h))" for i
    using stops_for_pos [of ?h i] by auto
  moreover have "handle_SystemEvent (m\<lparr>event_code := CHR ''C''\<rparr>) h = Inr ?h'"
    by (simp add: handle_SystemEvent_def stop_all_eq)
  ultimately show ?thesis by (intro exI [of _ ?h']) (auto simp: should_stop_def)
qed

end
