(* ===== verification/Single_Book.thy ===== *)
theory Single_Book
  imports Book_Correct Spsc
begin

text \<open>
  \<open>include/single_strat_order_book.hpp\<close>: the order book that pushes every change of a best level
  to the queue of its one strategy. Its operations are those of \<open>OrderBook\<close> with the push between
  the update of the levels and the update of the order map; the proofs reduce them to the ones of
  \<open>OrderBook\<close> and to the contract of the queue.
\<close>

section \<open>The book and its operations\<close>

record ('l, 'm) SingleStartOrderBook =
  max_orders :: u64
  orders_map :: 'm
  bid_levels :: 'l
  ask_levels :: 'l
  strat_queue :: "BestLvlChange SPSCQueue"

definition single_init ::
    "'l levels_ops \<Rightarrow> (u64, Order, 'm) flat_hash_map \<Rightarrow> BestLvlChange SPSCQueue \<Rightarrow>
       ('l, 'm) SingleStartOrderBook" where
  "single_init L H change =
     \<lparr>max_orders = 0, orders_map = hm_empty H, bid_levels = levels_init L Bid,
      ask_levels = levels_init L Ask, strat_queue = change\<rparr>"

definition single_best_bid :: "'l levels_ops \<Rightarrow> ('l, 'm) SingleStartOrderBook \<Rightarrow> Level" where
  "single_best_bid L b = levels_best L Bid (bid_levels b)"

definition single_best_ask :: "'l levels_ops \<Rightarrow> ('l, 'm) SingleStartOrderBook \<Rightarrow> Level" where
  "single_best_ask L b = levels_best L Ask (ask_levels b)"

definition single_add_levels ::
    "'l levels_ops \<Rightarrow> ('l, 'm) SingleStartOrderBook \<Rightarrow> Side \<Rightarrow> Level \<Rightarrow>
       (BestLvlChange \<times> ('l, 'm) SingleStartOrderBook) result" where
  "single_add_levels L b sd level =
     (if sd = Bid then
        rbind (levels_add L Bid (bid_levels b) level) (\<lambda>(ch, l). Inr (ch, b\<lparr>bid_levels := l\<rparr>))
      else
        rbind (levels_add L Ask (ask_levels b) level) (\<lambda>(ch, l). Inr (ch, b\<lparr>ask_levels := l\<rparr>)))"

definition single_remove_levels ::
    "'l levels_ops \<Rightarrow> ('l, 'm) SingleStartOrderBook \<Rightarrow> Side \<Rightarrow> Level \<Rightarrow>
       (BestLvlChange \<times> ('l, 'm) SingleStartOrderBook) result" where
  "single_remove_levels L b sd level =
     (if sd = Bid then
        rbind (levels_remove L Bid (bid_levels b) level) (\<lambda>(ch, l). Inr (ch, b\<lparr>bid_levels := l\<rparr>))
      else
        rbind (levels_remove L Ask (ask_levels b) level) (\<lambda>(ch, l). Inr (ch, b\<lparr>ask_levels := l\<rparr>)))"

text \<open>The push of a report that is one; a full queue is an abort.\<close>

definition push_change ::
    "string \<Rightarrow> BestLvlChange \<Rightarrow> ('l, 'm) SingleStartOrderBook \<Rightarrow>
       ('l, 'm) SingleStartOrderBook result" where
  "push_change blocked ch b =
     (if BestLvlChange.side ch \<noteq> Side_None then
        let (res, q) = try_push (strat_queue b) ch
        in rbind (UNEXPECTED (\<not> res) blocked) (\<lambda>_. Inr (b\<lparr>strat_queue := q\<rparr>))
      else Inr b)"

definition single_add_order ::
    "'l levels_ops \<Rightarrow> (u64, Order, 'm) flat_hash_map \<Rightarrow> ('l, 'm) SingleStartOrderBook \<Rightarrow>
       u64 \<Rightarrow> Side \<Rightarrow> u32 \<Rightarrow> u32 \<Rightarrow> ('l, 'm) SingleStartOrderBook result" where
  "single_add_order L H b order_id sd n p =
     (let b1 = b\<lparr>orders_map := hm_insert H (orders_map b) order_id (mk_order sd n p)\<rparr>
      in rbind (single_add_levels L b1 sd (mk_level n p)) (\<lambda>(best_lvl_change, b2).
         push_change ''Strategy queue blocked, strategy is too slow (add order)'' best_lvl_change b2))"

text \<open>The common body of \<open>cancel_order\<close> and \<open>execute_order\<close>, which differ in their messages.\<close>

definition single_reduce_order ::
    "string \<Rightarrow> string \<Rightarrow> string \<Rightarrow> 'l levels_ops \<Rightarrow> (u64, Order, 'm) flat_hash_map \<Rightarrow>
       ('l, 'm) SingleStartOrderBook \<Rightarrow> u64 \<Rightarrow> u32 \<Rightarrow> ('l, 'm) SingleStartOrderBook result" where
  "single_reduce_order missing too_big blocked L H b order_id n =
     (case hm_find H (orders_map b) order_id of
        None \<Rightarrow> abort_unexpected missing
      | Some order \<Rightarrow>
          rbind (UNEXPECTED (Order.qty order < n) too_big) (\<lambda>_.
          rbind (single_remove_levels L b (Order.side order) (mk_level n (Order.price order)))
            (\<lambda>(best_lvl_change, b1).
          rbind (push_change blocked best_lvl_change b1) (\<lambda>b2.
            let order' = order\<lparr>Order.qty := Order.qty order - n\<rparr>;
                b3 = b2\<lparr>orders_map := hm_assign H (orders_map b2) order_id order'\<rparr>
            in Inr (if Order.qty order' = 0
                    then b3\<lparr>orders_map := hm_erase H (orders_map b3) order_id\<rparr> else b3)))))"

definition single_cancel_order ::
    "'l levels_ops \<Rightarrow> (u64, Order, 'm) flat_hash_map \<Rightarrow> ('l, 'm) SingleStartOrderBook \<Rightarrow>
       u64 \<Rightarrow> u32 \<Rightarrow> ('l, 'm) SingleStartOrderBook result" where
  "single_cancel_order =
     single_reduce_order ''Cancel order did not find an order''
       ''Partial cancel order volume greater than order volume''
       ''Strategy queue blocked, strategy is too slow (cancel order)''"

definition single_execute_order ::
    "'l levels_ops \<Rightarrow> (u64, Order, 'm) flat_hash_map \<Rightarrow> ('l, 'm) SingleStartOrderBook \<Rightarrow>
       u64 \<Rightarrow> u32 \<Rightarrow> ('l, 'm) SingleStartOrderBook result" where
  "single_execute_order =
     single_reduce_order ''Execute order did not find an order''
       ''Partial execute order volume greater than order volume''
       ''Strategy queue blocked, strategy is too slow (execute order)''"

text \<open>
  \<open>replace_order\<close> inserts the new order while it holds a reference to the old one, and reads the
  old quantity and price through it afterwards. Whether the insertion of a key moves the elements
  of the table, which leaves the reference dangling, is the business of the hash map: it is the
  parameter \<open>rehash\<close>. A present key is not inserted, so nothing moves then.
\<close>

definition single_replace_order ::
    "('m \<Rightarrow> u64 \<Rightarrow> bool) \<Rightarrow> 'l levels_ops \<Rightarrow> (u64, Order, 'm) flat_hash_map \<Rightarrow>
       ('l, 'm) SingleStartOrderBook \<Rightarrow> u64 \<Rightarrow> u64 \<Rightarrow> u32 \<Rightarrow> u32 \<Rightarrow>
       ('l, 'm) SingleStartOrderBook result" where
  "single_replace_order rehash L H b order_id new_order_id n p =
     (case hm_find H (orders_map b) order_id of
        None \<Rightarrow> abort_unexpected ''Replace order did not find an order''
      | Some old_order \<Rightarrow>
          let new_order = mk_order (Order.side old_order) n p;
              moved = (hm_find H (orders_map b) new_order_id = None \<and>
                       rehash (orders_map b) new_order_id);
              b1 = b\<lparr>orders_map := hm_insert H (orders_map b) new_order_id new_order\<rparr>
          in if moved then Inl Out_Of_Bounds
             else
               rbind (single_remove_levels L b1 (Order.side new_order)
                 (mk_level (Order.qty old_order) (Order.price old_order))) (\<lambda>(op1, b2).
               rbind (single_add_levels L b2 (Order.side new_order) (mk_level n p)) (\<lambda>(op2, b3).
               rbind (push_change ''Strategy queue blocked, strategy is too slow (replace order)''
                        (if BestLvlChange.side op2 \<noteq> Side_None then op2 else op1) b3) (\<lambda>b4.
               Inr (b4\<lparr>orders_map := hm_erase H (orders_map b4) order_id\<rparr>)))))"

definition single_delete_order ::
    "'l levels_ops \<Rightarrow> (u64, Order, 'm) flat_hash_map \<Rightarrow> ('l, 'm) SingleStartOrderBook \<Rightarrow>
       u64 \<Rightarrow> ('l, 'm) SingleStartOrderBook result" where
  "single_delete_order L H b order_id =
     (case hm_find H (orders_map b) order_id of
        None \<Rightarrow> abort_unexpected ''Delete order did not find an order''
      | Some order \<Rightarrow>
          rbind (single_remove_levels L b (Order.side order)
            (mk_level (Order.qty order) (Order.price order))) (\<lambda>(best_lvl_change, b1).
          rbind (push_change ''Strategy queue blocked, strategy is too slow (delete order)''
                   best_lvl_change b1) (\<lambda>b2.
          Inr (b2\<lparr>orders_map := hm_erase H (orders_map b2) order_id\<rparr>))))"

fun single_step ::
    "('m \<Rightarrow> u64 \<Rightarrow> bool) \<Rightarrow> 'l levels_ops \<Rightarrow> (u64, Order, 'm) flat_hash_map \<Rightarrow> book_op \<Rightarrow>
       ('l, 'm) SingleStartOrderBook \<Rightarrow> ('l, 'm) SingleStartOrderBook result" where
  "single_step rehash L H (Add_Order i sd n p) b = single_add_order L H b i sd n p"
| "single_step rehash L H (Cancel_Order i n) b = single_cancel_order L H b i n"
| "single_step rehash L H (Execute_Order i n) b = single_execute_order L H b i n"
| "single_step rehash L H (Replace_Order i j n p) b = single_replace_order rehash L H b i j n p"
| "single_step rehash L H (Delete_Order i) b = single_delete_order L H b i"

fun single_run ::
    "('m \<Rightarrow> u64 \<Rightarrow> bool) \<Rightarrow> 'l levels_ops \<Rightarrow> (u64, Order, 'm) flat_hash_map \<Rightarrow> book_op list \<Rightarrow>
       ('l, 'm) SingleStartOrderBook \<Rightarrow> ('l, 'm) SingleStartOrderBook result" where
  "single_run rehash L H [] b = Inr b"
| "single_run rehash L H (op # ops) b =
     rbind (single_step rehash L H op b) (single_run rehash L H ops)"

section \<open>The book without its queue\<close>

definition plain :: "('l, 'm) SingleStartOrderBook \<Rightarrow> ('l, 'm) OrderBook" where
  "plain b =
     \<lparr>OrderBook.max_orders = max_orders b, OrderBook.orders_map = orders_map b,
      OrderBook.bid_levels = bid_levels b, OrderBook.ask_levels = ask_levels b\<rparr>"

definition with_queue ::
    "BestLvlChange SPSCQueue \<Rightarrow> ('l, 'm) OrderBook \<Rightarrow> ('l, 'm) SingleStartOrderBook" where
  "with_queue q b =
     \<lparr>max_orders = OrderBook.max_orders b, orders_map = OrderBook.orders_map b,
      bid_levels = OrderBook.bid_levels b, ask_levels = OrderBook.ask_levels b, strat_queue = q\<rparr>"


lemma plain_with_queue [simp]: "plain (with_queue q b) = b" "strat_queue (with_queue q b) = q"
  by (simp_all add: plain_def with_queue_def)

lemma with_queue_plain: "with_queue (strat_queue b) (plain b) = b"
  by (simp add: plain_def with_queue_def)

lemma plain_upd [simp]:
  "plain (b\<lparr>orders_map := m\<rparr>) = (plain b)\<lparr>OrderBook.orders_map := m\<rparr>"
  "plain (b\<lparr>strat_queue := q\<rparr>) = plain b"
  "OrderBook.orders_map (plain b) = orders_map b"
  by (simp_all add: plain_def)

lemma with_queue_upd [simp]:
  "(with_queue q b)\<lparr>orders_map := m\<rparr> = with_queue q (b\<lparr>OrderBook.orders_map := m\<rparr>)"
  "(with_queue q b)\<lparr>strat_queue := q'\<rparr> = with_queue q' b"
  "orders_map (with_queue q b) = OrderBook.orders_map b"
  by (simp_all add: with_queue_def)

lemma single_levels_eq:
  "single_add_levels L b sd v =
     rbind (add_on_side L (plain b) sd v) (\<lambda>(ch, b'). Inr (ch, with_queue (strat_queue b) b'))"
  "single_remove_levels L b sd v =
     rbind (remove_on_side L (plain b) sd v) (\<lambda>(ch, b'). Inr (ch, with_queue (strat_queue b) b'))"
  by (auto simp: single_add_levels_def single_remove_levels_def add_on_side_def remove_on_side_def
      plain_def with_queue_def rbind_assoc split: rbind_split intro: rbind_cong)

section \<open>Pushing a report\<close>

text \<open>What one report leaves in the queue.\<close>

definition log_of :: "BestLvlChange \<Rightarrow> BestLvlChange list" where
  "log_of ch = (if BestLvlChange.side ch = Side_None then [] else [ch])"

abbreviation pending :: "('l, 'm) SingleStartOrderBook \<Rightarrow> BestLvlChange list" where
  "pending b \<equiv> spsc_items (strat_queue b)"

definition push_report ::
    "string \<Rightarrow> BestLvlChange \<Rightarrow> BestLvlChange SPSCQueue \<Rightarrow> BestLvlChange SPSCQueue result" where
  "push_report blocked ch q =
     (if BestLvlChange.side ch = Side_None then Inr q
      else if fst (try_push q ch) then Inr (snd (try_push q ch)) else Inl (Unexpected blocked))"

lemma push_change_eq:
  "push_change blocked ch (with_queue q b) =
     rbind (push_report blocked ch q) (\<lambda>q'. Inr (with_queue q' b))"
  by (simp add: push_change_def push_report_def case_prod_unfold)

lemma push_report_room:
  assumes "spsc_inv q" and "length (spsc_items q) < spsc_capacity"
  obtains q' where "push_report blocked ch q = Inr q'" "spsc_inv q'"
    "spsc_items q' = spsc_items q @ log_of ch"
  using spsc.push_ok [OF assms, of ch] assms that
  by (cases "BestLvlChange.side ch = Side_None") (auto simp: push_report_def log_of_def)

lemma push_report_full:
  "spsc_inv q \<Longrightarrow> length (spsc_items q) = spsc_capacity \<Longrightarrow> BestLvlChange.side ch \<noteq> Side_None \<Longrightarrow>
   push_report blocked ch q = Inl (Unexpected blocked)"
  using spsc.push_full [of q ch] by (simp add: push_report_def)

section \<open>The operations against those of \<open>OrderBook\<close>\<close>

text \<open>
  \<open>replace_order\<close> inserts before it erases, \<open>OrderBook\<close> the other way round: the same unless both
  identifiers are one, or the insertion moves the old order.
\<close>

fun op_apart :: "('m \<Rightarrow> u64 \<Rightarrow> bool) \<Rightarrow> (u64, Order, 'm) flat_hash_map \<Rightarrow> book_op \<Rightarrow> 'm \<Rightarrow> bool" where
  "op_apart rehash H (Replace_Order i j n p) m \<longleftrightarrow>
     i \<noteq> j \<and> (hm_find H m j \<noteq> None \<or> \<not> rehash m j)"
| "op_apart rehash H op m \<longleftrightarrow> True"

text \<open>
  The two halves apart: a replace under the same identifier, and an insertion that moves the table
  under the reference.
\<close>

fun keeps_id :: "book_op \<Rightarrow> bool" where
  "keeps_id (Replace_Order i j n p) \<longleftrightarrow> i = j"
| "keeps_id op \<longleftrightarrow> False"

fun moves :: "('m \<Rightarrow> u64 \<Rightarrow> bool) \<Rightarrow> (u64, Order, 'm) flat_hash_map \<Rightarrow> book_op \<Rightarrow> 'm \<Rightarrow> bool" where
  "moves rehash H (Replace_Order i j n p) m \<longleftrightarrow> hm_find H m j = None \<and> rehash m j"
| "moves rehash H op m \<longleftrightarrow> False"

lemma op_apart_iff: "op_apart rehash H op m \<longleftrightarrow> \<not> keeps_id op \<and> \<not> moves rehash H op m"
  by (cases op) auto

lemma single_step_moves:
  assumes "op_valid H op (orders_map b)" and "moves rehash H op (orders_map b)"
  shows "single_step rehash L H op b = Inl Out_Of_Bounds"
  using assms by (cases op) (auto simp: single_replace_order_def Let_def)

text \<open>The push of an operation, told by its messages.\<close>

fun blocked_message :: "book_op \<Rightarrow> string" where
  "blocked_message (Add_Order i sd n p) = ''Strategy queue blocked, strategy is too slow (add order)''"
| "blocked_message (Cancel_Order i n) = ''Strategy queue blocked, strategy is too slow (cancel order)''"
| "blocked_message (Execute_Order i n) = ''Strategy queue blocked, strategy is too slow (execute order)''"
| "blocked_message (Replace_Order i j n p) = ''Strategy queue blocked, strategy is too slow (replace order)''"
| "blocked_message (Delete_Order i) = ''Strategy queue blocked, strategy is too slow (delete order)''"

definition same_book ::
    "(u64, Order, 'm) flat_hash_map \<Rightarrow> ('l, 'm) OrderBook \<Rightarrow> ('l, 'm) OrderBook \<Rightarrow> bool" where
  "same_book H b b' \<longleftrightarrow>
     OrderBook.bid_levels b = OrderBook.bid_levels b' \<and>
     OrderBook.ask_levels b = OrderBook.ask_levels b' \<and> live H b = live H b'"

lemma same_book_refl [simp]: "same_book H b b"
  by (simp add: same_book_def)


lemma single_reduce_eq:
  assumes "reduce_order m1 m2 L H (plain b) i n = Inr (ch, b')"
  shows "single_reduce_order m1 m2 blocked L H b i n =
     rbind (push_report blocked ch (strat_queue b)) (\<lambda>q'. Inr (with_queue q' b'))"
  using assms
  by (cases "remove_on_side L (plain b) (Order.side (the (hm_find H (orders_map b) i)))
       (mk_level n (Order.price (the (hm_find H (orders_map b) i))))")
     (auto simp: reduce_order_def single_reduce_order_def single_levels_eq push_change_eq
       abort_unexpected_def Let_def rbind_assoc not_less UNEXPECTED_bind
       split: option.splits if_splits)

lemma on_side_map:
  "add_on_side L (b\<lparr>OrderBook.orders_map := m\<rparr>) sd v =
     rbind (add_on_side L b sd v) (\<lambda>(ch, b'). Inr (ch, b'\<lparr>OrderBook.orders_map := m\<rparr>))"
  "remove_on_side L (b\<lparr>OrderBook.orders_map := m\<rparr>) sd v =
     rbind (remove_on_side L b sd v) (\<lambda>(ch, b'). Inr (ch, b'\<lparr>OrderBook.orders_map := m\<rparr>))"
  by (auto simp: add_on_side_def remove_on_side_def split: rbind_split)

lemma on_side_keeps_map:
  "add_on_side L b sd v = Inr (ch, b') \<Longrightarrow> OrderBook.orders_map b' = OrderBook.orders_map b"
  "remove_on_side L b sd v = Inr (ch, b') \<Longrightarrow> OrderBook.orders_map b' = OrderBook.orders_map b"
  by (auto simp: add_on_side_def remove_on_side_def rbind_eq_Inr split: if_splits)

lemma insert_erase_apart:
  assumes H: "flat_hash_map_laws H" and "i \<noteq> j"
  shows "hm_find H (hm_erase H (hm_insert H m j x) i) = hm_find H (hm_insert H (hm_erase H m i) j x)"
  using flat_hash_map_lawsD(2,3) [OF H, of m j x]
    flat_hash_map_lawsD(2,3) [OF H, of "hm_erase H m i" j x] assms(2)
  by (cases "hm_find H m j") (auto simp: flat_hash_map_lawsD(5) [OF H] fun_eq_iff)

lemma single_replace_eq:
  assumes H: "flat_hash_map_laws H" and apart: "op_apart rehash H (Replace_Order i j n p) (orders_map b)"
    and r: "replace_order L H (plain b) i j n p = Inr (ch, b')"
  shows "\<exists>b2. single_replace_order rehash L H b i j n p =
       rbind (push_report (blocked_message (Replace_Order i j n p)) ch (strat_queue b))
         (\<lambda>q'. Inr (with_queue q' b2)) \<and> same_book H b2 b'"
proof -
  from r obtain ord where i: "hm_find H (orders_map b) i = Some ord"
    by (auto simp: replace_order_def abort_unexpected_def split: option.splits)
  let ?new = "mk_order (Order.side ord) n p"
  from r i obtain ch1 b1 ch2 b2 where
    r1: "remove_on_side L (plain b) (Order.side ord) (mk_level (Order.qty ord) (Order.price ord)) = Inr (ch1, b1)"
    and r2: "add_on_side L b1 (Order.side ord) (mk_level n p) = Inr (ch2, b2)"
    and ch: "ch = (if BestLvlChange.side ch2 \<noteq> Side_None then ch2 else ch1)"
    and b': "b' = b2\<lparr>OrderBook.orders_map :=
      hm_insert H (hm_erase H (OrderBook.orders_map b2) i) j ?new\<rparr>"
    by (auto simp: replace_order_def Let_def rbind_eq_Inr)
  have m: "OrderBook.orders_map b2 = orders_map b"
    using on_side_keeps_map(1) [OF r2] on_side_keeps_map(2) [OF r1] by simp
  let ?b = "b2\<lparr>OrderBook.orders_map := hm_erase H (hm_insert H (orders_map b) j ?new) i\<rparr>"
  have "single_replace_order rehash L H b i j n p =
       rbind (push_report (blocked_message (Replace_Order i j n p)) ch (strat_queue b))
         (\<lambda>q'. Inr (with_queue q' ?b))"
    using apart r1 r2 i
    by (auto simp: single_replace_order_def Let_def single_levels_eq on_side_map push_change_eq
        rbind_assoc ch)
  moreover have "same_book H ?b b'"
    using apart by (simp add: same_book_def b' m insert_erase_apart [OF H])
  ultimately show ?thesis by blast
qed

lemma single_step_eq:
  assumes H: "flat_hash_map_laws H" and apart: "op_apart rehash H op (orders_map b)"
    and r: "book_step L H op (plain b) = Inr (ch, b')"
  shows "\<exists>b2. single_step rehash L H op b =
       rbind (push_report (blocked_message op) ch (strat_queue b)) (\<lambda>q'. Inr (with_queue q' b2)) \<and>
     same_book H b2 b'"
proof (cases op)
  case (Add_Order i sd n p)
  with r have "single_step rehash L H op b =
      rbind (push_report (blocked_message op) ch (strat_queue b)) (\<lambda>q'. Inr (with_queue q' b'))"
    by (simp add: single_add_order_def add_order_def Let_def single_levels_eq push_change_eq)
  then show ?thesis by (intro exI conjI) (assumption, rule same_book_refl)
next
  case (Cancel_Order i n)
  with r have "single_step rehash L H op b =
      rbind (push_report (blocked_message op) ch (strat_queue b)) (\<lambda>q'. Inr (with_queue q' b'))"
    using single_reduce_eq by (simp add: single_cancel_order_def cancel_order_def)
  then show ?thesis by (intro exI conjI) (assumption, rule same_book_refl)
next
  case (Execute_Order i n)
  with r have "single_step rehash L H op b =
      rbind (push_report (blocked_message op) ch (strat_queue b)) (\<lambda>q'. Inr (with_queue q' b'))"
    using single_reduce_eq by (simp add: single_execute_order_def execute_order_def)
  then show ?thesis by (intro exI conjI) (assumption, rule same_book_refl)
next
  case (Replace_Order i j n p)
  with single_replace_eq [OF H] apart r show ?thesis by simp
next
  case (Delete_Order i)
  with r have "single_step rehash L H op b =
      rbind (push_report (blocked_message op) ch (strat_queue b)) (\<lambda>q'. Inr (with_queue q' b'))"
    by (auto simp: single_delete_order_def delete_order_def single_levels_eq push_change_eq
        abort_unexpected_def rbind_assoc rbind_eq_Inr split: option.splits)
  then show ?thesis by (intro exI conjI) (assumption, rule same_book_refl)
qed


section \<open>Every operation keeps the book and logs its report\<close>

definition single_ok ::
    "('l \<Rightarrow> depth) \<Rightarrow> (Side \<Rightarrow> 'l \<Rightarrow> bool) \<Rightarrow> (u64, Order, 'm) flat_hash_map \<Rightarrow>
       ('l, 'm) SingleStartOrderBook \<Rightarrow> bool" where
  "single_ok depth_of invar H b \<longleftrightarrow>
     book_ok depth_of invar H (plain b) \<and> spsc_inv (strat_queue b)"

text \<open>
  The result of an operation that went right: the live orders, and one entry more in the queue
  exactly when a best level was reported, which it then describes.
\<close>

definition single_step_ok ::
    "('l \<Rightarrow> depth) \<Rightarrow> (Side \<Rightarrow> 'l \<Rightarrow> bool) \<Rightarrow> 'l levels_ops \<Rightarrow> (u64, Order, 'm) flat_hash_map \<Rightarrow>
       ('l, 'm) SingleStartOrderBook \<Rightarrow> order_set \<Rightarrow> ('l, 'm) SingleStartOrderBook result \<Rightarrow> bool" where
  "single_step_ok depth_of invar L H b orders r =
     (case r of
        Inl e \<Rightarrow> False
      | Inr b' \<Rightarrow> single_ok depth_of invar H b' \<and> live H (plain b') = orders \<and>
          (\<exists>ch. report_ok L (plain b) ch (plain b') \<and> pending b' = pending b @ log_of ch))"

lemma same_book_ok:
  "same_book H b2 b' \<Longrightarrow> book_ok depth_of invar H b2 = book_ok depth_of invar H b'"
  by (simp add: same_book_def book_ok_def levels_inv_def side_depth_def [abs_def] cong: if_cong)

lemma same_book_report: "same_book H b2 b' \<Longrightarrow> report_ok L b ch b2 = report_ok L b ch b'"
  by (rule report_ok_levels_only) (simp_all add: same_book_def)

context best_levels
begin

lemma single_step_correct:
  assumes H: "flat_hash_map_laws H" and ok: "single_ok depth_of invar H b"
    and v: "op_valid H op (orders_map b)" and apart: "op_apart rehash H op (orders_map b)"
    and room: "length (pending b) < spsc_capacity"
  shows "single_step_ok depth_of invar L H b (orders_after op (live H (plain b)))
           (single_step rehash L H op b)"
proof -
  have bok: "book_ok depth_of invar H (plain b)" and q: "spsc_inv (strat_queue b)"
    using ok by (simp_all add: single_ok_def)
  obtain ch b' where s: "book_step L H op (plain b) = Inr (ch, b')"
    "book_ok depth_of invar H b'" "live H b' = orders_after op (live H (plain b))"
    "report_ok L (plain b) ch b'"
    using book_step_ok [OF H bok, of op] v by (auto simp: step_ok_def split: sum.splits)
  obtain b2 where e: "single_step rehash L H op b =
       rbind (push_report (blocked_message op) ch (strat_queue b)) (\<lambda>q'. Inr (with_queue q' b2))"
    "same_book H b2 b'"
    using single_step_eq [OF H apart s(1)] by blast
  obtain q' where p: "push_report (blocked_message op) ch (strat_queue b) = Inr q'" "spsc_inv q'"
    "spsc_items q' = pending b @ log_of ch"
    by (rule push_report_room [OF q room])
  have "single_step rehash L H op b = Inr (with_queue q' b2)" by (simp add: e(1) p(1))
  then show ?thesis
    using s p same_book_ok [OF e(2), of depth_of invar] same_book_report [OF e(2), of L "plain b" ch] e(2)
    by (auto simp: single_step_ok_def single_ok_def same_book_def)
qed

end


section \<open>What the strategy sees\<close>

text \<open>The best level a strategy knows after it has read the reports of its queue.\<close>

definition last_seen :: "Side \<Rightarrow> BestLvlChange list \<Rightarrow> Level" where
  "last_seen S chs =
     fold (\<lambda>ch v. if BestLvlChange.side ch = S then level_of_change ch else v) chs empty_level"

lemma last_seen_append:
  "last_seen S (chs @ [ch]) =
     (if BestLvlChange.side ch = S then level_of_change ch else last_seen S chs)"
  by (simp add: last_seen_def)

lemma last_seen_Nil [simp]: "last_seen S [] = empty_level"
  by (simp add: last_seen_def)

definition in_view :: "'l levels_ops \<Rightarrow> ('l, 'm) SingleStartOrderBook \<Rightarrow> bool" where
  "in_view L b \<longleftrightarrow>
     last_seen Bid (pending b) = single_best_bid L b \<and> last_seen Ask (pending b) = single_best_ask L b"

lemma single_best_eq:
  "single_best_bid L b = best_bid L (plain b)" "single_best_ask L b = best_ask L (plain b)"
  by (simp_all add: single_best_bid_def single_best_ask_def best_bid_def best_ask_def plain_def)

lemma in_view_step:
  assumes "in_view L b" and "report_ok L (plain b) ch (plain b')"
    and "pending b' = pending b @ log_of ch"
  shows "in_view L b'"
  using assms unfolding in_view_def single_best_eq report_ok_def log_of_def
  by (elim disjE conjE) (simp_all add: last_seen_append)

fun single_ops_valid ::
    "('m \<Rightarrow> u64 \<Rightarrow> bool) \<Rightarrow> 'l levels_ops \<Rightarrow> (u64, Order, 'm) flat_hash_map \<Rightarrow> book_op list \<Rightarrow>
       ('l, 'm) SingleStartOrderBook \<Rightarrow> bool" where
  "single_ops_valid rehash L H [] b \<longleftrightarrow> True"
| "single_ops_valid rehash L H (op # ops) b \<longleftrightarrow>
     op_valid H op (orders_map b) \<and> op_apart rehash H op (orders_map b) \<and>
     (case single_step rehash L H op b of
        Inl e \<Rightarrow> True | Inr b' \<Rightarrow> single_ops_valid rehash L H ops b')"

context best_levels
begin

lemma single_init_ok:
  assumes "flat_hash_map_laws H"
  shows "single_ok depth_of invar H (single_init L H (spsc_init zero)) \<and>
    in_view L (single_init L H (spsc_init zero)) \<and> pending (single_init L H (spsc_init zero)) = []"
proof -
  let ?b = "single_init L H (spsc_init zero)"
  have p: "plain ?b = book_init L H"
    by (simp add: plain_def single_init_def book_init_def)
  have q: "spsc_inv (strat_queue ?b)" "pending ?b = []"
    using spsc.init_ok [of zero] by (simp_all add: single_init_def)
  have "levels_best L S (levels_init L S) = empty_level" for S
    using best_ok [of S "levels_init L S"] init_ok [of S] by (simp add: is_best_def)
  then have "in_view L ?b" by (simp add: in_view_def q single_best_bid_def single_best_ask_def)
      (simp add: single_init_def)
  with p q book_init_ok [OF assms] show ?thesis by (simp add: single_ok_def)
qed

lemma single_run_correct:
  assumes H: "flat_hash_map_laws H" and "single_ok depth_of invar H b" and "in_view L b"
    and "single_ops_valid rehash L H ops b" and "length (pending b) + length ops \<le> spsc_capacity"
  shows "\<exists>b'. single_run rehash L H ops b = Inr b' \<and> single_ok depth_of invar H b' \<and>
    in_view L b' \<and> live H (plain b') = fold orders_after ops (live H (plain b))"
  using assms(2-)
proof (induction ops arbitrary: b)
  case (Cons op ops)
  have "single_step_ok depth_of invar L H b (orders_after op (live H (plain b)))
           (single_step rehash L H op b)"
    using Cons.prems by (intro single_step_correct [OF H]) auto
  then obtain b1 ch where s: "single_step rehash L H op b = Inr b1" "single_ok depth_of invar H b1"
    "live H (plain b1) = orders_after op (live H (plain b))"
    "report_ok L (plain b) ch (plain b1)" "pending b1 = pending b @ log_of ch"
    by (auto simp: single_step_ok_def split: sum.splits)
  have "length (log_of ch) \<le> 1" by (simp add: log_of_def)
  then have room: "length (pending b1) + length ops \<le> spsc_capacity"
    using Cons.prems(4) unfolding s(5) by simp
  have valid: "single_ops_valid rehash L H ops b1" using Cons.prems(3) s(1) by simp
  from Cons.IH [OF s(2) in_view_step [OF Cons.prems(2) s(4,5)] valid room] s(1,3)
  show ?case by simp
qed simp

end


context best_levels
begin

lemma single_step_full:
  assumes H: "flat_hash_map_laws H" and ok: "single_ok depth_of invar H b"
    and v: "op_valid H op (orders_map b)" and apart: "op_apart rehash H op (orders_map b)"
    and full: "length (pending b) = spsc_capacity"
  shows "\<exists>ch b'. book_step L H op (plain b) = Inr (ch, b') \<and>
    (if BestLvlChange.side ch = Side_None
     then is_ok (single_step rehash L H op b)
     else single_step rehash L H op b = Inl (Unexpected (blocked_message op)))"
proof -
  have bok: "book_ok depth_of invar H (plain b)" and q: "spsc_inv (strat_queue b)"
    using ok by (simp_all add: single_ok_def)
  obtain ch b' where s: "book_step L H op (plain b) = Inr (ch, b')"
    using book_step_ok [OF H bok, of op] v by (auto simp: step_ok_def split: sum.splits)
  obtain b2 where e: "single_step rehash L H op b =
       rbind (push_report (blocked_message op) ch (strat_queue b)) (\<lambda>q'. Inr (with_queue q' b2))"
    using single_step_eq [OF H apart s] by blast
  have "if BestLvlChange.side ch = Side_None then is_ok (single_step rehash L H op b)
    else single_step rehash L H op b = Inl (Unexpected (blocked_message op))"
    using push_report_full [OF q full, of ch "blocked_message op"]
    by (cases "BestLvlChange.side ch = Side_None") (simp_all add: e push_report_def)
  with s show ?thesis by blast
qed

text \<open>A replace under the same identifier: the new quantity stays, the order does not.\<close>

lemma single_replace_same:
  assumes H: "flat_hash_map_laws H" and ok: "single_ok depth_of invar H b"
    and i: "live H (plain b) i = Some ord" and n: "n \<noteq> 0"
    and room: "length (pending b) < spsc_capacity"
  shows "\<exists>b'. single_replace_order rehash L H b i i n p = Inr b' \<and>
    live H (plain b') = (live H (plain b))(i := None) \<and> \<not> single_ok depth_of invar H b'"
proof -
  let ?sd = "Order.side ord" and ?rest = "(live H (plain b))(i := None)"
  have bok: "book_ok depth_of invar H (plain b)" and q: "spsc_inv (strat_queue b)"
    using ok by (simp_all add: single_ok_def)
  have i': "hm_find H (orders_map b) i = Some ord" using i by simp
  obtain ch1 b1 where r1:
    "remove_on_side L (plain b) ?sd (mk_level (Order.qty ord) (Order.price ord)) = Inr (ch1, b1)"
    "levels_inv invar b1" "OrderBook.orders_map b1 = orders_map b"
    "side_depth depth_of b1 = book_depth ?rest"
    by (rule remove_of_order [OF bok i order_refl]) (auto simp: reduced_all [of "hm_find H (orders_map b)" i ord, OF i'])
  obtain ch2 b2 where r2: "add_on_side L b1 ?sd (mk_level n p) = Inr (ch2, b2)"
    "OrderBook.orders_map b2 = OrderBook.orders_map b1"
    "side_depth depth_of b2 = (side_depth depth_of b1)((?sd = Bid) :=
       spec_add (side_depth depth_of b1 (?sd = Bid)) (mk_level n p))"
    using add_on_side_ok [OF r1(2), of ?sd "mk_level n p"] by blast
  let ?ch = "if BestLvlChange.side ch2 \<noteq> Side_None then ch2 else ch1"
  let ?blocked = "''Strategy queue blocked, strategy is too slow (replace order)''"
  obtain q' where pu: "push_report ?blocked ?ch (strat_queue b) = Inr q'"
    by (rule push_report_room [OF q room])
  let ?m = "hm_insert H (orders_map b) i (mk_order ?sd n p)"
  let ?b' = "with_queue q' (b2\<lparr>OrderBook.orders_map := hm_erase H ?m i\<rparr>)"
  have run: "single_replace_order rehash L H b i i n p = Inr ?b'"
    using i' pu by (simp add: single_replace_order_def Let_def single_levels_eq on_side_map r1(1) r2(1)
        push_change_eq)
  have live: "live H (plain ?b') = ?rest"
    using flat_hash_map_lawsD(3) [OF H, of "orders_map b" i] i'
    by (simp add: flat_hash_map_lawsD(5) [OF H])
  have "(ucast n :: u64) \<noteq> 0" using n by (simp add: ucast_eq_0)
  then have "spec_add (book_depth ?rest (?sd = Bid)) (mk_level n p) p \<noteq> book_depth ?rest (?sd = Bid) p"
    by (simp add: spec_add_apply mk_level_def split: option.splits)
  moreover have "side_depth depth_of (plain ?b') (?sd = Bid) =
      spec_add (book_depth ?rest (?sd = Bid)) (mk_level n p)"
    by (simp add: r2(3) r1(4))
  ultimately have "side_depth depth_of (plain ?b') \<noteq> book_depth (live H (plain ?b'))"
    by (metis live)
  with run live show ?thesis by (auto simp: single_ok_def book_ok_def)
qed

end

section \<open>Properties of the single-strategy book\<close>

text \<open>Instantiated with the production container, as the interpretation of its interface allows.\<close>

type_synonym 'm split_single = "(VectorLevelBSearchSplit, 'm) SingleStartOrderBook"

definition split_single_ok :: "(u64, Order, 'm) flat_hash_map \<Rightarrow> 'm split_single \<Rightarrow> bool" where
  "split_single_ok = single_ok split_depth split_inv"

definition split_single_step_ok ::
    "(u64, Order, 'm) flat_hash_map \<Rightarrow> 'm split_single \<Rightarrow> order_set \<Rightarrow> 'm split_single result \<Rightarrow> bool" where
  "split_single_step_ok = single_step_ok split_depth split_inv split_ops"

definition small_single :: "(u64 \<times> Order) list split_single" where
  "small_single = with_queue (spsc_init no_change) small_book"

lemma small_single_ok: "split_single_ok alist_hash_map small_single"
  using small_book_ok spsc.init_ok [of no_change]
  by (simp add: split_single_ok_def single_ok_def small_single_def split_book_ok_def)

lemma small_single_pending: "pending small_single = []"
  using spsc.init_ok [of no_change] by (simp add: small_single_def)

text \<open>
  C20. One operation of a single-strategy book whose sides agree with its orders, with room in the queue,
  that is in order (an order it refers to is known and has the quantity, a new one is not known yet, has
  a quantity and finds fewer than \<open>2 ^ 32\<close> others) and is not a replace that keeps the order's identifier.
  If it is a replace whose insertion moves the elements of the table, it goes on to read through a
  dangling reference. Otherwise it returns, leaves exactly the live orders the protocol asks for with both
  sides in agreement, and appends to the queue exactly its report: at most one, which is the best level of
  the side it names after the operation (it may repeat an unchanged one) while the other side's has not
  moved; without a report neither best level has.
\<close>

theorem single_operation_refines:
  assumes "flat_hash_map_laws H" and "split_single_ok H b" and "op_valid H op (orders_map b)"
    and "\<not> keeps_id op" and "length (pending b) < spsc_capacity"
  shows "if moves rehash H op (orders_map b)
    then single_step rehash split_ops H op b = Inl Out_Of_Bounds
    else split_single_step_ok H b (orders_after op (live H (plain b)))
           (single_step rehash split_ops H op b)"
proof (cases "moves rehash H op (orders_map b)")
  case False
  then have "split_single_step_ok H b (orders_after op (live H (plain b)))
      (single_step rehash split_ops H op b)"
    unfolding split_single_step_ok_def using assms
    by (intro split_lv.single_step_correct) (simp_all add: split_single_ok_def op_apart_iff)
  with False show ?thesis by simp
qed (simp add: single_step_moves [OF assms(3)])

lemma single_operation_refines_witness:
  "split_single_step_ok alist_hash_map small_single
     (orders_after (Replace_Order 2 4 30 4999) (live alist_hash_map (plain small_single)))
     (single_step (\<lambda>_ _. False) split_ops alist_hash_map (Replace_Order 2 4 30 4999) small_single)"
proof -
  have "op_valid alist_hash_map (Replace_Order 2 4 30 4999) (orders_map small_single)" by code_simp
  from single_operation_refines [OF alist_hash_map_laws small_single_ok this, of "\<lambda>_ _. False"]
  show ?thesis by (simp add: small_single_pending spsc_capacity_def)
qed

text \<open>
  C21. A book that starts empty with an empty queue, and receives no more operations than the 131071
  its queue has room for, never aborts, if each of them is in order (an order it
  refers to is known and has the quantity, a new one is not known yet, has a quantity and finds fewer
  than \<open>2 ^ 32\<close> others), none is a replace that
  keeps the order's identifier, and no replace's insertion moves the elements of the table. A strategy that reads
  its queue to the end then knows exactly the best bid and the best ask of the book.
\<close>

theorem strategy_sees_best:
  assumes "flat_hash_map_laws H"
    and "single_ops_valid rehash split_ops H ops (single_init split_ops H (spsc_init zero))"
    and "length ops \<le> spsc_capacity"
  shows "\<exists>b. single_run rehash split_ops H ops (single_init split_ops H (spsc_init zero)) = Inr b \<and>
    last_seen Bid (pending b) = single_best_bid split_ops b \<and>
    last_seen Ask (pending b) = single_best_ask split_ops b"
  using split_lv.single_run_correct [OF assms(1) _ _ assms(2)] split_lv.single_init_ok [OF assms(1)] assms(3)
  unfolding in_view_def by fastforce

lemma strategy_sees_best_witness:
  "\<exists>b. single_run (\<lambda>_ _. False) split_ops alist_hash_map small_ops
        (single_init split_ops alist_hash_map (spsc_init no_change)) = Inr b \<and>
    last_seen Bid (pending b) = single_best_bid split_ops b \<and>
    last_seen Ask (pending b) = single_best_ask split_ops b"
proof (rule strategy_sees_best [OF alist_hash_map_laws])
  show "single_ops_valid (\<lambda>_ _. False) split_ops alist_hash_map small_ops
          (single_init split_ops alist_hash_map (spsc_init no_change))"
    by code_simp
  show "length small_ops \<le> spsc_capacity" by (simp add: small_ops_def spsc_capacity_def)
qed

text \<open>
  C29. An operation of a single-strategy book whose sides agree with its orders, on a full queue, that is
  in order (an order it refers to is known and has the quantity, a new one is not known yet, has a
  quantity and finds fewer than \<open>2 ^ 32\<close> others) and is not a replace that keeps the order's identifier.
  If it is a replace whose insertion moves the elements of the table, it goes on to read through a
  dangling reference. Otherwise it aborts, with its own message, exactly when the containers give it a
  best level to report, and returns when they do not.
\<close>

theorem single_full_queue_aborts:
  assumes "flat_hash_map_laws H" and "split_single_ok H b" and "op_valid H op (orders_map b)"
    and "\<not> keeps_id op" and "length (pending b) = spsc_capacity"
  shows "if moves rehash H op (orders_map b)
    then single_step rehash split_ops H op b = Inl Out_Of_Bounds
    else \<exists>ch b'. book_step split_ops H op (plain b) = Inr (ch, b') \<and>
      (if BestLvlChange.side ch = Side_None
       then is_ok (single_step rehash split_ops H op b)
       else single_step rehash split_ops H op b = Inl (Unexpected (blocked_message op)))"
proof (cases "moves rehash H op (orders_map b)")
  case False
  with assms show ?thesis
    using split_lv.single_step_full [of H b op rehash] by (simp add: split_single_ok_def op_apart_iff)
qed (simp add: single_step_moves [OF assms(3)])

definition full_queue :: "BestLvlChange SPSCQueue" where
  "full_queue = \<lparr>buffer = (\<lambda>_. no_change), reader = 0, writer = 131071\<rparr>"

lemma single_full_queue_aborts_witness:
  "\<exists>ch b'. book_step split_ops alist_hash_map (Delete_Order 2) (plain (with_queue full_queue small_book)) = Inr (ch, b') \<and>
    (if BestLvlChange.side ch = Side_None
     then is_ok (single_step (\<lambda>_ _. False) split_ops alist_hash_map (Delete_Order 2) (with_queue full_queue small_book))
     else single_step (\<lambda>_ _. False) split_ops alist_hash_map (Delete_Order 2) (with_queue full_queue small_book) =
       Inl (Unexpected (blocked_message (Delete_Order 2))))"
proof -
  have ok: "split_single_ok alist_hash_map (with_queue full_queue small_book)"
    using small_book_ok
    by (simp add: split_single_ok_def single_ok_def split_book_ok_def full_queue_def spsc_inv_def
        spsc_capacity_def)
  have valid: "op_valid alist_hash_map (Delete_Order 2) (orders_map (with_queue full_queue small_book))"
    by code_simp
  have full: "length (pending (with_queue full_queue small_book)) = spsc_capacity"
    by (simp add: full_queue_def spsc_capacity_def)
  from single_full_queue_aborts [OF alist_hash_map_laws ok valid _ full, of "\<lambda>_ _. False"]
  show ?thesis by simp
qed

text \<open>
  C30. A replace that keeps the order's identifier loses the order: the new order is not inserted
  over the old one, the levels carry the new quantity, and the erase at the end removes the only
  entry, so the book no longer agrees with its orders.
\<close>

theorem single_replace_same_id_loses:
  assumes "flat_hash_map_laws H" and "split_single_ok H b" and "live H (plain b) i = Some ord"
    and "n \<noteq> 0" and "length (pending b) < spsc_capacity"
  shows "\<exists>b'. single_replace_order rehash split_ops H b i i n p = Inr b' \<and>
    live H (plain b') = (live H (plain b))(i := None) \<and> \<not> split_single_ok H b'"
  using split_lv.single_replace_same [OF assms(1) _ assms(3-5)] assms(2)
  unfolding split_single_ok_def by blast

lemma single_replace_same_id_loses_witness:
  "\<exists>b'. single_replace_order (\<lambda>_ _. False) split_ops alist_hash_map small_single 2 2 30 4999 = Inr b' \<and>
    live alist_hash_map (plain b') = (live alist_hash_map (plain small_single))(2 := None) \<and>
    \<not> split_single_ok alist_hash_map b'"
proof (rule single_replace_same_id_loses [OF alist_hash_map_laws small_single_ok])
  show "live alist_hash_map (plain small_single) 2 = Some (mk_order Bid 50 5001)" by code_simp
qed (simp_all add: small_single_pending spsc_capacity_def)

end
