(* ===== verification/Level_Stores.thy ===== *)
theory Level_Stores
  imports Split_Levels
begin

text \<open>
  The contract of the experimental level containers of \<open>include/levels\<close>, which keep the depth of
  one side but do not report changes of the best level. Their common interface is a locale over
  the operations; what a client can observe is the list of answers of \<open>best\<close>, and two containers
  that keep the contract give the same answers.
\<close>

section \<open>The operations\<close>

text \<open>\<open>best\<close> may change the container (the heaps drop dead entries) and may fail.\<close>

record 's store_ops =
  store_init :: "Side \<Rightarrow> 's"
  store_add :: "Side \<Rightarrow> 's \<Rightarrow> Level \<Rightarrow> 's result"
  store_remove :: "Side \<Rightarrow> 's \<Rightarrow> Level \<Rightarrow> 's result"
  store_best :: "Side \<Rightarrow> 's \<Rightarrow> (Level \<times> 's) result"

text \<open>
  \<open>fits d v\<close> says that a container with depth \<open>d\<close> can take the level \<open>v\<close>: some have a fixed
  capacity, and some do not list a price whose quantity is zero.
\<close>

locale depth_store =
  fixes T :: "'s store_ops"
    and depth_of :: "'s \<Rightarrow> depth"
    and invar :: "Side \<Rightarrow> 's \<Rightarrow> bool"
    and fits :: "depth \<Rightarrow> Level \<Rightarrow> bool"
  assumes init_ok: "invar S (store_init T S) \<and> depth_of (store_init T S) = Map.empty"
    and add_ok: "S \<in> {Bid, Ask} \<Longrightarrow> invar S s \<Longrightarrow> fits (depth_of s) v \<Longrightarrow>
      \<exists>s'. store_add T S s v = Inr s' \<and> invar S s' \<and> depth_of s' = spec_add (depth_of s) v"
    and remove_ok: "S \<in> {Bid, Ask} \<Longrightarrow> invar S s \<Longrightarrow> spec_remove (depth_of s) v = Some d \<Longrightarrow>
      \<exists>s'. store_remove T S s v = Inr s' \<and> invar S s' \<and> depth_of s' = d"

text \<open>A removal of more than the level holds is an abort.\<close>

locale checked_store = depth_store +
  assumes remove_abort: "invar S s \<Longrightarrow> spec_remove (depth_of s) v = None \<Longrightarrow>
      \<exists>message. store_remove T S s v = Inl (Unexpected message)"

text \<open>The best level of a side that has one; an empty side is left open here.\<close>

locale level_store = depth_store +
  assumes best_ok: "invar S s \<Longrightarrow> depth_of s \<noteq> Map.empty \<Longrightarrow>
      \<exists>v s'. store_best T S s = Inr (v, s') \<and> is_best S (depth_of s) v \<and> invar S s' \<and>
        depth_of s' = depth_of s"

locale total_store = level_store +
  assumes best_empty: "invar S s \<Longrightarrow> depth_of s = Map.empty \<Longrightarrow>
      \<exists>s'. store_best T S s = Inr (empty_level, s') \<and> invar S s' \<and> depth_of s' = depth_of s"

section \<open>Streams of operations\<close>

datatype level_op = Add_Level Level | Remove_Level Level | Ask_Best

fun store_run :: "'s store_ops \<Rightarrow> Side \<Rightarrow> level_op list \<Rightarrow> 's \<Rightarrow> (Level list \<times> 's) result" where
  "store_run T S [] s = Inr ([], s)"
| "store_run T S (Add_Level v # ops) s = rbind (store_add T S s v) (store_run T S ops)"
| "store_run T S (Remove_Level v # ops) s = rbind (store_remove T S s v) (store_run T S ops)"
| "store_run T S (Ask_Best # ops) s =
     rbind (store_best T S s) (\<lambda>(v, s'). rbind (store_run T S ops s') (\<lambda>(vs, s''). Inr (v # vs, s'')))"

definition store_answers :: "'s store_ops \<Rightarrow> Side \<Rightarrow> level_op list \<Rightarrow> Level list result" where
  "store_answers T S ops = rbind (store_run T S ops (store_init T S)) (\<lambda>(vs, s). Inr vs)"

text \<open>
  The same on the depth: a stream is in order when every added level fits, every removal asks for
  what is there, and \<open>best\<close> is asked of a side that is not empty.
\<close>

fun stream_ok :: "(depth \<Rightarrow> Level \<Rightarrow> bool) \<Rightarrow> level_op list \<Rightarrow> depth \<Rightarrow> bool" where
  "stream_ok fits [] d \<longleftrightarrow> True"
| "stream_ok fits (Add_Level v # ops) d \<longleftrightarrow> fits d v \<and> stream_ok fits ops (spec_add d v)"
| "stream_ok fits (Remove_Level v # ops) d \<longleftrightarrow>
     (case spec_remove d v of None \<Rightarrow> False | Some d' \<Rightarrow> stream_ok fits ops d')"
| "stream_ok fits (Ask_Best # ops) d \<longleftrightarrow> d \<noteq> Map.empty \<and> stream_ok fits ops d"

text \<open>The answers the depth asks for; there is at most one list of them.\<close>

fun best_answers :: "Side \<Rightarrow> level_op list \<Rightarrow> depth \<Rightarrow> Level list \<Rightarrow> bool" where
  "best_answers S [] d vs \<longleftrightarrow> vs = []"
| "best_answers S (Add_Level v # ops) d vs \<longleftrightarrow> best_answers S ops (spec_add d v) vs"
| "best_answers S (Remove_Level v # ops) d vs \<longleftrightarrow>
     (case spec_remove d v of None \<Rightarrow> False | Some d' \<Rightarrow> best_answers S ops d' vs)"
| "best_answers S (Ask_Best # ops) d vs \<longleftrightarrow>
     (case vs of [] \<Rightarrow> False | v # vs' \<Rightarrow> is_best S d v \<and> best_answers S ops d vs')"

lemma best_answers_unique:
  "best_answers S ops d vs \<Longrightarrow> best_answers S ops d ws \<Longrightarrow> vs = ws"
proof (induction S ops d vs arbitrary: ws rule: best_answers.induct)
  case (4 S ops d vs)
  then show ?case by (cases vs; cases ws) (auto intro: is_best_unique)
qed (auto split: option.splits)

lemma stream_ok_mono:
  "stream_ok fits ops d \<Longrightarrow> (\<And>d v. fits d v \<Longrightarrow> fits' d v) \<Longrightarrow> stream_ok fits' ops d"
  by (induction fits ops d rule: stream_ok.induct) (auto split: option.splits)

context level_store
begin

lemma store_run_ok:
  assumes S: "S \<in> {Bid, Ask}" and "invar S s" and "stream_ok fits ops (depth_of s)"
  shows "\<exists>vs s'. store_run T S ops s = Inr (vs, s') \<and> invar S s' \<and>
    best_answers S ops (depth_of s) vs"
  using assms(2,3)
proof (induction ops arbitrary: s)
  case (Cons op ops)
  show ?case
  proof (cases op)
    case (Add_Level v)
    with Cons.prems obtain s' where "store_add T S s v = Inr s'" "invar S s'"
      "depth_of s' = spec_add (depth_of s) v"
      using add_ok [OF S] by fastforce
    with Add_Level Cons.prems(2) Cons.IH [of s'] show ?thesis by simp
  next
    case (Remove_Level v)
    with Cons.prems obtain s' where "store_remove T S s v = Inr s'" "invar S s'"
      "spec_remove (depth_of s) v = Some (depth_of s')"
      using remove_ok [OF S] by (fastforce split: option.splits)
    with Remove_Level Cons.prems(2) Cons.IH [of s'] show ?thesis by simp
  next
    case Ask_Best
    with Cons.prems obtain v s' where b: "store_best T S s = Inr (v, s')" "invar S s'"
      "is_best S (depth_of s) v" "depth_of s' = depth_of s"
      using best_ok by fastforce
    with Ask_Best Cons.prems(2) Cons.IH [OF b(2)] show ?thesis by auto
  qed
qed simp

text \<open>From the empty container the answers are the ones the depth asks for.\<close>

lemma store_answers_ok:
  assumes "S \<in> {Bid, Ask}" and "stream_ok fits ops Map.empty"
  shows "\<exists>vs. store_answers T S ops = Inr vs \<and> best_answers S ops Map.empty vs"
  using store_run_ok [OF assms(1), of "store_init T S" ops] init_ok [of S] assms(2)
  by (auto simp: store_answers_def)

end

text \<open>Any two containers agree on a stream that is in order for both.\<close>

lemma stores_agree:
  assumes "level_store T1 depth1 inv1 fits1" and "level_store T2 depth2 inv2 fits2"
    and "S \<in> {Bid, Ask}" and "stream_ok fits1 ops Map.empty" and "stream_ok fits2 ops Map.empty"
  shows "store_answers T1 S ops = store_answers T2 S ops"
  using level_store.store_answers_ok [OF assms(1,3,4)]
    level_store.store_answers_ok [OF assms(2,3,5)] best_answers_unique by fastforce

section \<open>The reporting containers\<close>

text \<open>A container that also reports is one of these when its reports are dropped.\<close>

definition plain_ops :: "'l levels_ops \<Rightarrow> 'l store_ops" where
  "plain_ops L =
     \<lparr>store_init = levels_init L,
      store_add = (\<lambda>S l v. map_sum id snd (levels_add L S l v)),
      store_remove = (\<lambda>S l v. map_sum id snd (levels_remove L S l v)),
      store_best = (\<lambda>S l. Inr (levels_best L S l, l))\<rparr>"

text \<open>A vector grows as needed: every level fits.\<close>

definition any_level :: "depth \<Rightarrow> Level \<Rightarrow> bool" where
  "any_level d v \<longleftrightarrow> True"

sublocale best_levels \<subseteq> plain: total_store "plain_ops L" depth_of invar any_level
proof
  show "invar S (store_init (plain_ops L) S) \<and> depth_of (store_init (plain_ops L) S) = Map.empty" for S
    using init_ok by (simp add: plain_ops_def)
  show "\<exists>s'. store_add (plain_ops L) S s v = Inr s' \<and> invar S s' \<and> depth_of s' = spec_add (depth_of s) v"
    if "S \<in> {Bid, Ask}" "invar S s" for S s v
    using add_ok [OF that, of v] by (auto simp: plain_ops_def)
  show "\<exists>s'. store_remove (plain_ops L) S s v = Inr s' \<and> invar S s' \<and> depth_of s' = d"
    if "S \<in> {Bid, Ask}" "invar S s" "spec_remove (depth_of s) v = Some d" for S s v d
    using remove_ok [OF that] by (auto simp: plain_ops_def)
  show "\<exists>v s'. store_best (plain_ops L) S s = Inr (v, s') \<and> is_best S (depth_of s) v \<and> invar S s' \<and>
        depth_of s' = depth_of s"
    if "invar S s" for S s
    using best_ok [OF that] that by (simp add: plain_ops_def)
  show "\<exists>s'. store_best (plain_ops L) S s = Inr (empty_level, s') \<and> invar S s' \<and> depth_of s' = depth_of s"
    if "invar S s" "depth_of s = Map.empty" for S s
    using best_ok [OF that(1)] that by (simp add: plain_ops_def is_best_def)
qed

section \<open>Lists of levels in container order\<close>

text \<open>A sorted sequence of \<open>Level\<close>s, read as an association list.\<close>

definition lvl_pair :: "Level \<Rightarrow> u32 \<times> u64" where
  "lvl_pair v = (Level.price v, Level.qty v)"

definition list_depth :: "Level list \<Rightarrow> depth" where
  "list_depth ls = map_of (map lvl_pair ls)"

definition list_inv :: "Side \<Rightarrow> Level list \<Rightarrow> bool" where
  "list_inv S ls \<longleftrightarrow> sorted_levels S (map lvl_pair ls)"

definition search_price :: "Side \<Rightarrow> Level list \<Rightarrow> u32 \<Rightarrow> nat" where
  "search_price S ls p = lower_bound (\<lambda>lhs. lvl_lt S (Level.price lhs)) ls p"

lemma fst_lvl_pair [simp]: "fst (lvl_pair v) = Level.price v" "snd (lvl_pair v) = Level.qty v"
  by (simp_all add: lvl_pair_def)

lemma fst_lvl_pairs: "map fst (map lvl_pair ls) = map Level.price ls"
  by (simp add: comp_def)

text \<open>What the containers do at the place the search found.\<close>

definition add_at :: "nat \<Rightarrow> Level \<Rightarrow> Level list \<Rightarrow> Level list" where
  "add_at idx v ls =
     (if idx \<noteq> length ls \<and> Level.price (ls ! idx) = Level.price v
      then ls[idx := (ls ! idx)\<lparr>Level.qty := Level.qty (ls ! idx) + Level.qty v\<rparr>]
      else vec_insert idx v ls)"

definition remove_at :: "nat \<Rightarrow> Level \<Rightarrow> Level list \<Rightarrow> Level list" where
  "remove_at idx v ls =
     (let ls' = ls[idx := (ls ! idx)\<lparr>Level.qty := Level.qty (ls ! idx) - Level.qty v\<rparr>]
      in if Level.qty (ls' ! idx) = 0 then vec_erase idx ls' else ls')"


lemma lower_bound_loop_map:
  assumes "first + len \<le> length xs"
  shows "lower_bound_loop (\<lambda>x. cmp (f x)) xs v first len = lower_bound_loop cmp (map f xs) v first len"
  using assms
proof (induction len arbitrary: first rule: less_induct)
  case (less len)
  let ?mid = "first + len div 2"
  show ?case
  proof (cases "len = 0")
    case False
    with less.prems have mid: "?mid < length xs" by simp
    have right: "lower_bound_loop (\<lambda>x. cmp (f x)) xs v (?mid + 1) (len - len div 2 - 1) =
        lower_bound_loop cmp (map f xs) v (?mid + 1) (len - len div 2 - 1)"
      using False less.prems by (intro less.IH) auto
    have left: "lower_bound_loop (\<lambda>x. cmp (f x)) xs v first (len div 2) =
        lower_bound_loop cmp (map f xs) v first (len div 2)"
      using False less.prems by (intro less.IH) auto
    show ?thesis
      using False mid right left
      by (subst (1 2) lower_bound_loop.simps) (simp add: Let_def)
  qed (simp add: lower_bound_loop.simps)
qed

lemma search_price_eq: "search_price S ls p = lower_bound (lvl_lt S) (map Level.price ls) p"
  using lower_bound_loop_map [of 0 "length ls" ls "lvl_lt S" Level.price p]
  by (simp add: search_price_def lower_bound_def)

lemma list_sorted: "list_inv S ls \<Longrightarrow> sorted_prices S (map Level.price ls)"
  by (simp add: list_inv_def sorted_levels_def comp_def)

lemma search_price_le: "list_inv S ls \<Longrightarrow> search_price S ls p \<le> length ls"
  using lower_bound_le [OF list_sorted] by (fastforce simp: search_price_eq)

lemma search_price_hit:
  assumes "list_inv S ls"
  shows "p \<in> Level.price ` set ls \<longleftrightarrow>
    search_price S ls p \<noteq> length ls \<and> Level.price (ls ! search_price S ls p) = p"
  using lower_bound_hit [OF list_sorted [OF assms], of p] search_price_le [OF assms, of p]
  by (auto simp: search_price_eq)

lemma list_depth_None: "list_depth ls p = None \<longleftrightarrow> p \<notin> Level.price ` set ls"
  by (auto simp: list_depth_def map_of_eq_None_iff image_iff)

lemma list_depth_nth:
  assumes "list_inv S ls" and "i < length ls" and "Level.price (ls ! i) = p"
  shows "list_depth ls p = Some (Level.qty (ls ! i))"
  unfolding list_depth_def
proof (rule map_of_is_SomeI)
  show "distinct (map fst (map lvl_pair ls))"
    using assms(1) by (simp add: list_inv_def sorted_levels_distinct del: map_map)
  show "(p, Level.qty (ls ! i)) \<in> set (map lvl_pair ls)"
    using assms(2,3) by (auto simp: lvl_pair_def image_iff intro!: bexI [of _ "ls ! i"])
qed

lemma list_found:
  assumes "list_inv S ls"
  shows "list_depth ls p =
    (if search_price S ls p = length ls \<or> Level.price (ls ! search_price S ls p) \<noteq> p then None
     else Some (Level.qty (ls ! search_price S ls p)))"
  using search_price_hit [OF assms, of p] search_price_le [OF assms, of p]
    list_depth_nth [OF assms, of "search_price S ls p" p] list_depth_None [of ls p]
  by auto

lemma list_set_qty:
  assumes "list_inv S ls" and "i < length ls" and "Level.price (ls ! i) = p"
  shows "list_inv S (ls[i := (ls ! i)\<lparr>Level.qty := q\<rparr>]) \<and>
    list_depth (ls[i := (ls ! i)\<lparr>Level.qty := q\<rparr>]) = (list_depth ls)(p \<mapsto> q)"
proof -
  have al: "map lvl_pair (ls[i := (ls ! i)\<lparr>Level.qty := q\<rparr>]) = (map lvl_pair ls)[i := (p, q)]"
    using assms(3) by (simp add: map_update lvl_pair_def)
  show ?thesis
    unfolding list_inv_def list_depth_def al
    using assms sorted_levels_update [of S "map lvl_pair ls" i q]
      map_of_update_at [OF sorted_levels_distinct, of S "map lvl_pair ls" i p q]
    by (simp add: list_inv_def)
qed

lemma add_at_ok:
  assumes "list_inv S ls" and "idx = search_price S ls (Level.price v)"
  shows "list_inv S (add_at idx v ls) \<and> list_depth (add_at idx v ls) = spec_add (list_depth ls) v"
proof (cases "idx \<noteq> length ls \<and> Level.price (ls ! idx) = Level.price v")
  case True
  then have "idx < length ls" using search_price_le [OF assms(1), of "Level.price v"] assms(2) by simp
  with True list_set_qty [OF assms(1), of idx] list_found [OF assms(1), of "Level.price v"] assms(2)
  show ?thesis by (auto simp: add_at_def spec_add_def)
next
  case False
  then have none: "Level.price v \<notin> fst ` set (map lvl_pair ls)" "list_depth ls (Level.price v) = None"
    using search_price_hit [OF assms(1), of "Level.price v"] assms(2) list_depth_None
    by (auto simp: image_image)
  have al: "map lvl_pair (add_at idx v ls) = vec_insert idx (Level.price v, Level.qty v) (map lvl_pair ls)"
    using False by (auto simp: add_at_def map_vec_insert lvl_pair_def)
  show ?thesis
    unfolding list_inv_def list_depth_def al
    using none sorted_levels_insert [of S "map lvl_pair ls" "Level.price v" idx]
      map_of_vec_insert [OF none(1)] assms
    by (simp add: list_inv_def search_price_eq spec_add_def list_depth_def comp_def del: set_map)
qed

lemma remove_at_ok:
  assumes "list_inv S ls" and "idx = search_price S ls (Level.price v)"
    and "spec_remove (list_depth ls) v = Some d"
  shows "idx \<noteq> length ls \<and> Level.price (ls ! idx) = Level.price v \<and>
    Level.qty v \<le> Level.qty (ls ! idx) \<and>
    list_inv S (remove_at idx v ls) \<and> list_depth (remove_at idx v ls) = d"
proof -
  obtain q where q: "list_depth ls (Level.price v) = Some q" "Level.qty v \<le> q"
    and d: "d = (if q - Level.qty v = 0 then (list_depth ls)(Level.price v := None)
              else (list_depth ls)(Level.price v \<mapsto> q - Level.qty v))"
    using assms(3) by (auto simp: spec_remove_Some)
  have hit: "idx \<noteq> length ls" "Level.price (ls ! idx) = Level.price v" "q = Level.qty (ls ! idx)"
    using list_found [OF assms(1), of "Level.price v"] q(1) assms(2) by (auto split: if_splits)
  then have i: "idx < length ls" using search_price_le [OF assms(1), of "Level.price v"] assms(2) by simp
  let ?ls = "ls[idx := (ls ! idx)\<lparr>Level.qty := q - Level.qty v\<rparr>]"
  note set_q = list_set_qty [OF assms(1) i hit(2), of "q - Level.qty v"]
  have erase: "list_inv S (vec_erase idx ?ls) \<and>
      list_depth (vec_erase idx ?ls) = (list_depth ?ls)(Level.price v := None)"
    unfolding list_inv_def list_depth_def map_vec_erase
    using set_q i hit(2) sorted_levels_erase [of S "map lvl_pair ?ls" idx]
      map_of_vec_erase [OF sorted_levels_distinct, of S "map lvl_pair ?ls" idx "Level.price v"]
    by (simp add: list_inv_def)
  have "remove_at idx v ls = (if q - Level.qty v = 0 then vec_erase idx ?ls else ?ls)"
    using i by (simp add: remove_at_def Let_def hit(3))
  with hit q(2) d set_q erase show ?thesis by auto
qed

lemma remove_at_missing:
  assumes "list_inv S ls" and "idx = search_price S ls (Level.price v)"
    and "spec_remove (list_depth ls) v = None"
  shows "idx = length ls \<or> Level.price (ls ! idx) \<noteq> Level.price v \<or> Level.qty (ls ! idx) < Level.qty v"
  using assms list_found [OF assms(1), of "Level.price v"]
  by (auto simp: spec_remove_None split: if_splits)

lemma Level_eta: "\<lparr>Level.qty = Level.qty v, Level.price = Level.price v\<rparr> = v"
  by (cases v) simp

lemma list_is_best:
  assumes "list_inv S ls"
  shows "is_best S (list_depth ls) (if ls = [] then empty_level else last ls)"
  using is_best_last [OF assms [unfolded list_inv_def]]
  by (auto simp: list_depth_def last_map Level_eta)

lemma list_depth_Nil: "list_depth ls = Map.empty \<longleftrightarrow> ls = []"
  by (auto simp: list_depth_def)


section \<open>Linear search\<close>

text \<open>\<open>std::ranges::find_if\<close>, the length of the range where nothing is found.\<close>

fun find_if :: "('a \<Rightarrow> bool) \<Rightarrow> 'a list \<Rightarrow> nat" where
  "find_if P [] = 0"
| "find_if P (x # xs) = (if P x then 0 else Suc (find_if P xs))"

lemma find_if_eq:
  "k \<le> length xs \<Longrightarrow> (\<And>j. j < k \<Longrightarrow> \<not> P (xs ! j)) \<Longrightarrow> (k < length xs \<Longrightarrow> P (xs ! k)) \<Longrightarrow> find_if P xs = k"
proof (induction xs arbitrary: k)
  case (Cons x xs)
  show ?case
  proof (cases k)
    case 0
    with Cons.prems(3) show ?thesis by simp
  next
    case (Suc j)
    have "find_if P xs = j"
    proof (rule Cons.IH)
      show "\<not> P (xs ! i)" if "i < j" for i using Cons.prems(2) [of "Suc i"] that Suc by simp
    qed (use Cons.prems Suc in auto)
    with Suc Cons.prems(2) [of 0] show ?thesis by simp
  qed
qed simp

text \<open>Where a price stands in a sorted list, told from the front.\<close>

lemma search_price_before:
  "list_inv S ls \<Longrightarrow> i < length ls \<Longrightarrow> lvl_lt S (Level.price (ls ! i)) p \<longleftrightarrow> i < search_price S ls p"
  using sorted_prices_partition [OF list_sorted, of S ls p]
  by (simp add: partition_point_def search_price_eq lower_bound_sorted [OF list_sorted])

lemma search_price_nth_eq:
  assumes "list_inv S ls" and "i < length ls"
  shows "Level.price (ls ! i) = p \<longleftrightarrow>
    i = search_price S ls p \<and> Level.price (ls ! search_price S ls p) = p"
proof -
  have "distinct (map Level.price ls)" using list_sorted [OF assms(1)] by (rule sorted_prices_distinct)
  then have "i = search_price S ls p"
    if "Level.price (ls ! i) = p" "search_price S ls p \<noteq> length ls" "Level.price (ls ! search_price S ls p) = p"
    using that assms(2) search_price_le [OF assms(1), of p]
      nth_eq_iff_index_eq [of "map Level.price ls" i "search_price S ls p"] by simp
  moreover have "p \<in> Level.price ` set ls" if "Level.price (ls ! i) = p"
    using that assms(2) by auto
  ultimately show ?thesis
    using search_price_hit [OF assms(1), of p] by blast
qed

text \<open>Whether the search found the price.\<close>

definition price_hit :: "Side \<Rightarrow> Level list \<Rightarrow> u32 \<Rightarrow> bool" where
  "price_hit S ls p \<longleftrightarrow>
     search_price S ls p \<noteq> length ls \<and> Level.price (ls ! search_price S ls p) = p"

lemma price_hit_less: "list_inv S ls \<Longrightarrow> price_hit S ls p \<Longrightarrow> search_price S ls p < length ls"
  using search_price_le [of S ls p] by (auto simp: price_hit_def)

lemma search_price_after:
  assumes "list_inv S ls" and "i < length ls"
  shows "lvl_lt S p (Level.price (ls ! i)) \<longleftrightarrow>
    search_price S ls p \<le> i \<and> \<not> (price_hit S ls p \<and> i = search_price S ls p)"
  using search_price_before [OF assms, of p] search_price_nth_eq [OF assms, of p] assms(2)
    not_lvl_lt [of S "Level.price (ls ! i)" p] lvl_lt_asym [of S p "Level.price (ls ! i)"]
  by (auto simp: price_hit_def)

text \<open>The reverse searches of the linear containers find the same place.\<close>

lemma find_price_rev:
  assumes "list_inv S ls"
  shows "find_if (\<lambda>x. Level.price x = p) (rev ls) =
    (if price_hit S ls p then length ls - 1 - search_price S ls p else length ls)"
proof (rule find_if_eq)
  let ?k = "if price_hit S ls p then length ls - 1 - search_price S ls p else length ls"
  show "?k \<le> length (rev ls)" by simp
  show "Level.price (rev ls ! j) \<noteq> p" if "j < ?k" for j
    using that search_price_nth_eq [OF assms, of "length ls - Suc j" p] price_hit_less [OF assms, of p]
    by (auto simp: rev_nth price_hit_def split: if_splits)
  show "Level.price (rev ls ! ?k) = p" if "?k < length (rev ls)"
    using that price_hit_less [OF assms, of p] by (auto simp: rev_nth price_hit_def split: if_splits)
qed

lemma find_not_after_rev:
  assumes "list_inv S ls"
  shows "find_if (\<lambda>x. \<not> lvl_lt S p (Level.price x)) (rev ls) =
    (if price_hit S ls p then length ls - 1 - search_price S ls p else length ls - search_price S ls p)"
proof (rule find_if_eq)
  let ?s = "search_price S ls p"
  let ?k = "if price_hit S ls p then length ls - 1 - ?s else length ls - ?s"
  note le = search_price_le [OF assms, of p] and hit = price_hit_less [OF assms, of p]
  show "?k \<le> length (rev ls)" by simp
  show "\<not> \<not> lvl_lt S p (Level.price (rev ls ! j))" if "j < ?k" for j
    using that search_price_after [OF assms, of "length ls - Suc j" p] le
    by (auto simp: rev_nth split: if_splits)
  show "\<not> lvl_lt S p (Level.price (rev ls ! ?k))" if "?k < length (rev ls)"
    using that search_price_after [OF assms, of "length ls - Suc ?k" p] le hit
    by (auto simp: rev_nth split: if_splits)
qed

lemma find_not_before:
  assumes "list_inv S ls"
  shows "find_if (\<lambda>x. \<not> lvl_lt S (Level.price x) p) ls = search_price S ls p"
  using search_price_le [OF assms, of p] search_price_before [OF assms, of _ p]
  by (intro find_if_eq) auto

end
