(* ===== verification/Vector_Levels.thy ===== *)
theory Vector_Levels
  imports Level_Stores
begin

text \<open>
  The containers over one sorted \<open>std::vector<Level>\<close>: \<open>include/levels/vector_level_b_search.hpp\<close>
  with a binary search, and \<open>include/levels/vector_level.hpp\<close> with linear searches from the back.
  Both keep the contract of a level container, and on a sorted vector they do the same.
\<close>

section \<open>Binary search\<close>

record VectorLevelBSearch =
  levels :: "Level list"

definition vb_init :: "Side \<Rightarrow> VectorLevelBSearch" where
  "vb_init S = \<lparr>VectorLevelBSearch.levels = []\<rparr>"

definition vb_best :: "Side \<Rightarrow> VectorLevelBSearch \<Rightarrow> (Level \<times> VectorLevelBSearch) result" where
  "vb_best S l =
     Inr (if VectorLevelBSearch.levels l \<noteq> [] then last (VectorLevelBSearch.levels l)
          else \<lparr>Level.qty = 0, Level.price = 0\<rparr>, l)"

definition vb_remove :: "Side \<Rightarrow> VectorLevelBSearch \<Rightarrow> Level \<Rightarrow> VectorLevelBSearch result" where
  "vb_remove S l level =
     (let ls = VectorLevelBSearch.levels l;
          it = search_price S ls (Level.price level)
      in rbind (UNEXPECTED (it = length ls \<or> Level.price (ls ! it) \<noteq> Level.price level)
                 ''Remove didn't find a level'') (\<lambda>_.
         rbind (UNEXPECTED (Level.qty level > Level.qty (ls ! it))
                 ''Remove lead to an underflow for level'') (\<lambda>_.
         Inr (l\<lparr>VectorLevelBSearch.levels := remove_at it level ls\<rparr>))))"

definition vb_add :: "Side \<Rightarrow> VectorLevelBSearch \<Rightarrow> Level \<Rightarrow> VectorLevelBSearch result" where
  "vb_add S l level =
     (let ls = VectorLevelBSearch.levels l;
          it = search_price S ls (Level.price level)
      in Inr (l\<lparr>VectorLevelBSearch.levels := add_at it level ls\<rparr>))"

definition vb_ops :: "VectorLevelBSearch store_ops" where
  "vb_ops =
     \<lparr>store_init = vb_init, store_add = vb_add, store_remove = vb_remove, store_best = vb_best\<rparr>"

definition vb_depth :: "VectorLevelBSearch \<Rightarrow> depth" where
  "vb_depth l = list_depth (VectorLevelBSearch.levels l)"

definition vb_inv :: "Side \<Rightarrow> VectorLevelBSearch \<Rightarrow> bool" where
  "vb_inv S l \<longleftrightarrow> list_inv S (VectorLevelBSearch.levels l)"

lemma list_Nil_ok [simp]: "list_inv S []" "list_depth [] = Map.empty"
  by (simp_all add: list_inv_def list_depth_def)

interpretation vb: total_store vb_ops vb_depth vb_inv any_level
proof
  show "vb_inv S (store_init vb_ops S) \<and> vb_depth (store_init vb_ops S) = Map.empty" for S
    by (simp add: vb_ops_def vb_inv_def vb_depth_def vb_init_def)
  show "\<exists>s'. store_add vb_ops S s v = Inr s' \<and> vb_inv S s' \<and> vb_depth s' = spec_add (vb_depth s) v"
    if "vb_inv S s" for S s v
    using that add_at_ok [OF _ refl, of S "VectorLevelBSearch.levels s" v]
    by (simp add: vb_ops_def vb_inv_def vb_depth_def vb_add_def Let_def)
  show "\<exists>s'. store_remove vb_ops S s v = Inr s' \<and> vb_inv S s' \<and> vb_depth s' = d"
    if "vb_inv S s" "spec_remove (vb_depth s) v = Some d" for S s v d
    using that remove_at_ok [OF _ refl, of S "VectorLevelBSearch.levels s" v d]
    by (simp add: vb_ops_def vb_inv_def vb_depth_def vb_remove_def Let_def UNEXPECTED_bind leD)
  show "\<exists>v s'. store_best vb_ops S s = Inr (v, s') \<and> is_best S (vb_depth s) v \<and> vb_inv S s' \<and>
        vb_depth s' = vb_depth s"
    if "vb_inv S s" "vb_depth s \<noteq> Map.empty" for S s
    using that list_is_best [of S "VectorLevelBSearch.levels s"]
    by (auto simp: vb_ops_def vb_inv_def vb_depth_def vb_best_def)
  show "\<exists>s'. store_best vb_ops S s = Inr (empty_level, s') \<and> vb_inv S s' \<and> vb_depth s' = vb_depth s"
    if "vb_inv S s" "vb_depth s = Map.empty" for S s
    using that by (simp add: vb_ops_def vb_depth_def vb_best_def list_depth_Nil empty_level_def)
qed

interpretation vb_checked: checked_store vb_ops vb_depth vb_inv any_level
proof
  show "\<exists>message. store_remove vb_ops S s v = Inl (Unexpected message)"
    if "vb_inv S s" "spec_remove (vb_depth s) v = None" for S s v
    using that remove_at_missing [OF _ refl, of S "VectorLevelBSearch.levels s" v]
    by (auto simp: vb_ops_def vb_inv_def vb_depth_def vb_remove_def Let_def UNEXPECTED_bind)
qed

section \<open>Linear search\<close>

record VectorLevel =
  levels :: "Level list"

definition vl_init :: "Side \<Rightarrow> VectorLevel" where
  "vl_init S = \<lparr>VectorLevel.levels = []\<rparr>"

text \<open>\<open>back()\<close> of an empty vector is undefined.\<close>

definition vl_best :: "Side \<Rightarrow> VectorLevel \<Rightarrow> (Level \<times> VectorLevel) result" where
  "vl_best S l =
     (if VectorLevel.levels l = [] then Inl Out_Of_Bounds else Inr (last (VectorLevel.levels l), l))"

text \<open>
  \<open>rit\<close> counts from the back: the element \<open>rit\<close> points to has the index \<open>length ls - 1 - rit\<close>,
  which is also \<open>std::next(rit).base()\<close>, and \<open>rit.base()\<close> is the index \<open>length ls - rit\<close>.
\<close>

definition vl_remove :: "Side \<Rightarrow> VectorLevel \<Rightarrow> Level \<Rightarrow> VectorLevel result" where
  "vl_remove S l level =
     (let ls = VectorLevel.levels l;
          rit = find_if (\<lambda>p. Level.price p = Level.price level) (rev ls);
          i = length ls - 1 - rit
      in rbind (UNEXPECTED (rit = length ls) ''Remove didn't find a level'') (\<lambda>_.
         rbind (UNEXPECTED (Level.qty level > Level.qty (ls ! i))
                 ''Remove lead to an underflow for level'') (\<lambda>_.
         let ls' = ls[i := (ls ! i)\<lparr>Level.qty := Level.qty (ls ! i) - Level.qty level\<rparr>]
         in Inr (l\<lparr>VectorLevel.levels := (if Level.qty (ls' ! i) = 0 then vec_erase i ls' else ls')\<rparr>))))"

definition vl_add :: "Side \<Rightarrow> VectorLevel \<Rightarrow> Level \<Rightarrow> VectorLevel result" where
  "vl_add S l level =
     (let ls = VectorLevel.levels l;
          rit = find_if (\<lambda>p. if S = Bid then Level.price p \<le> Level.price level
                             else Level.price p \<ge> Level.price level) (rev ls);
          i = length ls - 1 - rit
      in Inr (l\<lparr>VectorLevel.levels :=
           (if rit \<noteq> length ls \<and> Level.price (ls ! i) = Level.price level
            then ls[i := (ls ! i)\<lparr>Level.qty := Level.qty (ls ! i) + Level.qty level\<rparr>]
            else vec_insert (length ls - rit) level ls)\<rparr>))"

definition vl_ops :: "VectorLevel store_ops" where
  "vl_ops =
     \<lparr>store_init = vl_init, store_add = vl_add, store_remove = vl_remove, store_best = vl_best\<rparr>"

definition vl_depth :: "VectorLevel \<Rightarrow> depth" where
  "vl_depth l = list_depth (VectorLevel.levels l)"

definition vl_inv :: "Side \<Rightarrow> VectorLevel \<Rightarrow> bool" where
  "vl_inv S l \<longleftrightarrow> list_inv S (VectorLevel.levels l)"

lemma not_after_eq:
  "(\<lambda>p. if S = Bid then Level.price p \<le> q else Level.price p \<ge> q) = (\<lambda>p. \<not> lvl_lt S q (Level.price p))"
  by (auto simp: lvl_lt_def fun_eq_iff)

lemma vl_add_eq:
  assumes "vl_inv S l"
  shows "vl_add S l v = Inr (l\<lparr>VectorLevel.levels :=
    add_at (search_price S (VectorLevel.levels l) (Level.price v)) v (VectorLevel.levels l)\<rparr>)"
proof -
  let ?ls = "VectorLevel.levels l"
  let ?s = "search_price S ?ls (Level.price v)"
  have inv: "list_inv S ?ls" using assms by (simp add: vl_inv_def)
  have f: "find_if (\<lambda>p. if S = Bid then Level.price p \<le> Level.price v
      else Level.price p \<ge> Level.price v) (rev ?ls) =
    (if price_hit S ?ls (Level.price v) then length ?ls - 1 - ?s else length ?ls - ?s)"
    unfolding not_after_eq by (rule find_not_after_rev [OF inv])
  show ?thesis
  proof (cases "price_hit S ?ls (Level.price v)")
    case True
    with price_hit_less [OF inv True] show ?thesis
      by (simp add: vl_add_def f Let_def add_at_def price_hit_def)
  next
    case False
    have le: "?s \<le> length ?ls" by (rule search_price_le [OF inv])
    have "Level.price (?ls ! (?s - 1)) \<noteq> Level.price v" if "0 < ?s"
    proof -
      have "?s - 1 \<noteq> ?s" and "?s - 1 < length ?ls" using that le by linarith+
      then show ?thesis using search_price_nth_eq [OF inv, of "?s - 1" "Level.price v"] by blast
    qed
    moreover have "length ?ls - 1 - (length ?ls - ?s) = ?s - 1" if "0 < ?s"
      using that le by simp
    ultimately have miss: "\<not> (length ?ls - ?s \<noteq> length ?ls \<and>
        Level.price (?ls ! (length ?ls - 1 - (length ?ls - ?s))) = Level.price v)"
      by (metis diff_zero gr0I)
    have sub: "length ?ls - (length ?ls - ?s) = ?s" using le by simp
    have "add_at ?s v ?ls = vec_insert ?s v ?ls"
      using False by (auto simp: add_at_def price_hit_def)
    then show ?thesis
      unfolding vl_add_def Let_def f if_not_P [OF False] if_not_P [OF miss] sub by simp
  qed
qed

lemma vl_remove_eq:
  assumes "vl_inv S l"
  shows "vl_remove S l v =
    map_sum id (\<lambda>l'. l\<lparr>VectorLevel.levels := VectorLevelBSearch.levels l'\<rparr>)
      (vb_remove S \<lparr>VectorLevelBSearch.levels = VectorLevel.levels l\<rparr> v)"
proof -
  let ?ls = "VectorLevel.levels l"
  have inv: "list_inv S ?ls" using assms by (simp add: vl_inv_def)
  note f = find_price_rev [OF inv, of "Level.price v"]
  show ?thesis
  proof (cases "price_hit S ?ls (Level.price v)")
    case True
    then have "search_price S ?ls (Level.price v) < length ?ls" by (rule price_hit_less [OF inv])
    with True show ?thesis
      by (simp add: vl_remove_def vb_remove_def f Let_def remove_at_def price_hit_def UNEXPECTED_bind)
  next
    case False
    then show ?thesis
      by (auto simp: vl_remove_def vb_remove_def f Let_def price_hit_def UNEXPECTED_bind)
  qed
qed


text \<open>The same sorted vector in the other container.\<close>

definition as_vb :: "VectorLevel \<Rightarrow> VectorLevelBSearch" where
  "as_vb l = \<lparr>VectorLevelBSearch.levels = VectorLevel.levels l\<rparr>"

definition as_vl :: "VectorLevelBSearch result \<Rightarrow> VectorLevel result" where
  "as_vl = map_sum id (\<lambda>l. \<lparr>VectorLevel.levels = VectorLevelBSearch.levels l\<rparr>)"

lemma as_vb_sel [simp]:
  "VectorLevelBSearch.levels (as_vb l) = VectorLevel.levels l"
  "vb_inv S (as_vb l) = vl_inv S l" "vb_depth (as_vb l) = vl_depth l"
  by (simp_all add: as_vb_def vb_inv_def vl_inv_def vb_depth_def vl_depth_def)

lemma vl_upd [simp]: "l\<lparr>VectorLevel.levels := ls\<rparr> = \<lparr>VectorLevel.levels = ls\<rparr>"
  by (cases l) simp

lemma vl_as_vb:
  assumes "vl_inv S l"
  shows "vl_add S l v = as_vl (vb_add S (as_vb l) v)"
    and "vl_remove S l v = as_vl (vb_remove S (as_vb l) v)"
  using vl_add_eq [OF assms, of v] vl_remove_eq [OF assms, of v]
  by (simp_all add: as_vl_def vb_add_def as_vb_def Let_def)

lemma as_vl_Inr:
  "vb_inv S l \<Longrightarrow> vb_depth l = d \<Longrightarrow> \<exists>l'. as_vl (Inr l) = Inr l' \<and> vl_inv S l' \<and> vl_depth l' = d"
  by (simp add: as_vl_def vl_inv_def vl_depth_def vb_inv_def vb_depth_def)

interpretation vl: level_store vl_ops vl_depth vl_inv any_level
proof
  show "vl_inv S (store_init vl_ops S) \<and> vl_depth (store_init vl_ops S) = Map.empty" for S
    by (simp add: vl_ops_def vl_inv_def vl_depth_def vl_init_def)
  show "\<exists>s'. store_add vl_ops S s v = Inr s' \<and> vl_inv S s' \<and> vl_depth s' = spec_add (vl_depth s) v"
    if a: "vl_inv S s" "any_level (vl_depth s) v" "S \<in> {Bid, Ask}" for S s v
  proof -
    obtain l where l: "vb_add S (as_vb s) v = Inr l" "vb_inv S l" "vb_depth l = spec_add (vl_depth s) v"
      using vb.add_ok [OF a(3), of "as_vb s" v] a(1,2) by (auto simp: vb_ops_def)
    from as_vl_Inr [OF l(2,3)] show ?thesis
      by (simp add: vl_ops_def vl_as_vb(1) [OF a(1)] l(1))
  qed
  show "\<exists>s'. store_remove vl_ops S s v = Inr s' \<and> vl_inv S s' \<and> vl_depth s' = d"
    if a: "vl_inv S s" "spec_remove (vl_depth s) v = Some d" "S \<in> {Bid, Ask}" for S s v d
  proof -
    obtain l where l: "vb_remove S (as_vb s) v = Inr l" "vb_inv S l" "vb_depth l = d"
      using vb.remove_ok [OF a(3), of "as_vb s" v d] a(1,2) by (auto simp: vb_ops_def)
    from as_vl_Inr [OF l(2,3)] show ?thesis
      by (simp add: vl_ops_def vl_as_vb(2) [OF a(1)] l(1))
  qed
  show "\<exists>v s'. store_best vl_ops S s = Inr (v, s') \<and> is_best S (vl_depth s) v \<and> vl_inv S s' \<and>
        vl_depth s' = vl_depth s"
    if "vl_inv S s" "vl_depth s \<noteq> Map.empty" for S s
    using that list_is_best [of S "VectorLevel.levels s"]
    by (auto simp: vl_ops_def vl_inv_def vl_depth_def vl_best_def)
qed

interpretation vl_checked: checked_store vl_ops vl_depth vl_inv any_level
proof
  show "\<exists>message. store_remove vl_ops S s v = Inl (Unexpected message)"
    if "vl_inv S s" "spec_remove (vl_depth s) v = None" for S s v
    using vb_checked.remove_abort [of S "as_vb s" v] that
    by (auto simp: vl_ops_def vb_ops_def vl_as_vb [OF that(1)] as_vl_def)
qed

section \<open>Properties\<close>

text \<open>
  C28. On a sorted vector the linear searches from the back find the place the binary search finds:
  \<open>add\<close> and \<open>remove\<close> of \<open>VectorLevel\<close> return, or abort with the same message, exactly what those of
  \<open>VectorLevelBSearch\<close> do. Their \<open>best\<close> differs on the empty side alone, where \<open>VectorLevel\<close> reads
  outside its vector.
\<close>

theorem linear_search_is_binary_search:
  assumes "vl_inv S l"
  shows "vl_add S l v = as_vl (vb_add S (as_vb l) v) \<and>
    vl_remove S l v = as_vl (vb_remove S (as_vb l) v) \<and>
    vl_best S l = (if VectorLevel.levels l = [] then Inl Out_Of_Bounds
                   else map_sum id (map_prod id (\<lambda>_. l)) (vb_best S (as_vb l)))"
  using vl_as_vb [OF assms] by (simp add: vl_best_def vb_best_def)

lemma linear_search_is_binary_search_witness:
  "vl_add Bid \<lparr>VectorLevel.levels = [\<lparr>Level.qty = 5, Level.price = 10\<rparr>, \<lparr>Level.qty = 7, Level.price = 20\<rparr>]\<rparr>
       \<lparr>Level.qty = 1, Level.price = 15\<rparr> =
     as_vl (vb_add Bid (as_vb \<lparr>VectorLevel.levels =
       [\<lparr>Level.qty = 5, Level.price = 10\<rparr>, \<lparr>Level.qty = 7, Level.price = 20\<rparr>]\<rparr>)
       \<lparr>Level.qty = 1, Level.price = 15\<rparr>)"
proof -
  have "vl_inv Bid \<lparr>VectorLevel.levels =
      [\<lparr>Level.qty = 5, Level.price = 10\<rparr>, \<lparr>Level.qty = 7, Level.price = 20\<rparr>]\<rparr>"
    by (simp add: vl_inv_def list_inv_def sorted_levels_Cons lvl_lt_def lvl_pair_def)
  from linear_search_is_binary_search [OF this] show ?thesis by blast
qed

end
