(* ===== verification/Array_Levels.thy ===== *)
theory Array_Levels
  imports Vector_Levels
begin

text \<open>
  The containers over a fixed array of 3000 levels: \<open>include/levels/array_level.hpp\<close> with linear
  searches and \<open>include/levels/array_level_binary_search.hpp\<close> with a binary search. The first
  \<open>size\<close> slots are the sorted vector of the previous theory, kept by moving slots one place.
\<close>

section \<open>Moving slots\<close>

text \<open>An array is the function from indices to slots; \<open>live n a\<close> are its first \<open>n\<close> slots.\<close>

definition live_slots :: "nat \<Rightarrow> (nat \<Rightarrow> Level) \<Rightarrow> Level list" where
  "live_slots n a = map a [0..<n]"

text \<open>\<open>std::move(it + 1, e, it)\<close> and \<open>std::move_backward(it, e, e + 1)\<close>.\<close>

definition move_left :: "nat \<Rightarrow> nat \<Rightarrow> (nat \<Rightarrow> Level) \<Rightarrow> nat \<Rightarrow> Level" where
  "move_left it e a = (\<lambda>j. if it \<le> j \<and> Suc j < e then a (Suc j) else a j)"

definition move_right :: "nat \<Rightarrow> nat \<Rightarrow> (nat \<Rightarrow> Level) \<Rightarrow> nat \<Rightarrow> Level" where
  "move_right it e a = (\<lambda>j. if it < j \<and> j \<le> e then a (j - 1) else a j)"

lemma length_live_slots [simp]: "length (live_slots n a) = n"
  by (simp add: live_slots_def)

lemma live_slots_nth [simp]: "i < n \<Longrightarrow> live_slots n a ! i = a i"
  by (simp add: live_slots_def)

lemma live_slots_Nil [simp]: "live_slots 0 a = []"
  by (simp add: live_slots_def)

lemma live_slots_eq_Nil [simp]: "live_slots n a = [] \<longleftrightarrow> n = 0"
  by (simp add: live_slots_def)

lemma live_slots_update: "i < n \<Longrightarrow> live_slots n (a(i := v)) = (live_slots n a)[i := v]"
  by (rule nth_equalityI) (auto simp: nth_list_update)

lemma live_slots_erase: "it < n \<Longrightarrow> live_slots (n - Suc 0) (move_left it n a) = vec_erase it (live_slots n a)"
  by (rule nth_equalityI) (auto simp: vec_erase_def move_left_def nth_append)

lemma live_slots_insert:
  "it \<le> n \<Longrightarrow> live_slots (Suc n) ((move_right it n a)(it := v)) = vec_insert it v (live_slots n a)"
  by (rule nth_equalityI)
     (auto simp: vec_insert_def move_right_def nth_append nth_Cons' less_Suc_eq_le)

text \<open>The slots an operation may not touch.\<close>

definition outside :: "(nat \<Rightarrow> Level) \<Rightarrow> nat \<Rightarrow> Level" where
  "outside a = (\<lambda>j. a (3000 + j))"

lemma outside_update [simp]: "i < 3000 \<Longrightarrow> outside (a(i := v)) = outside a"
  by (auto simp: outside_def fun_eq_iff)

lemma outside_move [simp]:
  "n < 3000 \<Longrightarrow> outside (move_right it n a) = outside a"
  "n \<le> 3000 \<Longrightarrow> outside (move_left it n a) = outside a"
  by (auto simp: outside_def move_right_def move_left_def fun_eq_iff)

section \<open>Binary search\<close>

record ArrayLevelBSearch =
  levels :: "nat \<Rightarrow> Level"
  count :: nat

definition capacity :: nat where
  "capacity = 3000"

definition ab_init :: "Side \<Rightarrow> ArrayLevelBSearch" where
  "ab_init S = \<lparr>ArrayLevelBSearch.levels = (\<lambda>_. empty_level), count = 0\<rparr>"

text \<open>With \<open>size == 0\<close> the index \<open>size - 1\<close> is the largest \<open>size_t\<close>.\<close>

definition ab_best :: "Side \<Rightarrow> ArrayLevelBSearch \<Rightarrow> (Level \<times> ArrayLevelBSearch) result" where
  "ab_best S l =
     (if count l = 0 then Inl Out_Of_Bounds
      else Inr (ArrayLevelBSearch.levels l (count l - 1), l))"

definition ab_remove :: "Side \<Rightarrow> ArrayLevelBSearch \<Rightarrow> Level \<Rightarrow> ArrayLevelBSearch result" where
  "ab_remove S l level =
     (let a = ArrayLevelBSearch.levels l; e = count l;
          it = search_price S (live_slots e a) (Level.price level)
      in rbind (UNEXPECTED (it = e \<or> Level.price (a it) \<noteq> Level.price level)
                 ''Remove didn't find a level'') (\<lambda>_.
         rbind (UNEXPECTED (Level.qty level > Level.qty (a it))
                 ''Remove lead to an underflow for level'') (\<lambda>_.
         let a' = a(it := (a it)\<lparr>Level.qty := Level.qty (a it) - Level.qty level\<rparr>)
         in Inr (if Level.qty (a' it) = 0
                 then l\<lparr>ArrayLevelBSearch.levels := move_left it e a', count := e - 1\<rparr>
                 else l\<lparr>ArrayLevelBSearch.levels := a'\<rparr>))))"

definition ab_add :: "Side \<Rightarrow> ArrayLevelBSearch \<Rightarrow> Level \<Rightarrow> ArrayLevelBSearch result" where
  "ab_add S l level =
     rbind (UNEXPECTED (count l = capacity) ''ArrayLevelBSearch capacity exceeded'') (\<lambda>_.
       let a = ArrayLevelBSearch.levels l; e = count l;
           it = search_price S (live_slots e a) (Level.price level)
       in Inr (if it \<noteq> e \<and> Level.price (a it) = Level.price level
               then l\<lparr>ArrayLevelBSearch.levels :=
                        a(it := (a it)\<lparr>Level.qty := Level.qty (a it) + Level.qty level\<rparr>)\<rparr>
               else l\<lparr>ArrayLevelBSearch.levels := (move_right it e a)(it := level), count := e + 1\<rparr>))"

definition ab_ops :: "ArrayLevelBSearch store_ops" where
  "ab_ops =
     \<lparr>store_init = ab_init, store_add = ab_add, store_remove = ab_remove, store_best = ab_best\<rparr>"

definition ab_live :: "ArrayLevelBSearch \<Rightarrow> Level list" where
  "ab_live l = live_slots (count l) (ArrayLevelBSearch.levels l)"

definition ab_inv :: "Side \<Rightarrow> ArrayLevelBSearch \<Rightarrow> bool" where
  "ab_inv S l \<longleftrightarrow> list_inv S (ab_live l) \<and> count l \<le> capacity"

definition ab_depth :: "ArrayLevelBSearch \<Rightarrow> depth" where
  "ab_depth l = list_depth (ab_live l)"

section \<open>Linear search\<close>

record ArrayLevel =
  levels :: "nat \<Rightarrow> Level"
  count :: nat

definition al_init :: "Side \<Rightarrow> ArrayLevel" where
  "al_init S = \<lparr>ArrayLevel.levels = (\<lambda>_. empty_level), count = 0\<rparr>"

definition al_best :: "Side \<Rightarrow> ArrayLevel \<Rightarrow> (Level \<times> ArrayLevel) result" where
  "al_best S l =
     (if ArrayLevel.count l = 0 then Inl Out_Of_Bounds
      else Inr (ArrayLevel.levels l (ArrayLevel.count l - 1), l))"

definition al_remove :: "Side \<Rightarrow> ArrayLevel \<Rightarrow> Level \<Rightarrow> ArrayLevel result" where
  "al_remove S l level =
     (let a = ArrayLevel.levels l; e = ArrayLevel.count l;
          rit = find_if (\<lambda>p. Level.price p = Level.price level) (rev (live_slots e a));
          it = e - 1 - rit
      in rbind (UNEXPECTED (rit = e) ''Remove didn't find a level'') (\<lambda>_.
         rbind (UNEXPECTED (Level.qty level > Level.qty (a it))
                 ''Remove lead to an underflow for level'') (\<lambda>_.
         let a' = a(it := (a it)\<lparr>Level.qty := Level.qty (a it) - Level.qty level\<rparr>)
         in Inr (if Level.qty (a' it) = 0
                 then l\<lparr>ArrayLevel.levels := move_left it e a', count := e - 1\<rparr>
                 else l\<lparr>ArrayLevel.levels := a'\<rparr>))))"

definition al_add :: "Side \<Rightarrow> ArrayLevel \<Rightarrow> Level \<Rightarrow> ArrayLevel result" where
  "al_add S l level =
     rbind (UNEXPECTED (ArrayLevel.count l = capacity) ''ArrayLevel capacity exceeded'') (\<lambda>_.
       let a = ArrayLevel.levels l; e = ArrayLevel.count l;
           it = find_if (\<lambda>p. if S = Bid then Level.price p \<ge> Level.price level
                             else Level.price p \<le> Level.price level) (live_slots e a)
       in Inr (if it \<noteq> e \<and> Level.price (a it) = Level.price level
               then l\<lparr>ArrayLevel.levels :=
                        a(it := (a it)\<lparr>Level.qty := Level.qty (a it) + Level.qty level\<rparr>)\<rparr>
               else l\<lparr>ArrayLevel.levels := (move_right it e a)(it := level), count := e + 1\<rparr>))"

definition al_ops :: "ArrayLevel store_ops" where
  "al_ops =
     \<lparr>store_init = al_init, store_add = al_add, store_remove = al_remove, store_best = al_best\<rparr>"

text \<open>The same array in the other container.\<close>

definition as_ab :: "ArrayLevel \<Rightarrow> ArrayLevelBSearch" where
  "as_ab l = \<lparr>ArrayLevelBSearch.levels = ArrayLevel.levels l, count = ArrayLevel.count l\<rparr>"

definition as_al :: "ArrayLevelBSearch \<Rightarrow> ArrayLevel" where
  "as_al l = \<lparr>ArrayLevel.levels = ArrayLevelBSearch.levels l, count = ArrayLevelBSearch.count l\<rparr>"

definition al_inv :: "Side \<Rightarrow> ArrayLevel \<Rightarrow> bool" where
  "al_inv S l \<longleftrightarrow> ab_inv S (as_ab l)"

definition al_depth :: "ArrayLevel \<Rightarrow> depth" where
  "al_depth l = ab_depth (as_ab l)"

lemma as_ab_al [simp]: "as_ab (as_al b) = b" "as_al (as_ab l) = l"
  by (simp_all add: as_ab_def as_al_def)


lemma as_ab_sel [simp]:
  "ArrayLevelBSearch.levels (as_ab l) = ArrayLevel.levels l"
  "ArrayLevelBSearch.count (as_ab l) = ArrayLevel.count l"
  "ArrayLevel.levels (as_al b) = ArrayLevelBSearch.levels b"
  "ArrayLevel.count (as_al b) = ArrayLevelBSearch.count b"
  by (simp_all add: as_ab_def as_al_def)

section \<open>The array as a sorted vector\<close>

lemma ab_add_vector:
  assumes inv: "ab_inv S l" and room: "ArrayLevelBSearch.count l \<noteq> capacity"
  shows "\<exists>l'. ab_add S l v = Inr l' \<and>
    ab_live l' = add_at (search_price S (ab_live l) (Level.price v)) v (ab_live l) \<and>
    ArrayLevelBSearch.count l' \<le> capacity \<and>
    outside (ArrayLevelBSearch.levels l') = outside (ArrayLevelBSearch.levels l)"
proof -
  let ?a = "ArrayLevelBSearch.levels l" and ?e = "ArrayLevelBSearch.count l"
  let ?it = "search_price S (ab_live l) (Level.price v)"
  have li: "list_inv S (ab_live l)" and e: "?e < 3000"
    using inv room by (simp_all add: ab_inv_def capacity_def)
  have le: "?it \<le> ?e" using search_price_le [OF li, of "Level.price v"] by (simp add: ab_live_def)
  show ?thesis
  proof (cases "?it \<noteq> ?e \<and> Level.price (?a ?it) = Level.price v")
    case True
    with le have it: "?it < ?e" by simp
    with True e room show ?thesis
      by (simp add: ab_add_def Let_def ab_live_def add_at_def live_slots_update capacity_def)
  next
    case False
    with le have "\<not> (?it \<noteq> ?e \<and> Level.price (ab_live l ! ?it) = Level.price v)"
      by (auto simp: ab_live_def)
    with False le e room show ?thesis
      by (auto simp: ab_add_def Let_def ab_live_def add_at_def live_slots_insert capacity_def)
  qed
qed

lemma ab_remove_vector:
  assumes inv: "ab_inv S l"
  shows "vb_remove S \<lparr>VectorLevelBSearch.levels = ab_live l\<rparr> v =
      map_sum id (\<lambda>l'. \<lparr>VectorLevelBSearch.levels = ab_live l'\<rparr>) (ab_remove S l v)"
    and "ab_remove S l v = Inr l' \<Longrightarrow> ArrayLevelBSearch.count l' \<le> capacity \<and>
      outside (ArrayLevelBSearch.levels l') = outside (ArrayLevelBSearch.levels l)"
proof -
  let ?a = "ArrayLevelBSearch.levels l" and ?e = "ArrayLevelBSearch.count l"
  let ?it = "search_price S (ab_live l) (Level.price v)"
  have li: "list_inv S (ab_live l)" and e: "?e \<le> 3000"
    using inv by (simp_all add: ab_inv_def capacity_def)
  have le: "?it \<le> ?e" using search_price_le [OF li, of "Level.price v"] by (simp add: ab_live_def)
  have it: "?it < ?e" if "\<not> (?it = ?e \<or> Level.price (?a ?it) \<noteq> Level.price v)"
    using le that by simp
  show "vb_remove S \<lparr>VectorLevelBSearch.levels = ab_live l\<rparr> v =
      map_sum id (\<lambda>l'. \<lparr>VectorLevelBSearch.levels = ab_live l'\<rparr>) (ab_remove S l v)"
  proof (cases "?it = ?e \<or> Level.price (?a ?it) \<noteq> Level.price v")
    case True
    then show ?thesis using le
      by (cases "?it = ?e") (auto simp: ab_remove_def vb_remove_def Let_def ab_live_def UNEXPECTED_bind)
  next
    case False
    with it [OF False] show ?thesis
      by (auto simp: ab_remove_def vb_remove_def Let_def ab_live_def UNEXPECTED_bind remove_at_def
          live_slots_update live_slots_erase)
  qed
  show "ArrayLevelBSearch.count l' \<le> capacity \<and>
      outside (ArrayLevelBSearch.levels l') = outside ?a" if "ab_remove S l v = Inr l'"
    using that it e
    by (auto simp: ab_remove_def Let_def ab_live_def UNEXPECTED_bind capacity_def split: if_splits)
qed

text \<open>A level fits when there are fewer than 3000, listed or not.\<close>

definition array_fits :: "depth \<Rightarrow> Level \<Rightarrow> bool" where
  "array_fits d v \<longleftrightarrow> card (dom d) < 3000"

lemma ab_card:
  assumes "ab_inv S l"
  shows "card (dom (ab_depth l)) = ArrayLevelBSearch.count l"
proof -
  have "distinct (map fst (map lvl_pair (ab_live l)))"
    using assms sorted_levels_distinct unfolding ab_inv_def list_inv_def by blast
  then have "card (set (map fst (map lvl_pair (ab_live l)))) = length (ab_live l)"
    using distinct_card by fastforce
  then show ?thesis
    by (simp add: ab_depth_def list_depth_def dom_map_of_conv_image_fst ab_live_def image_image)
qed

interpretation ab: level_store ab_ops ab_depth ab_inv array_fits
proof
  show "ab_inv S (store_init ab_ops S) \<and> ab_depth (store_init ab_ops S) = Map.empty" for S
    by (simp add: ab_ops_def ab_inv_def ab_depth_def ab_init_def ab_live_def capacity_def)
  show "\<exists>s'. store_add ab_ops S s v = Inr s' \<and> ab_inv S s' \<and> ab_depth s' = spec_add (ab_depth s) v"
    if "ab_inv S s" "array_fits (ab_depth s) v" for S s v
  proof -
    have "ArrayLevelBSearch.count s \<noteq> capacity"
      using that ab_card by (auto simp: array_fits_def capacity_def)
    with that(1) show ?thesis
      using ab_add_vector [of S s v] add_at_ok [OF _ refl, of S "ab_live s" v]
      by (auto simp: ab_ops_def ab_inv_def ab_depth_def)
  qed
  show "\<exists>s'. store_remove ab_ops S s v = Inr s' \<and> ab_inv S s' \<and> ab_depth s' = d"
    if "ab_inv S s" "spec_remove (ab_depth s) v = Some d" "S \<in> {Bid, Ask}" for S s v d
    using that vb.remove_ok [of S "\<lparr>VectorLevelBSearch.levels = ab_live s\<rparr>" v d]
      ab_remove_vector [OF that(1), of v]
    by (cases "ab_remove S s v")
      (auto simp: ab_ops_def vb_ops_def ab_inv_def ab_depth_def vb_inv_def vb_depth_def)
  show "\<exists>v s'. store_best ab_ops S s = Inr (v, s') \<and> is_best S (ab_depth s) v \<and> ab_inv S s' \<and>
        ab_depth s' = ab_depth s"
    if "ab_inv S s" "ab_depth s \<noteq> Map.empty" for S s
    using that list_is_best [of S "ab_live s"]
    by (auto simp: ab_ops_def ab_inv_def ab_depth_def ab_best_def ab_live_def last_conv_nth)
qed

interpretation ab_checked: checked_store ab_ops ab_depth ab_inv array_fits
proof
  show "\<exists>message. store_remove ab_ops S s v = Inl (Unexpected message)"
    if "ab_inv S s" "spec_remove (ab_depth s) v = None" for S s v
    using that vb_checked.remove_abort [of S "\<lparr>VectorLevelBSearch.levels = ab_live s\<rparr>" v]
      ab_remove_vector [OF that(1), of v]
    by (cases "ab_remove S s v")
      (auto simp: ab_ops_def vb_ops_def ab_inv_def ab_depth_def vb_inv_def vb_depth_def)
qed


section \<open>The linear searches\<close>

lemma al_add_eq:
  assumes "al_inv S l" and "ArrayLevel.count l \<noteq> capacity"
  shows "al_add S l v = map_sum id as_al (ab_add S (as_ab l) v)"
proof -
  have li: "list_inv S (live_slots (ArrayLevel.count l) (ArrayLevel.levels l))"
    using assms(1) by (simp add: al_inv_def ab_inv_def ab_live_def)
  have lt: "(\<lambda>p. if S = Bid then Level.price p \<ge> Level.price v else Level.price p \<le> Level.price v) =
      (\<lambda>p. \<not> lvl_lt S (Level.price p) (Level.price v))"
    by (auto simp: lvl_lt_def fun_eq_iff)
  have f: "find_if (\<lambda>p. if S = Bid then Level.price p \<ge> Level.price v else Level.price p \<le> Level.price v)
      (live_slots (ArrayLevel.count l) (ArrayLevel.levels l)) =
    search_price S (live_slots (ArrayLevel.count l) (ArrayLevel.levels l)) (Level.price v)"
    unfolding lt by (rule find_not_before [OF li])
  show ?thesis
    unfolding al_add_def ab_add_def Let_def as_ab_sel f
    using assms(2) by (simp add: as_al_def as_ab_def)
qed

lemma al_remove_eq:
  assumes "al_inv S l"
  shows "al_remove S l v = map_sum id as_al (ab_remove S (as_ab l) v)"
proof -
  let ?a = "ArrayLevel.levels l" and ?e = "ArrayLevel.count l"
  have li: "list_inv S (live_slots ?e ?a)"
    using assms by (simp add: al_inv_def ab_inv_def ab_live_def)
  note f = find_price_rev [OF li, of "Level.price v", unfolded length_live_slots]
  show ?thesis
  proof (cases "price_hit S (live_slots ?e ?a) (Level.price v)")
    case True
    then have it: "search_price S (live_slots ?e ?a) (Level.price v) < ?e"
      using price_hit_less [OF li True] by simp
    moreover have "Level.price (?a (search_price S (live_slots ?e ?a) (Level.price v))) = Level.price v"
      using True it by (simp add: price_hit_def)
    ultimately show ?thesis
      using True
      by (simp add: al_remove_def ab_remove_def f Let_def UNEXPECTED_bind as_al_def as_ab_def)
  next
    case False
    then have "search_price S (live_slots ?e ?a) (Level.price v) = ?e \<or>
        Level.price (?a (search_price S (live_slots ?e ?a) (Level.price v))) \<noteq> Level.price v"
      using search_price_le [OF li, of "Level.price v"]
      by (cases "search_price S (live_slots ?e ?a) (Level.price v) = ?e") (auto simp: price_hit_def)
    with False show ?thesis
      by (simp add: al_remove_def ab_remove_def f Let_def UNEXPECTED_bind)
  qed
qed

interpretation al: level_store al_ops al_depth al_inv array_fits
proof
  show "al_inv S (store_init al_ops S) \<and> al_depth (store_init al_ops S) = Map.empty" for S
    by (simp add: al_ops_def al_inv_def al_depth_def al_init_def ab_inv_def ab_depth_def ab_live_def)
  show "\<exists>s'. store_add al_ops S s v = Inr s' \<and> al_inv S s' \<and> al_depth s' = spec_add (al_depth s) v"
    if "al_inv S s" "array_fits (al_depth s) v" "S \<in> {Bid, Ask}" for S s v
  proof -
    have "ArrayLevel.count s \<noteq> capacity"
      using that ab_card [of S "as_ab s"] by (auto simp: array_fits_def capacity_def al_inv_def al_depth_def)
    with that show ?thesis
      using ab.add_ok [of S "as_ab s" v]
      by (auto simp: al_ops_def ab_ops_def al_inv_def al_depth_def al_add_eq)
  qed
  show "\<exists>s'. store_remove al_ops S s v = Inr s' \<and> al_inv S s' \<and> al_depth s' = d"
    if "al_inv S s" "spec_remove (al_depth s) v = Some d" "S \<in> {Bid, Ask}" for S s v d
    using that ab.remove_ok [of S "as_ab s" v d]
    by (auto simp: al_ops_def ab_ops_def al_inv_def al_depth_def al_remove_eq)
  show "\<exists>v s'. store_best al_ops S s = Inr (v, s') \<and> is_best S (al_depth s) v \<and> al_inv S s' \<and>
        al_depth s' = al_depth s"
    if "al_inv S s" "al_depth s \<noteq> Map.empty" for S s
    using that list_is_best [of S "ab_live (as_ab s)"]
    by (auto simp: al_ops_def al_inv_def al_depth_def ab_inv_def ab_depth_def al_best_def ab_live_def
        last_conv_nth)
qed

interpretation al_checked: checked_store al_ops al_depth al_inv array_fits
proof
  show "\<exists>message. store_remove al_ops S s v = Inl (Unexpected message)"
    if "al_inv S s" "spec_remove (al_depth s) v = None" for S s v
    using that ab_checked.remove_abort [of S "as_ab s" v]
    by (auto simp: al_ops_def ab_ops_def al_inv_def al_depth_def al_remove_eq)
qed

section \<open>Properties\<close>

text \<open>What a step may do to the slots: the count stays within the 3000, and only those are written.\<close>

definition within :: "(nat \<Rightarrow> Level) \<Rightarrow> nat \<Rightarrow> (nat \<Rightarrow> Level) \<Rightarrow> bool" where
  "within a count' a' \<longleftrightarrow> count' \<le> 3000 \<and> outside a' = outside a"

lemma ab_add_bounds:
  assumes "ab_inv S l"
  shows "if ArrayLevelBSearch.count l = 3000
    then ab_add S l v = Inl (Unexpected ''ArrayLevelBSearch capacity exceeded'')
    else \<exists>l'. ab_add S l v = Inr l' \<and>
      within (ArrayLevelBSearch.levels l) (ArrayLevelBSearch.count l') (ArrayLevelBSearch.levels l')"
  using ab_add_vector [OF assms, of v]
  by (cases "ArrayLevelBSearch.count l = 3000") (auto simp: ab_add_def capacity_def within_def)

lemma ab_remove_bounds:
  assumes "ab_inv S l"
  shows "case ab_remove S l v of
      Inl e \<Rightarrow> \<exists>message. e = Unexpected message
    | Inr l' \<Rightarrow>
        within (ArrayLevelBSearch.levels l) (ArrayLevelBSearch.count l') (ArrayLevelBSearch.levels l')"
proof (cases "ab_remove S l v")
  case (Inl e)
  then show ?thesis by (auto simp: ab_remove_def Let_def UNEXPECTED_bind split: if_splits)
next
  case (Inr l')
  with ab_remove_vector(2) [OF assms Inr] show ?thesis by (simp add: capacity_def within_def)
qed

lemma al_add_bounds:
  assumes "al_inv S k"
  shows "if ArrayLevel.count k = 3000
    then al_add S k v = Inl (Unexpected ''ArrayLevel capacity exceeded'')
    else \<exists>k'. al_add S k v = Inr k' \<and>
      within (ArrayLevel.levels k) (ArrayLevel.count k') (ArrayLevel.levels k')"
proof (cases "ArrayLevel.count k = 3000")
  case False
  then have "al_add S k v = map_sum id as_al (ab_add S (as_ab k) v)"
    by (intro al_add_eq assms) (simp add: capacity_def)
  with False ab_add_bounds [of S "as_ab k" v] assms show ?thesis by (auto simp: al_inv_def)
qed (simp add: al_add_def capacity_def)

lemma al_remove_bounds:
  assumes "al_inv S k"
  shows "case al_remove S k v of
      Inl e \<Rightarrow> \<exists>message. e = Unexpected message
    | Inr k' \<Rightarrow> within (ArrayLevel.levels k) (ArrayLevel.count k') (ArrayLevel.levels k')"
  using ab_remove_bounds [of S "as_ab k" v] assms
  by (cases "ab_remove S (as_ab k) v") (auto simp: al_inv_def al_remove_eq [OF assms])

text \<open>
  C27. The bounds of the two fixed arrays, with binary and with linear search. On a well-formed array
  \<open>add\<close> aborts exactly when 3000 levels are in use, even where the price is listed and no slot is
  needed; below that it returns. An \<open>add\<close> or \<open>remove\<close> that returns has written no slot outside the 3000
  and counts no more than 3000 levels; a \<open>remove\<close> that does not return aborts with a message. \<open>best\<close> reads
  outside the array, at the index \<open>SIZE_MAX\<close>, exactly when the array is empty.
\<close>

theorem array_level_bounds:
  assumes "ab_inv S l" and "al_inv S k"
  shows "(if ArrayLevelBSearch.count l = 3000
     then ab_add S l v = Inl (Unexpected ''ArrayLevelBSearch capacity exceeded'')
     else \<exists>l'. ab_add S l v = Inr l' \<and>
       within (ArrayLevelBSearch.levels l) (ArrayLevelBSearch.count l') (ArrayLevelBSearch.levels l')) \<and>
    (case ab_remove S l v of
       Inl e \<Rightarrow> \<exists>message. e = Unexpected message
     | Inr l' \<Rightarrow>
         within (ArrayLevelBSearch.levels l) (ArrayLevelBSearch.count l') (ArrayLevelBSearch.levels l')) \<and>
    (ab_best S l = Inl Out_Of_Bounds) = (ArrayLevelBSearch.count l = 0) \<and>
    (if ArrayLevel.count k = 3000
     then al_add S k v = Inl (Unexpected ''ArrayLevel capacity exceeded'')
     else \<exists>k'. al_add S k v = Inr k' \<and>
       within (ArrayLevel.levels k) (ArrayLevel.count k') (ArrayLevel.levels k')) \<and>
    (case al_remove S k v of
       Inl e \<Rightarrow> \<exists>message. e = Unexpected message
     | Inr k' \<Rightarrow> within (ArrayLevel.levels k) (ArrayLevel.count k') (ArrayLevel.levels k')) \<and>
    (al_best S k = Inl Out_Of_Bounds) = (ArrayLevel.count k = 0)"
  using ab_add_bounds [OF assms(1)] ab_remove_bounds [OF assms(1)]
    al_add_bounds [OF assms(2)] al_remove_bounds [OF assms(2)]
  by (simp add: ab_best_def al_best_def)

definition two_asks :: ArrayLevelBSearch where
  "two_asks =
     \<lparr>ArrayLevelBSearch.levels =
        (\<lambda>_. empty_level)(0 := \<lparr>Level.qty = 5, Level.price = 20\<rparr>, 1 := \<lparr>Level.qty = 7, Level.price = 10\<rparr>),
      count = 2\<rparr>"

lemma array_level_bounds_witness:
  "(\<exists>l'. ab_add Ask two_asks \<lparr>Level.qty = 1, Level.price = 15\<rparr> = Inr l' \<and>
       within (ArrayLevelBSearch.levels two_asks) (ArrayLevelBSearch.count l') (ArrayLevelBSearch.levels l')) \<and>
   ab_best Ask two_asks \<noteq> Inl Out_Of_Bounds \<and>
   (\<exists>k'. al_add Ask (as_al two_asks) \<lparr>Level.qty = 1, Level.price = 15\<rparr> = Inr k' \<and>
       within (ArrayLevel.levels (as_al two_asks)) (ArrayLevel.count k') (ArrayLevel.levels k')) \<and>
   al_best Ask (al_init Ask) = Inl Out_Of_Bounds"
proof -
  have "ab_inv Ask two_asks"
    by (simp add: ab_inv_def ab_live_def two_asks_def live_slots_def list_inv_def sorted_levels_Cons
        lvl_lt_def lvl_pair_def capacity_def upt_rec)
  moreover from this have "al_inv Ask (as_al two_asks)" by (simp add: al_inv_def)
  moreover have "al_inv Ask (al_init Ask)" using al.init_ok [of Ask] by (simp add: al_ops_def)
  ultimately show ?thesis
    using array_level_bounds [of Ask two_asks "as_al two_asks" "\<lparr>Level.qty = 1, Level.price = 15\<rparr>"]
      array_level_bounds [of Ask two_asks "al_init Ask"]
    by (simp add: two_asks_def al_init_def)
qed

end
