(* ===== verification/Flat_Array_Levels.thy ===== *)
theory Flat_Array_Levels
  imports Level_Stores
begin

text \<open>
  \<open>include/levels/array_levels_v2.hpp\<close>: one quantity per price in an array of two million, and the
  index of the best price, moved by a scan when the best level empties. The theory proves the
  invariant of that index, the termination and result of the scans, and the behaviour at the
  bounds of the array.
\<close>

section \<open>The container\<close>

definition flat_N :: u32 where
  "flat_N = 2000000"

text \<open>\<open>book\<close> is the array behind the pointer; its indices are the prices below \<open>flat_N\<close>.\<close>

record ArrayLevelsV2 =
  book :: "u32 \<Rightarrow> u64"
  best_idx :: u32

definition start_idx :: "Side \<Rightarrow> u32" where
  "start_idx S = (if S = Bid then 0 else flat_N - 1)"

definition v2_init :: "Side \<Rightarrow> ArrayLevelsV2" where
  "v2_init S = \<lparr>book = (\<lambda>_. 0), best_idx = start_idx S\<rparr>"

definition v2_add :: "Side \<Rightarrow> ArrayLevelsV2 \<Rightarrow> Level \<Rightarrow> ArrayLevelsV2 result" where
  "v2_add S l level =
     (let p = Level.price level in
      if p > flat_N then Inr l
      else if \<not> p < flat_N then Inl Out_Of_Bounds
      else
        let l1 = l\<lparr>book := (book l)(p := book l p + Level.qty level)\<rparr>
        in Inr (if S = Bid
                then (if p > best_idx l1 then l1\<lparr>best_idx := p\<rparr> else l1)
                else (if p < best_idx l1 then l1\<lparr>best_idx := p\<rparr> else l1)))"

text \<open>The two scans; they start inside the array and stop at its ends.\<close>

function scan_down :: "(u32 \<Rightarrow> u64) \<Rightarrow> u32 \<Rightarrow> u32" where
  "scan_down b i = (if i > 0 \<and> b i = 0 then scan_down b (i - 1) else i)"
  by pat_completeness auto
termination
proof (relation "measure (\<lambda>(b, i). unat i)")
  show "((b, i - 1), b, i) \<in> measure (\<lambda>(b, i). unat i)" if "i > 0 \<and> b i = 0" for b :: "u32 \<Rightarrow> u64" and i
    using that unat_gt_0 [of i] by (simp add: unat_minus_one word_greater_zero_iff)
qed simp

function scan_up :: "(u32 \<Rightarrow> u64) \<Rightarrow> u32 \<Rightarrow> u32" where
  "scan_up b i = (if i < flat_N - 1 \<and> b i = 0 then scan_up b (i + 1) else i)"
  by pat_completeness auto
termination
proof (relation "measure (\<lambda>(b, i). unat flat_N - unat i)")
  show "((b, i + 1), b, i) \<in> measure (\<lambda>(b, i). unat flat_N - unat i)"
    if "i < flat_N - 1 \<and> b i = 0" for b :: "u32 \<Rightarrow> u64" and i
  proof -
    have i: "unat i < 1999999" using that by (simp add: flat_N_def word_less_nat_alt)
    then have "unat (i + 1) = Suc (unat i)" by (simp add: unat_word_ariths)
    with i show ?thesis by (simp add: flat_N_def)
  qed
qed simp

declare scan_down.simps [simp del] scan_up.simps [simp del]

definition v2_remove :: "Side \<Rightarrow> ArrayLevelsV2 \<Rightarrow> Level \<Rightarrow> ArrayLevelsV2 result" where
  "v2_remove S l level =
     (let p = Level.price level in
      if p > flat_N then Inr l
      else if \<not> p < flat_N then Inl Out_Of_Bounds
      else
        rbind (UNEXPECTED (Level.qty level > book l p) ''Remove underflow'') (\<lambda>_.
          let l1 = l\<lparr>book := (book l)(p := book l p - Level.qty level)\<rparr>
          in Inr (if book l1 p = 0 \<and> p = best_idx l1
                  then (if S = Bid then l1\<lparr>best_idx := scan_down (book l1) (best_idx l1)\<rparr>
                        else l1\<lparr>best_idx := scan_up (book l1) (best_idx l1)\<rparr>)
                  else l1)))"

definition v2_best :: "Side \<Rightarrow> ArrayLevelsV2 \<Rightarrow> (Level \<times> ArrayLevelsV2) result" where
  "v2_best S l =
     (if best_idx l < flat_N
      then Inr (\<lparr>Level.qty = book l (best_idx l), Level.price = best_idx l\<rparr>, l)
      else Inl Out_Of_Bounds)"

definition v2_ops :: "ArrayLevelsV2 store_ops" where
  "v2_ops =
     \<lparr>store_init = v2_init, store_add = v2_add, store_remove = v2_remove, store_best = v2_best\<rparr>"

section \<open>The scans\<close>

lemma scan_down_spec:
  "scan_down b i \<le> i \<and> (b (scan_down b i) \<noteq> 0 \<or> scan_down b i = 0) \<and>
   (\<forall>j. scan_down b i < j \<longrightarrow> j \<le> i \<longrightarrow> b j = 0)"
proof (induction b i rule: scan_down.induct)
  case (1 b i)
  show ?case
  proof (cases "i > 0 \<and> b i = 0")
    case True
    then have "i \<noteq> 0" by auto
    then have less: "j \<le> i - 1 \<longleftrightarrow> j < i" for j
      using unat_gt_0 [of i] by (auto simp: word_le_nat_alt word_less_nat_alt unat_minus_one)
    show ?thesis
      using True "1.IH" [OF True] less by (subst (1 2 3 4) scan_down.simps) (auto simp: le_less)
  next
    case False
    then show ?thesis by (subst (1 2 3 4) scan_down.simps) (auto simp: word_greater_zero_iff)
  qed
qed


lemma scan_up_spec:
  "i < flat_N \<Longrightarrow> i \<le> scan_up b i \<and> scan_up b i < flat_N \<and>
   (b (scan_up b i) \<noteq> 0 \<or> scan_up b i = flat_N - 1) \<and>
   (\<forall>j. i \<le> j \<longrightarrow> j < scan_up b i \<longrightarrow> b j = 0)"
proof (induction b i rule: scan_up.induct)
  case (1 b i)
  show ?case
  proof (cases "i < flat_N - 1 \<and> b i = 0")
    case True
    then have "unat i < 1999999" by (simp add: flat_N_def word_less_nat_alt)
    then have suc: "unat (i + 1) = Suc (unat i)" by (simp add: unat_word_ariths)
    then have "i + 1 < flat_N" using \<open>unat i < 1999999\<close> by (simp add: flat_N_def word_less_nat_alt)
    moreover have less: "i + 1 \<le> j \<longleftrightarrow> i < j" for j
      using suc by (auto simp: word_le_nat_alt word_less_nat_alt)
    ultimately show ?thesis
      using True "1.IH" [OF True] less by (subst (1 2 3 4 5) scan_up.simps) (auto simp: le_less)
  next
    case False
    then have "scan_up b i = i" by (subst scan_up.simps) auto
    moreover have "i = flat_N - 1" if "\<not> i < flat_N - 1"
      using that "1.prems" by (simp add: flat_N_def word_less_nat_alt word_unat_eq_iff)
    ultimately show ?thesis using False "1.prems" by auto
  qed
qed

section \<open>The invariant of the best index\<close>

definition v2_depth :: "ArrayLevelsV2 \<Rightarrow> depth" where
  "v2_depth l = (\<lambda>p. if p < flat_N \<and> book l p \<noteq> 0 then Some (book l p) else None)"

text \<open>
  No price with a quantity is better than the best index, and the index itself has a quantity
  unless the side is empty, when it is back at its start.
\<close>

definition v2_inv :: "Side \<Rightarrow> ArrayLevelsV2 \<Rightarrow> bool" where
  "v2_inv S l \<longleftrightarrow>
     best_idx l < flat_N \<and>
     (\<forall>p < flat_N. book l p \<noteq> 0 \<longrightarrow> p = best_idx l \<or> lvl_lt S p (best_idx l)) \<and>
     (book l (best_idx l) = 0 \<longrightarrow> best_idx l = start_idx S)"

text \<open>A price of the array, with a total that is not zero (nor wraps to it).\<close>

definition v2_fits :: "depth \<Rightarrow> Level \<Rightarrow> bool" where
  "v2_fits d v \<longleftrightarrow> Level.price v < flat_N \<and> spec_add d v (Level.price v) \<noteq> Some 0"

lemma not_before_start: "p < flat_N \<Longrightarrow> \<not> lvl_lt S p (start_idx S)"
  by (auto simp: lvl_lt_def start_idx_def flat_N_def word_less_nat_alt not_less)

lemma start_less: "start_idx S < flat_N"
  by (simp add: start_idx_def flat_N_def)

lemma v2_empty:
  assumes "v2_inv S l"
  shows "book l (best_idx l) = 0 \<longleftrightarrow> v2_depth l = Map.empty"
proof
  assume z: "book l (best_idx l) = 0"
  have "book l p = 0" if p: "p < flat_N" for p
    using assms z p not_before_start [OF p, of S] by (auto simp: v2_inv_def)
  then show "v2_depth l = Map.empty" by (simp add: v2_depth_def fun_eq_iff)
next
  assume "v2_depth l = Map.empty"
  then have "v2_depth l (best_idx l) = None" by simp
  then show "book l (best_idx l) = 0" using assms by (auto simp: v2_depth_def v2_inv_def split: if_splits)
qed

lemma v2_best_ok:
  assumes "v2_inv S l" and "v2_depth l \<noteq> Map.empty"
  shows "is_best S (v2_depth l) \<lparr>Level.qty = book l (best_idx l), Level.price = best_idx l\<rparr>"
  using assms v2_empty [OF assms(1)] by (auto simp: is_best_def v2_inv_def v2_depth_def dom_def)

lemma v2_add_ok:
  assumes inv: "v2_inv S l" and fits: "v2_fits (v2_depth l) v"
  shows "\<exists>l'. v2_add S l v = Inr l' \<and> v2_inv S l' \<and> v2_depth l' = spec_add (v2_depth l) v"
proof -
  let ?p = "Level.price v"
  let ?b = "(book l)(?p := book l ?p + Level.qty v)"
  let ?i = "if lvl_lt S (best_idx l) ?p then ?p else best_idx l"
  have p: "?p < flat_N" using fits by (simp add: v2_fits_def)
  have nz: "book l ?p + Level.qty v \<noteq> 0"
    using fits by (auto simp: v2_fits_def spec_add_def v2_depth_def split: if_splits)
  have add: "v2_add S l v = Inr \<lparr>book = ?b, best_idx = ?i\<rparr>"
    using p by (cases l) (auto simp: v2_add_def Let_def lvl_lt_def)
  have depth: "v2_depth \<lparr>book = ?b, best_idx = ?i\<rparr> = spec_add (v2_depth l) v"
    using p nz by (auto simp: v2_depth_def spec_add_def fun_eq_iff)
  have listed: "q = best_idx l \<or> lvl_lt S q (best_idx l)" if "q < flat_N" "book l q \<noteq> 0" for q
    using that inv by (simp add: v2_inv_def)
  have "q = ?i \<or> lvl_lt S q ?i" if "q < flat_N" "?b q \<noteq> 0" for q
    using that listed [of q] lvl_lt_total [of ?p "best_idx l" S] lvl_lt_trans [of S q "best_idx l" ?p]
    by (cases "q = ?p") (auto split: if_splits)
  moreover have "?b ?i \<noteq> 0 \<or> ?i = start_idx S"
    using nz inv by (auto simp: v2_inv_def)
  moreover have "?i < flat_N" using p inv by (simp add: v2_inv_def)
  ultimately have "v2_inv S \<lparr>book = ?b, best_idx = ?i\<rparr>" by (auto simp: v2_inv_def)
  with add depth show ?thesis by blast
qed

text \<open>The scan after the best level has emptied lands on the next best price.\<close>

lemma scan_ok:
  assumes "i < flat_N" and "b i = 0"
    and before: "\<And>p. p < flat_N \<Longrightarrow> b p \<noteq> 0 \<Longrightarrow> p = i \<or> lvl_lt S p i"
  shows "v2_inv S \<lparr>book = b, best_idx = (if S = Bid then scan_down b i else scan_up b i)\<rparr>"
proof (cases "S = Bid")
  case True
  have "p = scan_down b i \<or> p < scan_down b i" if "p < flat_N" "b p \<noteq> 0" for p
  proof -
    have "p \<le> i" using before [OF that] True by (auto simp: lvl_lt_def)
    then have "\<not> scan_down b i < p" using that scan_down_spec [of b i] by auto
    then show ?thesis by auto
  qed
  then show ?thesis
    using True scan_down_spec [of b i] assms(1)
    by (auto simp: v2_inv_def lvl_lt_def start_idx_def intro: le_less_trans)
next
  case False
  have "p = scan_up b i \<or> p > scan_up b i" if "p < flat_N" "b p \<noteq> 0" for p
  proof -
    have "i \<le> p" using before [OF that] False by (auto simp: lvl_lt_def)
    then have "\<not> p < scan_up b i" using that scan_up_spec [OF assms(1), of b] by auto
    then show ?thesis by auto
  qed
  then show ?thesis
    using False scan_up_spec [OF assms(1), of b] by (auto simp: v2_inv_def lvl_lt_def start_idx_def)
qed

lemma v2_remove_ok:
  assumes inv: "v2_inv S l" and spec: "spec_remove (v2_depth l) v = Some d"
  shows "\<exists>l'. v2_remove S l v = Inr l' \<and> v2_inv S l' \<and> v2_depth l' = d"
proof -
  let ?p = "Level.price v"
  let ?b = "(book l)(?p := book l ?p - Level.qty v)"
  from spec have p: "?p < flat_N" and le: "Level.qty v \<le> book l ?p"
    and d: "d = (if ?b ?p = 0 then (v2_depth l)(?p := None) else (v2_depth l)(?p \<mapsto> ?b ?p))"
    by (auto simp: spec_remove_Some v2_depth_def split: if_splits)
  have "\<not> ?p > flat_N" using p by simp
  have depth: "v2_depth \<lparr>book = ?b, best_idx = i\<rparr> = d" for i
    using p by (auto simp: d v2_depth_def fun_eq_iff)
  have listed: "q = best_idx l \<or> lvl_lt S q (best_idx l)" if "q < flat_N" "?b q \<noteq> 0" for q
    using that le inv by (cases "q = ?p") (auto simp: v2_inv_def)
  show ?thesis
  proof (cases "?b ?p = 0 \<and> ?p = best_idx l")
    case True
    then have "v2_remove S l v = Inr \<lparr>book = ?b,
        best_idx = (if S = Bid then scan_down ?b (best_idx l) else scan_up ?b (best_idx l))\<rparr>"
      using p le by (cases l) (simp add: v2_remove_def Let_def UNEXPECTED_bind leD)
    moreover have "v2_inv S \<lparr>book = ?b,
        best_idx = (if S = Bid then scan_down ?b (best_idx l) else scan_up ?b (best_idx l))\<rparr>"
      using True inv listed by (intro scan_ok) (auto simp: v2_inv_def)
    ultimately show ?thesis using depth by blast
  next
    case False
    then have "v2_remove S l v = Inr \<lparr>book = ?b, best_idx = best_idx l\<rparr>"
      using p le by (cases l) (auto simp: v2_remove_def Let_def UNEXPECTED_bind leD)
    moreover have "v2_inv S \<lparr>book = ?b, best_idx = best_idx l\<rparr>"
      using False inv listed by (auto simp: v2_inv_def)
    ultimately show ?thesis using depth by blast
  qed
qed

interpretation v2: level_store v2_ops v2_depth v2_inv v2_fits
proof
  show "v2_inv S (store_init v2_ops S) \<and> v2_depth (store_init v2_ops S) = Map.empty" for S
    using start_less by (simp add: v2_ops_def v2_init_def v2_inv_def v2_depth_def)
  show "\<exists>s'. store_add v2_ops S s v = Inr s' \<and> v2_inv S s' \<and> v2_depth s' = spec_add (v2_depth s) v"
    if "v2_inv S s" "v2_fits (v2_depth s) v" for S s v
    using v2_add_ok [OF that] by (simp add: v2_ops_def)
  show "\<exists>s'. store_remove v2_ops S s v = Inr s' \<and> v2_inv S s' \<and> v2_depth s' = d"
    if "v2_inv S s" "spec_remove (v2_depth s) v = Some d" for S s v d
    using v2_remove_ok [OF that] by (simp add: v2_ops_def)
  show "\<exists>v s'. store_best v2_ops S s = Inr (v, s') \<and> is_best S (v2_depth s) v \<and> v2_inv S s' \<and>
        v2_depth s' = v2_depth s"
    if "v2_inv S s" "v2_depth s \<noteq> Map.empty" for S s
    using that v2_best_ok [OF that] by (simp add: v2_ops_def v2_best_def v2_inv_def)
qed

section \<open>Properties\<close>

text \<open>
  C24. The best index of the flat array is an invariant: no listed price is better than it. It holds
  initially; adding a level that fits (a price below 2000000, and a resulting quantity that is not 0)
  and removing a level that is there (its price listed with at least the quantity) both return, the scan
  that follows an emptied best level included, keep the invariant, and change the depth as asked; and on
  a side that is not empty the level \<open>best\<close> returns is the best one.
\<close>

theorem flat_array_invariant:
  assumes "v2_inv S l"
  shows "(v2_inv S (v2_init S) \<and> v2_depth (v2_init S) = Map.empty) \<and>
    (v2_fits (v2_depth l) v \<longrightarrow>
      (\<exists>l'. v2_add S l v = Inr l' \<and> v2_inv S l' \<and> v2_depth l' = spec_add (v2_depth l) v)) \<and>
    (spec_remove (v2_depth l) w = Some d \<longrightarrow>
      (\<exists>l'. v2_remove S l w = Inr l' \<and> v2_inv S l' \<and> v2_depth l' = d)) \<and>
    (v2_depth l \<noteq> Map.empty \<longrightarrow> (\<exists>best. v2_best S l = Inr (best, l) \<and> is_best S (v2_depth l) best))"
proof (intro conjI impI)
  show "v2_inv S (v2_init S)" "v2_depth (v2_init S) = Map.empty"
    using start_less by (simp_all add: v2_init_def v2_inv_def v2_depth_def)
  show "\<exists>best. v2_best S l = Inr (best, l) \<and> is_best S (v2_depth l) best" if "v2_depth l \<noteq> Map.empty"
    using v2_best_ok [OF assms that] assms by (simp add: v2_best_def v2_inv_def)
qed (rule v2_add_ok [OF assms] v2_remove_ok [OF assms]; assumption)+

definition two_bids :: ArrayLevelsV2 where
  "two_bids = \<lparr>book = (\<lambda>_. 0)(10 := 5, 20 := 7), best_idx = 20\<rparr>"

lemma flat_array_invariant_witness:
  "(\<exists>l'. v2_remove Bid two_bids \<lparr>Level.qty = 7, Level.price = 20\<rparr> = Inr l' \<and> v2_inv Bid l' \<and>
     v2_depth l' = (v2_depth two_bids)(20 := None)) \<and>
   (\<exists>l'. v2_add Bid two_bids \<lparr>Level.qty = 1, Level.price = 30\<rparr> = Inr l' \<and> v2_inv Bid l' \<and>
     v2_depth l' = spec_add (v2_depth two_bids) \<lparr>Level.qty = 1, Level.price = 30\<rparr>) \<and>
   (\<exists>best. v2_best Bid two_bids = Inr (best, two_bids) \<and> is_best Bid (v2_depth two_bids) best)"
proof -
  have "v2_inv Bid two_bids" by (simp add: v2_inv_def two_bids_def lvl_lt_def flat_N_def)
  moreover have "v2_fits (v2_depth two_bids) \<lparr>Level.qty = 1, Level.price = 30\<rparr>"
    by (simp add: v2_fits_def two_bids_def v2_depth_def spec_add_def flat_N_def)
  moreover have "v2_depth two_bids \<noteq> Map.empty"
    by (auto simp: two_bids_def v2_depth_def flat_N_def fun_eq_iff)
  moreover have "spec_remove (v2_depth two_bids) \<lparr>Level.qty = 7, Level.price = 20\<rparr> =
      Some ((v2_depth two_bids)(20 := None))"
    by (simp add: spec_remove_def two_bids_def v2_depth_def flat_N_def)
  ultimately show ?thesis using flat_array_invariant by blast
qed

text \<open>
  C31. The bounds of the flat array: adding and removing leave the array exactly at the price 2000000,
  which the guard \<open>level.price > N\<close> lets through, one element past the end; a higher price changes nothing,
  without a word; and the \<open>best\<close> of an empty side is a level of no quantity at the price where the side
  starts, which on the ask side is 1999999, not 0.
\<close>

theorem flat_array_edges:
  assumes "v2_inv S l" and "v2_depth l = Map.empty"
  shows "(v2_add S k v = Inl Out_Of_Bounds) = (Level.price v = 2000000) \<and>
    (v2_remove S k v = Inl Out_Of_Bounds) = (Level.price v = 2000000) \<and>
    (if Level.price v > 2000000 then v2_add S k v = Inr k \<and> v2_remove S k v = Inr k else True) \<and>
    v2_best S l = Inr (\<lparr>Level.qty = 0, Level.price = (if S = Bid then 0 else 1999999)\<rparr>, l)"
proof -
  have "book l (best_idx l) = 0" "best_idx l < flat_N"
    using assms by (auto simp: v2_inv_def v2_depth_def dest: fun_cong [of _ _ "best_idx l"] split: if_splits)
  moreover from this have "best_idx l = start_idx S" using assms(1) by (simp add: v2_inv_def)
  ultimately have "v2_best S l = Inr (\<lparr>Level.qty = 0, Level.price = (if S = Bid then 0 else 1999999)\<rparr>, l)"
    by (auto simp: v2_best_def start_idx_def flat_N_def)
  moreover have "v2_add S k v = Inl Out_Of_Bounds \<longleftrightarrow> Level.price v = 2000000"
    by (auto simp: v2_add_def flat_N_def Let_def not_less)
  moreover have "v2_remove S k v = Inl Out_Of_Bounds \<longleftrightarrow> Level.price v = 2000000"
    by (auto simp: v2_remove_def flat_N_def Let_def not_less UNEXPECTED_def abort_unexpected_def)
  moreover have "if Level.price v > 2000000 then v2_add S k v = Inr k \<and> v2_remove S k v = Inr k else True"
    by (simp add: v2_add_def v2_remove_def flat_N_def)
  ultimately show ?thesis by blast
qed

lemma flat_array_edges_witness:
  "v2_add Ask two_bids \<lparr>Level.qty = 3, Level.price = 2000000\<rparr> = Inl Out_Of_Bounds \<and>
   v2_best Ask (v2_init Ask) = Inr (\<lparr>Level.qty = 0, Level.price = 1999999\<rparr>, v2_init Ask)"
proof -
  have "v2_inv Ask (v2_init Ask)" "v2_depth (v2_init Ask) = Map.empty"
    by (simp_all add: v2_inv_def v2_init_def v2_depth_def start_idx_def flat_N_def)
  from flat_array_edges [OF this, of two_bids "\<lparr>Level.qty = 3, Level.price = 2000000\<rparr>"]
  show ?thesis by simp
qed

end
