(* ===== verification/BTree_Levels.thy ===== *)
theory BTree_Levels
  imports Level_Stores
begin

text \<open>
  \<open>include/levels/btree_level.hpp\<close>: the container over \<open>absl::btree_map\<close>, a third-party ordered
  map. Its operations are an argument, for each side its own since the comparator is a template
  argument, and \<open>btree_map_laws\<close> states their documented behaviour.
\<close>

section \<open>\<open>absl::btree_map\<close>\<close>

record ('k, 'v, 'm) btree_map =
  bt_empty :: 'm
  bt_find :: "'m \<Rightarrow> 'k \<Rightarrow> 'v option"
  bt_insert :: "'m \<Rightarrow> 'k \<Rightarrow> 'v \<Rightarrow> 'm"
  bt_assign :: "'m \<Rightarrow> 'k \<Rightarrow> 'v \<Rightarrow> 'm"
  bt_erase :: "'m \<Rightarrow> 'k \<Rightarrow> 'm"
  bt_begin :: "'m \<Rightarrow> ('k \<times> 'v) option"

text \<open>
  \<open>bt_insert\<close> is the insertion of \<open>operator[]\<close>, which leaves a present key alone, \<open>bt_assign\<close> a
  write to the value of a present key, \<open>bt_begin\<close> the first entry in the order of the comparator,
  if there is one.
\<close>

definition btree_map_laws :: "('k \<Rightarrow> 'k \<Rightarrow> bool) \<Rightarrow> ('k, 'v, 'm) btree_map \<Rightarrow> bool" where
  "btree_map_laws before B \<longleftrightarrow>
     bt_find B (bt_empty B) = Map.empty \<and>
     (\<forall>m k v. bt_find B (bt_insert B m k v) =
        (if bt_find B m k = None then (bt_find B m)(k \<mapsto> v) else bt_find B m)) \<and>
     (\<forall>m k v. bt_find B m k \<noteq> None \<longrightarrow> bt_find B (bt_assign B m k v) = (bt_find B m)(k \<mapsto> v)) \<and>
     (\<forall>m k. bt_find B (bt_erase B m k) = (bt_find B m)(k := None)) \<and>
     (\<forall>m. case bt_begin B m of
        None \<Rightarrow> bt_find B m = Map.empty
      | Some (k, v) \<Rightarrow> bt_find B m k = Some v \<and> (\<forall>k'. bt_find B m k' \<noteq> None \<longrightarrow> k' = k \<or> before k k'))"

lemma btree_map_lawsD:
  assumes "btree_map_laws before B"
  shows "bt_find B (bt_empty B) = Map.empty"
    and "bt_find B (bt_insert B m k v) =
        (if bt_find B m k = None then (bt_find B m)(k \<mapsto> v) else bt_find B m)"
    and "bt_find B m k \<noteq> None \<Longrightarrow> bt_find B (bt_assign B m k v) = (bt_find B m)(k \<mapsto> v)"
    and "bt_find B (bt_erase B m k) = (bt_find B m)(k := None)"
    and "bt_begin B m = None \<Longrightarrow> bt_find B m = Map.empty"
    and "bt_begin B m = Some (k, v) \<Longrightarrow> bt_find B m k = Some v"
    and "bt_begin B m = Some (k, v) \<Longrightarrow> bt_find B m k' \<noteq> None \<Longrightarrow> k' = k \<or> before k k'"
proof -
  show "bt_find B (bt_empty B) = Map.empty"
    and "bt_find B (bt_insert B m k v) =
        (if bt_find B m k = None then (bt_find B m)(k \<mapsto> v) else bt_find B m)"
    and "bt_find B m k \<noteq> None \<Longrightarrow> bt_find B (bt_assign B m k v) = (bt_find B m)(k \<mapsto> v)"
    and "bt_find B (bt_erase B m k) = (bt_find B m)(k := None)"
    using assms unfolding btree_map_laws_def by blast+
  have "case bt_begin B m of
        None \<Rightarrow> bt_find B m = Map.empty
      | Some (k, v) \<Rightarrow> bt_find B m k = Some v \<and> (\<forall>k'. bt_find B m k' \<noteq> None \<longrightarrow> k' = k \<or> before k k')"
    using assms unfolding btree_map_laws_def by blast
  then show "bt_begin B m = None \<Longrightarrow> bt_find B m = Map.empty"
    and "bt_begin B m = Some (k, v) \<Longrightarrow> bt_find B m k = Some v"
    and "bt_begin B m = Some (k, v) \<Longrightarrow> bt_find B m k' \<noteq> None \<Longrightarrow> k' = k \<or> before k k'"
    by auto
qed

text \<open>Association lists whose first entry is searched for are an instance, for any total order.\<close>

definition first_of :: "('k \<Rightarrow> 'k \<Rightarrow> bool) \<Rightarrow> ('k \<times> 'v) list \<Rightarrow> 'k \<Rightarrow> 'k" where
  "first_of before es k = foldr (\<lambda>e b. if before (fst e) b then fst e else b) es k"

definition alist_btree_map :: "('k \<Rightarrow> 'k \<Rightarrow> bool) \<Rightarrow> ('k, 'v, ('k \<times> 'v) list) btree_map" where
  "alist_btree_map before =
     \<lparr>bt_empty = [], bt_find = map_of,
      bt_insert = (\<lambda>m k v. if map_of m k = None then (k, v) # m else m),
      bt_assign = (\<lambda>m k v. (k, v) # filter (\<lambda>e. fst e \<noteq> k) m),
      bt_erase = (\<lambda>m k. filter (\<lambda>e. fst e \<noteq> k) m),
      bt_begin = (\<lambda>m. case m of [] \<Rightarrow> None
        | e # es \<Rightarrow>
            let k = first_of before es (fst e)
            in Some (k, the (map_of m k)))\<rparr>"

lemma first_of_simps [simp]:
  "first_of before [] k = k"
  "first_of before (e # es) k =
     (if before (fst e) (first_of before es k) then fst e else first_of before es k)"
  by (simp_all add: first_of_def)

lemma first_of_in: "first_of before es k \<in> insert k (fst ` set es)"
  by (induction es) auto

lemma first_of_least:
  assumes trans: "\<And>a b c. before a b \<Longrightarrow> before b c \<Longrightarrow> before a c"
    and total: "\<And>a b. a = b \<or> before a b \<or> before b a"
    and "k' \<in> insert k (fst ` set es)"
  shows "k' = first_of before es k \<or> before (first_of before es k) k'"
  using assms(3)
proof (induction es)
  case (Cons e es)
  consider "k' = fst e" | "k' \<in> insert k (fst ` set es)" using Cons.prems by auto
  then show ?case
  proof cases
    case 1
    with total [of "fst e" "first_of before es k"] show ?thesis by auto
  next
    case 2
    with Cons.IH trans [of "fst e" "first_of before es k" k'] show ?thesis by auto
  qed
qed simp

lemma erase_map_of: "map_of (filter (\<lambda>e. fst e \<noteq> k) m) = (map_of m)(k := None)"
  by (induction m) (auto simp: fun_eq_iff)

lemma alist_btree_sel:
  "bt_empty (alist_btree_map before) = []" "bt_find (alist_btree_map before) = map_of"
  "bt_insert (alist_btree_map before) m k v = (if map_of m k = None then (k, v) # m else m)"
  "bt_assign (alist_btree_map before) m k v = (k, v) # filter (\<lambda>e. fst e \<noteq> k) m"
  "bt_erase (alist_btree_map before) m k = filter (\<lambda>e. fst e \<noteq> k) m"
  by (simp_all add: alist_btree_map_def)

lemma alist_btree_map_laws:
  assumes "\<And>a b c. before a b \<Longrightarrow> before b c \<Longrightarrow> before a c" and "\<And>a b. a = b \<or> before a b \<or> before b a"
  shows "btree_map_laws before (alist_btree_map before)"
proof -
  have "case bt_begin (alist_btree_map before) m of
        None \<Rightarrow> map_of m = Map.empty
      | Some (k, v) \<Rightarrow> map_of m k = Some v \<and> (\<forall>k'. map_of m k' \<noteq> None \<longrightarrow> k' = k \<or> before k k')"
    for m :: "('a \<times> 'b) list"
  proof (cases m)
    case (Cons e es)
    let ?k = "first_of before es (fst e)"
    have dom: "dom (map_of m) = insert (fst e) (fst ` set es)"
      using Cons by (auto simp: dom_map_of_conv_image_fst)
    have "?k \<in> dom (map_of m)" unfolding dom by (rule first_of_in)
    then obtain v where v: "map_of m ?k = Some v" by blast
    moreover have "k' = ?k \<or> before ?k k'" if "map_of m k' \<noteq> None" for k'
    proof -
      have "k' \<in> insert (fst e) (fst ` set es)" using that dom by blast
      then show ?thesis by (rule first_of_least [OF assms, rotated -1])
    qed
    ultimately show ?thesis using Cons by (simp add: alist_btree_map_def Let_def)
  qed (simp add: alist_btree_map_def)
  then show ?thesis
    unfolding btree_map_laws_def alist_btree_sel by (auto simp: erase_map_of)
qed

section \<open>The container\<close>

record 'm BTreeLevels =
  book :: 'm

type_synonym 'm price_tree = "Side \<Rightarrow> (u32, u64, 'm) btree_map"

text \<open>\<open>std::greater\<close> on the bid side and \<open>std::less\<close> on the other: the best price comes first.\<close>

definition tree_before :: "Side \<Rightarrow> u32 \<Rightarrow> u32 \<Rightarrow> bool" where
  "tree_before S a b = (if S = Bid then a > b else a < b)"

definition bt_init :: "'m price_tree \<Rightarrow> Side \<Rightarrow> 'm BTreeLevels" where
  "bt_init B S = \<lparr>book = bt_empty (B S)\<rparr>"

definition bt_add :: "'m price_tree \<Rightarrow> Side \<Rightarrow> 'm BTreeLevels \<Rightarrow> Level \<Rightarrow> 'm BTreeLevels result" where
  "bt_add B S l level =
     (let p = Level.price level;
          m = bt_insert (B S) (book l) p 0
      in Inr (l\<lparr>book := bt_assign (B S) m p (the (bt_find (B S) m p) + Level.qty level)\<rparr>))"

definition bt_remove :: "'m price_tree \<Rightarrow> Side \<Rightarrow> 'm BTreeLevels \<Rightarrow> Level \<Rightarrow> 'm BTreeLevels result" where
  "bt_remove B S l level =
     (let p = Level.price level in
      case bt_find (B S) (book l) p of
        None \<Rightarrow> abort_unexpected ''Remove didn't find level''
      | Some q \<Rightarrow>
          rbind (UNEXPECTED (Level.qty level > q) ''Remove underflow'') (\<lambda>_.
            let m = bt_assign (B S) (book l) p (q - Level.qty level)
            in Inr (l\<lparr>book := (if q - Level.qty level = 0 then bt_erase (B S) m p else m)\<rparr>)))"

definition bt_best :: "'m price_tree \<Rightarrow> Side \<Rightarrow> 'm BTreeLevels \<Rightarrow> (Level \<times> 'm BTreeLevels) result" where
  "bt_best B S l =
     Inr (case bt_begin (B S) (book l) of
            None \<Rightarrow> \<lparr>Level.qty = 0, Level.price = 0\<rparr>
          | Some (p, q) \<Rightarrow> \<lparr>Level.qty = q, Level.price = p\<rparr>, l)"

definition btree_ops :: "'m price_tree \<Rightarrow> 'm BTreeLevels store_ops" where
  "btree_ops B =
     \<lparr>store_init = bt_init B, store_add = bt_add B, store_remove = bt_remove B, store_best = bt_best B\<rparr>"

text \<open>The depth is read through the tree of either side: the laws hold of both.\<close>

definition tree_laws :: "'m price_tree \<Rightarrow> bool" where
  "tree_laws B \<longleftrightarrow> (\<forall>S. btree_map_laws (tree_before S) (B S)) \<and> (\<forall>S. bt_find (B S) = bt_find (B Bid))"

definition bt_depth :: "'m price_tree \<Rightarrow> 'm BTreeLevels \<Rightarrow> depth" where
  "bt_depth B l = bt_find (B Bid) (book l)"

lemma tree_before_iff: "tree_before S a b \<longleftrightarrow> lvl_lt S b a"
  by (simp add: tree_before_def lvl_lt_def)

lemma tree_find: "tree_laws B \<Longrightarrow> bt_find (B S) m = bt_find (B Bid) m"
  unfolding tree_laws_def by metis

lemma tree_laws_side: "tree_laws B \<Longrightarrow> btree_map_laws (tree_before S) (B S)"
  by (simp add: tree_laws_def)

text \<open>Each operation on the depth.\<close>

lemma bt_init_ok: "tree_laws B \<Longrightarrow> bt_depth B (bt_init B S) = Map.empty"
  using btree_map_lawsD(1) [OF tree_laws_side, of B S] by (simp add: bt_init_def bt_depth_def tree_find [of B S])

lemma bt_add_ok:
  assumes B: "tree_laws B"
  shows "\<exists>l'. bt_add B S l v = Inr l' \<and> bt_depth B l' = spec_add (bt_depth B l) v"
proof -
  let ?p = "Level.price v" and ?m = "bt_insert (B S) (book l) (Level.price v) 0"
  note find = tree_find [OF B, of S] and laws = tree_laws_side [OF B, of S]
  have m: "bt_find (B Bid) ?m = (if bt_depth B l ?p = None then (bt_depth B l)(?p \<mapsto> 0) else bt_depth B l)"
    using btree_map_lawsD(2) [OF laws, of "book l" ?p 0] by (simp add: find bt_depth_def)
  then have "bt_find (B Bid) (bt_assign (B S) ?m ?p q) = (bt_depth B l)(?p \<mapsto> q)" for q
    using btree_map_lawsD(3) [OF laws, of ?m ?p q] by (simp add: find fun_eq_iff split: if_splits)
  then show ?thesis
    by (auto simp: bt_add_def Let_def bt_depth_def find m spec_add_def split: option.splits)
qed

lemma bt_remove_ok:
  assumes B: "tree_laws B" and d: "spec_remove (bt_depth B l) v = Some d"
  shows "\<exists>l'. bt_remove B S l v = Inr l' \<and> bt_depth B l' = d"
proof -
  let ?p = "Level.price v"
  note find = tree_find [OF B, of S] and laws = tree_laws_side [OF B, of S]
  obtain q where q: "bt_find (B Bid) (book l) ?p = Some q" "Level.qty v \<le> q"
    and d: "d = (if q - Level.qty v = 0 then (bt_depth B l)(?p := None) else (bt_depth B l)(?p \<mapsto> q - Level.qty v))"
    using d by (auto simp: spec_remove_Some bt_depth_def)
  have assign: "bt_find (B Bid) (bt_assign (B S) (book l) ?p r) = (bt_depth B l)(?p \<mapsto> r)" for r
    using btree_map_lawsD(3) [OF laws, of "book l" ?p r] q(1) by (simp add: find bt_depth_def)
  have "bt_find (B Bid) (bt_erase (B S) (bt_assign (B S) (book l) ?p r) ?p) = (bt_depth B l)(?p := None)" for r
    using btree_map_lawsD(4) [OF laws, of "bt_assign (B S) (book l) ?p r" ?p] by (simp add: find assign)
  with assign q d show ?thesis
    by (simp add: bt_remove_def Let_def find leD) (simp add: bt_depth_def)
qed

lemma bt_best_ok:
  assumes B: "tree_laws B"
  shows "\<exists>v. bt_best B S l = Inr (v, l) \<and> is_best S (bt_depth B l) v"
proof (cases "bt_begin (B S) (book l)")
  case None
  with btree_map_lawsD(5) [OF tree_laws_side [OF B] None] show ?thesis
    by (simp add: bt_best_def is_best_def bt_depth_def tree_find [OF B, of S] empty_level_def)
next
  case (Some e)
  obtain p q where e: "bt_begin (B S) (book l) = Some (p, q)" using Some by (cases e) simp
  then have "bt_depth B l p = Some q" and "\<And>r. r \<in> dom (bt_depth B l) \<Longrightarrow> r = p \<or> lvl_lt S r p"
    using btree_map_lawsD(6,7) [OF tree_laws_side [OF B] e]
    by (auto simp: bt_depth_def tree_find [OF B, of S] tree_before_iff)
  moreover from this(1) have "bt_depth B l \<noteq> Map.empty" by auto
  ultimately show ?thesis using e by (auto simp: bt_best_def is_best_def)
qed

lemma btree_store:
  assumes B: "tree_laws B"
  shows "total_store (btree_ops B) (bt_depth B) (\<lambda>S l. True) any_level"
proof
  show "True \<and> bt_depth B (store_init (btree_ops B) S) = Map.empty" for S
    by (simp add: btree_ops_def bt_init_ok [OF B])
  show "\<exists>s'. store_add (btree_ops B) S s v = Inr s' \<and> True \<and> bt_depth B s' = spec_add (bt_depth B s) v"
    for S s v using bt_add_ok [OF B] by (simp add: btree_ops_def)
  show "\<exists>s'. store_remove (btree_ops B) S s v = Inr s' \<and> True \<and> bt_depth B s' = d"
    if "spec_remove (bt_depth B s) v = Some d" for S s v d
    using bt_remove_ok [OF B that] by (simp add: btree_ops_def)
  show "\<exists>v s'. store_best (btree_ops B) S s = Inr (v, s') \<and> is_best S (bt_depth B s) v \<and> True \<and>
        bt_depth B s' = bt_depth B s" for S s
    using bt_best_ok [OF B, of S s] by (auto simp: btree_ops_def)
  show "\<exists>s'. store_best (btree_ops B) S s = Inr (empty_level, s') \<and> True \<and> bt_depth B s' = bt_depth B s"
    if "bt_depth B s = Map.empty" for S s
    using bt_best_ok [OF B, of S s] that by (auto simp: btree_ops_def is_best_def)
qed

lemma alist_tree_laws: "tree_laws (\<lambda>S. alist_btree_map (tree_before S))"
proof -
  have "btree_map_laws (tree_before S)
      (alist_btree_map (tree_before S) :: (u32, u64, (u32 \<times> u64) list) btree_map)" for S
  proof (rule alist_btree_map_laws)
    show "tree_before S a c" if "tree_before S a b" "tree_before S b c" for a b c
      using that unfolding tree_before_iff by (rule lvl_lt_trans [rotated])
    show "a = b \<or> tree_before S a b \<or> tree_before S b a" for a b
      using lvl_lt_total [of a b S] by (auto simp: tree_before_iff)
  qed
  then show ?thesis by (simp add: tree_laws_def alist_btree_sel)
qed

end
