(* ===== verification/Price_Map.thy ===== *)
theory Price_Map
  imports Level_Stores
begin

text \<open>
  \<open>include/levels/hash_map.hpp\<close>: the open hash table from prices to quantities, 1024 buckets of
  eight slots, where the key 0 marks a free slot. On keys other than 0 its operations are those of
  a finite map as long as a bucket has room.
\<close>

section \<open>The table\<close>

record Entry =
  key :: u64
  "value" :: u64

definition bucket_size :: nat where
  "bucket_size = 128 div 16"

definition table_size :: nat where
  "table_size = 8192"

definition buckets :: nat where
  "buckets = table_size div bucket_size"

record PriceToQtyMap =
  table :: "nat \<Rightarrow> Entry list"

definition pm_init :: PriceToQtyMap where
  "pm_init = \<lparr>table = (\<lambda>_. replicate bucket_size \<lparr>key = 0, value = 0\<rparr>)\<rparr>"

definition pm_hash :: "u64 \<Rightarrow> u64" where
  "pm_hash x0 =
     (let x1 = x0 XOR drop_bit 33 x0;
          x2 = x1 * 0xff51afd7ed558ccd;
          x3 = x2 XOR drop_bit 33 x2;
          x4 = x3 * 0xc4ceb9fe1a85ec53
      in x4 XOR drop_bit 33 x4)"

definition pm_bucket :: "u64 \<Rightarrow> nat" where
  "pm_bucket k = unat (pm_hash k AND (of_nat buckets - 1))"

definition slots_of :: "PriceToQtyMap \<Rightarrow> u64 \<Rightarrow> Entry list" where
  "slots_of m k = table m (pm_bucket k)"

definition put_slots :: "PriceToQtyMap \<Rightarrow> u64 \<Rightarrow> Entry list \<Rightarrow> PriceToQtyMap" where
  "put_slots m k s = m\<lparr>table := (table m)(pm_bucket k := s)\<rparr>"

definition pm_insert :: "PriceToQtyMap \<Rightarrow> u64 \<Rightarrow> u64 \<Rightarrow> PriceToQtyMap result" where
  "pm_insert m k v =
     (let s = slots_of m k; i = find_if (\<lambda>e. key e = 0) s
      in if i < length s then Inr (put_slots m k (s[i := \<lparr>key = k, value = v\<rparr>]))
         else abort_unexpected ''Bucket full!'')"

text \<open>The pointer \<open>find\<close> returns, as the slot of the key's bucket it points into; it searches backwards.\<close>

definition pm_find :: "PriceToQtyMap \<Rightarrow> u64 \<Rightarrow> nat option" where
  "pm_find m k =
     (let s = slots_of m k; i = find_if (\<lambda>e. key e = k) (rev s)
      in if i < length s then Some (length s - 1 - i) else None)"

text \<open>A read and a write through that pointer.\<close>

definition pm_read :: "PriceToQtyMap \<Rightarrow> u64 \<Rightarrow> nat \<Rightarrow> u64" where
  "pm_read m k i = value (slots_of m k ! i)"

definition pm_write :: "PriceToQtyMap \<Rightarrow> u64 \<Rightarrow> nat \<Rightarrow> u64 \<Rightarrow> PriceToQtyMap" where
  "pm_write m k i v = put_slots m k ((slots_of m k)[i := (slots_of m k ! i)\<lparr>value := v\<rparr>])"

definition pm_at :: "PriceToQtyMap \<Rightarrow> u64 \<Rightarrow> u64 result" where
  "pm_at m k =
     (let s = slots_of m k; i = find_if (\<lambda>e. key e = k) s
      in if i < length s then Inr (value (s ! i)) else abort_unexpected ''Value not found for key'')"

definition pm_erase :: "PriceToQtyMap \<Rightarrow> u64 \<Rightarrow> PriceToQtyMap result" where
  "pm_erase m k =
     (let s = slots_of m k; i = find_if (\<lambda>e. k = key e) s
      in if i < length s then Inr (put_slots m k (s[i := (s ! i)\<lparr>key := 0\<rparr>]))
         else abort_unexpected ''Unable to delete, key not found!'')"

section \<open>One bucket\<close>

text \<open>A key other than 0 stands in at most one slot.\<close>

definition slots_ok :: "Entry list \<Rightarrow> bool" where
  "slots_ok s \<longleftrightarrow>
     length s = bucket_size \<and>
     (\<forall>i < length s. \<forall>j < length s. key (s ! i) = key (s ! j) \<longrightarrow> key (s ! i) \<noteq> 0 \<longrightarrow> i = j)"

definition look :: "Entry list \<Rightarrow> u64 \<Rightarrow> u64 option" where
  "look s k =
     (let i = find_if (\<lambda>e. key e = k) s in if i < length s then Some (value (s ! i)) else None)"

lemma find_if_le: "find_if P xs \<le> length xs"
  by (induction xs) auto

lemma find_if_nth: "find_if P xs < length xs \<Longrightarrow> P (xs ! find_if P xs)"
  by (induction xs) (auto split: if_splits)

lemma find_if_None: "find_if P xs < length xs \<longleftrightarrow> (\<exists>x \<in> set xs. P x)"
  by (induction xs) auto

lemma find_if_unique:
  assumes "i < length xs" and "P (xs ! i)" and unique: "\<And>j. j < length xs \<Longrightarrow> P (xs ! j) \<Longrightarrow> j = i"
  shows "find_if P xs = i"
proof (rule find_if_eq)
  show "\<not> P (xs ! j)" if "j < i" for j
    using unique [of j] that assms(1) by linarith
  show "i \<le> length xs" and "P (xs ! i)" using assms(1,2) by simp_all
qed

lemma slots_okD:
  "slots_ok s \<Longrightarrow> i < length s \<Longrightarrow> j < length s \<Longrightarrow> key (s ! i) = k \<Longrightarrow> key (s ! j) = k \<Longrightarrow>
   k \<noteq> 0 \<Longrightarrow> i = j"
  by (simp add: slots_ok_def)

lemma slots_unique:
  assumes "slots_ok s" and "k \<noteq> 0" and "i < length s" and "key (s ! i) = k"
  shows "find_if (\<lambda>e. key e = k) s = i"
  by (rule find_if_unique) (use assms slots_okD [OF assms(1) _ assms(3) _ assms(4,2)] in blast)+

lemma slots_unique_rev:
  assumes "slots_ok s" and "k \<noteq> 0" and "i < length s" and "key (s ! i) = k"
  shows "find_if (\<lambda>e. key e = k) (rev s) = length s - 1 - i"
proof (rule find_if_unique)
  show "length s - 1 - i < length (rev s)" using assms(3) by simp
  show "key (rev s ! (length s - 1 - i)) = k" using assms(3,4) by (simp add: rev_nth)
  show "j = length s - 1 - i" if j: "j < length (rev s)" "key (rev s ! j) = k" for j
  proof -
    have "length s - Suc j = i"
      using slots_okD [OF assms(1) _ assms(3) _ assms(4,2), of "length s - Suc j"] j
      by (simp add: rev_nth)
    then show ?thesis using j(1) by simp
  qed
qed

lemma look_Some: "slots_ok s \<Longrightarrow> k \<noteq> 0 \<Longrightarrow> i < length s \<Longrightarrow> key (s ! i) = k \<Longrightarrow> look s k = Some (value (s ! i))"
  by (simp add: look_def slots_unique)

lemma look_None: "look s k = None \<longleftrightarrow> (\<forall>i < length s. key (s ! i) \<noteq> k)"
proof -
  have "look s k = None \<longleftrightarrow> (\<forall>x \<in> set s. key x \<noteq> k)"
    using find_if_None [of "\<lambda>e. key e = k" s] by (simp add: look_def Let_def)
  then show ?thesis by (simp add: all_set_conv_all_nth)
qed

text \<open>Writing one slot.\<close>

lemma slots_ok_update:
  assumes ok: "slots_ok s" and i: "i < length s"
    and free: "key e \<noteq> 0 \<Longrightarrow> (\<forall>j < length s. j \<noteq> i \<longrightarrow> key (s ! j) \<noteq> key e)"
  shows "slots_ok (s[i := e])"
proof -
  have "j = j'"
    if "j < length s" "j' < length s" "key (s[i := e] ! j) = key (s[i := e] ! j')" "key (s[i := e] ! j) \<noteq> 0" for j j'
  proof (cases "j = i \<or> j' = i")
    case True
    with that free i show ?thesis by (cases "j = i"; cases "j' = i") (simp_all, metis+)
  next
    case False
    with that slots_okD [OF ok, of j j'] show ?thesis by simp
  qed
  with ok show ?thesis by (simp add: slots_ok_def [of "s[i := e]"]) (simp add: slots_ok_def)
qed

lemma look_None_update:
  "look s k = None \<Longrightarrow> key e \<noteq> k \<Longrightarrow> look (s[i := e]) k = None"
  unfolding look_None by (cases "i < length s") (simp_all add: nth_list_update)

lemma look_update:
  assumes ok: "slots_ok s" and i: "i < length s" and k: "k \<noteq> 0"
    and free: "key e \<noteq> 0 \<Longrightarrow> (\<forall>j < length s. j \<noteq> i \<longrightarrow> key (s ! j) \<noteq> key e)"
  shows "look (s[i := e]) k =
    (if k = key e then Some (value e) else if k = key (s ! i) then None else look s k)"
proof -
  note ok' = slots_ok_update [OF ok i free]
  consider "k = key e" | "k \<noteq> key e" "k = key (s ! i)" | "k \<noteq> key e" "k \<noteq> key (s ! i)" by blast
  then show ?thesis
  proof cases
    case 1
    with look_Some [OF ok' k, of i] i show ?thesis by simp
  next
    case 2
    have "key (s ! j) \<noteq> k" if "j < length s" "j \<noteq> i" for j
      using slots_okD [OF ok that(1) i] that 2 k by metis
    then have "look (s[i := e]) k = None"
      unfolding look_None using 2 i by (metis length_list_update nth_list_update)
    with 2 show ?thesis by simp
  next
    case 3
    show ?thesis
    proof (cases "look s k")
      case None
      then have "look (s[i := e]) k = None" using 3 by (intro look_None_update) auto
      with 3 None show ?thesis by simp
    next
      case (Some v)
      then obtain j where j: "j < length s" "key (s ! j) = k"
        using look_None [of s k] by auto
      with 3 have "j \<noteq> i" by auto
      with look_Some [OF ok' k, of j] look_Some [OF ok k j] j 3 show ?thesis by simp
    qed
  qed
qed

section \<open>The table as a finite map\<close>

definition pm_map :: "PriceToQtyMap \<Rightarrow> u64 \<rightharpoonup> u64" where
  "pm_map m k = (if k = 0 then None else look (slots_of m k) k)"

definition pm_inv :: "PriceToQtyMap \<Rightarrow> bool" where
  "pm_inv m \<longleftrightarrow>
     (\<forall>b. slots_ok (table m b) \<and>
        (\<forall>e \<in> set (table m b). key e \<noteq> 0 \<longrightarrow> pm_bucket (key e) = b))"

text \<open>The bucket of the key has a free slot.\<close>

definition pm_room :: "PriceToQtyMap \<Rightarrow> u64 \<Rightarrow> bool" where
  "pm_room m k \<longleftrightarrow> (\<exists>e \<in> set (slots_of m k). key e = 0)"

lemma pm_inv_slots: "pm_inv m \<Longrightarrow> slots_ok (slots_of m k)"
  by (simp add: pm_inv_def slots_of_def)

lemma pm_inv_put:
  assumes "pm_inv m" and "i < length (slots_of m k)"
    and "key e \<noteq> 0 \<Longrightarrow> key e = k \<and> (\<forall>j < length (slots_of m k). j \<noteq> i \<longrightarrow> key (slots_of m k ! j) \<noteq> k)"
  shows "pm_inv (put_slots m k ((slots_of m k)[i := e]))"
  using assms slots_ok_update [OF pm_inv_slots [OF assms(1)] assms(2), of e]
  by (auto simp: pm_inv_def put_slots_def slots_of_def dest: set_update_subset_insert [THEN subsetD])

lemma pm_map_put:
  assumes "pm_inv m" and "i < length (slots_of m k)"
    and "key e \<noteq> 0 \<Longrightarrow> key e = k \<and> (\<forall>j < length (slots_of m k). j \<noteq> i \<longrightarrow> key (slots_of m k ! j) \<noteq> k)"
  shows "pm_map (put_slots m k ((slots_of m k)[i := e])) k' =
    (if k' = 0 then None
     else if pm_bucket k' = pm_bucket k \<and> k' = key e then Some (value e)
     else if pm_bucket k' = pm_bucket k \<and> k' = key (slots_of m k ! i) then None
     else pm_map m k')"
proof -
  have free: "key e \<noteq> 0 \<Longrightarrow> \<forall>j < length (slots_of m k). j \<noteq> i \<longrightarrow> key (slots_of m k ! j) \<noteq> key e"
    using assms(3) by auto
  show ?thesis
    using look_update [OF pm_inv_slots [OF assms(1)] assms(2) _ free]
    by (auto simp: pm_map_def put_slots_def slots_of_def)
qed

lemma pm_init_ok: "pm_inv pm_init \<and> pm_map pm_init = Map.empty"
proof -
  have "look (replicate n \<lparr>key = 0, value = 0\<rparr>) k = None" if "k \<noteq> 0" for n k
    using that by (auto simp: look_None)
  then show ?thesis
    by (auto simp: pm_inv_def pm_init_def slots_ok_def pm_map_def slots_of_def fun_eq_iff)
qed

lemma pm_map_fresh:
  "k \<noteq> 0 \<Longrightarrow> pm_map m k = None \<Longrightarrow> j < length (slots_of m k) \<Longrightarrow> key (slots_of m k ! j) \<noteq> k"
  by (simp add: pm_map_def look_None)

lemma pm_insert_ok:
  assumes inv: "pm_inv m" and k: "k \<noteq> 0" and fresh: "pm_map m k = None" and room: "pm_room m k"
  shows "\<exists>m'. pm_insert m k v = Inr m' \<and> pm_inv m' \<and> pm_map m' = (pm_map m)(k \<mapsto> v)"
proof -
  let ?s = "slots_of m k" and ?i = "find_if (\<lambda>e. key e = 0) (slots_of m k)"
  let ?m = "put_slots m k (?s[?i := \<lparr>key = k, value = v\<rparr>])"
  have i: "?i < length ?s" using room by (simp add: pm_room_def find_if_None)
  have zero: "key (?s ! ?i) = 0" using find_if_nth [OF i] .
  have free: "key \<lparr>key = k, value = v\<rparr> = k \<and> (\<forall>j < length ?s. j \<noteq> ?i \<longrightarrow> key (?s ! j) \<noteq> k)"
    using pm_map_fresh [OF k fresh] by simp
  have "pm_insert m k v = Inr ?m" using i by (simp add: pm_insert_def Let_def)
  moreover have "pm_inv ?m" by (rule pm_inv_put [OF inv i free])
  moreover have "pm_map ?m = (pm_map m)(k \<mapsto> v)"
    using pm_map_put [OF inv i free] k zero by (auto simp: fun_eq_iff pm_map_def)
  ultimately show ?thesis by blast
qed

lemma pm_insert_full: "\<not> pm_room m k \<Longrightarrow> pm_insert m k v = Inl (Unexpected ''Bucket full!'')"
  using find_if_None [of "\<lambda>e. key e = 0" "slots_of m k"]
  by (simp add: pm_insert_def Let_def pm_room_def abort_unexpected_def)

text \<open>\<open>find\<close>, \<open>operator[]\<close> and \<open>erase\<close> all meet the one slot of a key.\<close>

lemma pm_slot:
  assumes inv: "pm_inv m" and k: "k \<noteq> 0"
  obtains (absent) "pm_map m k = None" "pm_find m k = None"
      "\<not> find_if (\<lambda>e. key e = k) (slots_of m k) < length (slots_of m k)"
    | (there) i where "i < length (slots_of m k)" "key (slots_of m k ! i) = k"
      "pm_find m k = Some i" "pm_map m k = Some (pm_read m k i)"
      "find_if (\<lambda>e. key e = k) (slots_of m k) = i"
proof (cases "\<exists>i < length (slots_of m k). key (slots_of m k ! i) = k")
  case True
  then obtain i where i: "i < length (slots_of m k)" "key (slots_of m k ! i) = k" by blast
  note ok = pm_inv_slots [OF inv, of k]
  show ?thesis
    using i slots_unique [OF ok k i] slots_unique_rev [OF ok k i] look_Some [OF ok k i] k
    by (intro there [of i]) (simp_all add: pm_find_def pm_map_def pm_read_def Let_def)
next
  case False
  then have "\<not> find_if (\<lambda>e. key e = k) (slots_of m k) < length (slots_of m k)"
    and "\<not> find_if (\<lambda>e. key e = k) (rev (slots_of m k)) < length (slots_of m k)"
    using find_if_None [of "\<lambda>e. key e = k" "slots_of m k"]
      find_if_None [of "\<lambda>e. key e = k" "rev (slots_of m k)"]
    by (auto simp: in_set_conv_nth)
  with False k show ?thesis
    by (intro absent) (auto simp: pm_map_def look_None pm_find_def Let_def)
qed

lemma pm_write_ok:
  assumes inv: "pm_inv m" and k: "k \<noteq> 0" and f: "pm_find m k = Some i"
  shows "pm_inv (pm_write m k i v) \<and> pm_map (pm_write m k i v) = (pm_map m)(k \<mapsto> v)"
  using inv k
proof (cases rule: pm_slot)
  case (there j)
  with f have ij: "i = j" by simp
  let ?e = "(slots_of m k ! i)\<lparr>value := v\<rparr>"
  have free: "key ?e = k \<and> (\<forall>j < length (slots_of m k). j \<noteq> i \<longrightarrow> key (slots_of m k ! j) \<noteq> k)"
    using pm_inv_slots [OF inv, of k] there k ij by (auto simp: slots_ok_def)
  show ?thesis
    unfolding pm_write_def
    using pm_inv_put [OF inv, of i k ?e] pm_map_put [OF inv, of i k ?e] there k ij free
    by (auto simp: fun_eq_iff pm_map_def)
qed (use f in simp)

lemma pm_erase_ok:
  assumes inv: "pm_inv m" and k: "k \<noteq> 0" and there: "pm_map m k \<noteq> None"
  shows "\<exists>m'. pm_erase m k = Inr m' \<and> pm_inv m' \<and> pm_map m' = (pm_map m)(k := None)"
  using inv k
proof (cases rule: pm_slot)
  case (there i)
  let ?m = "put_slots m k ((slots_of m k)[i := (slots_of m k ! i)\<lparr>key := 0\<rparr>])"
  have e: "(\<lambda>e. k = key e) = (\<lambda>e. key e = k)" by auto
  have "pm_erase m k = Inr ?m" using there by (simp add: pm_erase_def Let_def e)
  moreover have "pm_inv ?m" using there by (intro pm_inv_put [OF inv]) auto
  moreover have "pm_map ?m = (pm_map m)(k := None)"
    using pm_map_put [OF inv there(1), of "(slots_of m k ! i)\<lparr>key := 0\<rparr>"] there k
    by (auto simp: fun_eq_iff pm_map_def)
  ultimately show ?thesis by blast
qed (use there in simp)


section \<open>Properties\<close>

text \<open>What the operations do at a key the map has, and at one it does not have.\<close>

definition map_ops_there :: "PriceToQtyMap \<Rightarrow> u64 \<Rightarrow> u64 \<Rightarrow> bool" where
  "map_ops_there m k v \<longleftrightarrow>
     (\<exists>i. pm_find m k = Some i \<and> pm_map m k = Some (pm_read m k i) \<and> pm_at m k = Inr (pm_read m k i) \<and>
        pm_inv (pm_write m k i v) \<and> pm_map (pm_write m k i v) = (pm_map m)(k \<mapsto> v)) \<and>
     (\<exists>m'. pm_erase m k = Inr m' \<and> pm_inv m' \<and> pm_map m' = (pm_map m)(k := None))"

definition map_ops_absent :: "PriceToQtyMap \<Rightarrow> u64 \<Rightarrow> u64 \<Rightarrow> bool" where
  "map_ops_absent m k v \<longleftrightarrow>
     pm_find m k = None \<and>
     pm_at m k = Inl (Unexpected ''Value not found for key'') \<and>
     pm_erase m k = Inl (Unexpected ''Unable to delete, key not found!'') \<and>
     (if pm_room m k
      then \<exists>m'. pm_insert m k v = Inr m' \<and> pm_inv m' \<and> pm_map m' = (pm_map m)(k \<mapsto> v)
      else pm_insert m k v = Inl (Unexpected ''Bucket full!''))"

text \<open>
  C23. The hash table is a finite map on the keys other than 0. At a key it has, \<open>find\<close> and
  \<open>operator[]\<close> reach its value, a write through the pointer updates the map at that key only, and
  \<open>erase\<close> removes it; at a key it does not have, \<open>find\<close> answers null, \<open>operator[]\<close> and \<open>erase\<close>
  abort, and \<open>insert\<close> adds it, or aborts exactly when the eight slots of its bucket are taken. All
  of them keep the table well formed.
\<close>

theorem price_map_refines_map:
  assumes "pm_inv m" and "k \<noteq> 0"
  shows "if pm_map m k = None then map_ops_absent m k v else map_ops_there m k v"
  using assms
proof (cases rule: pm_slot)
  case absent
  have e: "(\<lambda>e. k = key e) = (\<lambda>e. key e = k)" by auto
  have "map_ops_absent m k v"
    unfolding map_ops_absent_def
    using absent pm_insert_ok [OF assms absent(1)] pm_insert_full [of m k v]
    by (simp add: pm_at_def pm_erase_def Let_def e abort_unexpected_def)
  with absent show ?thesis by simp
next
  case (there i)
  have "map_ops_there m k v"
    unfolding map_ops_there_def
    using there pm_write_ok [OF assms there(3), of v] pm_erase_ok [OF assms]
    by (simp add: pm_at_def Let_def pm_read_def)
  with there show ?thesis by simp
qed

lemma price_map_refines_map_witness: "map_ops_absent pm_init 5000 7"
  using price_map_refines_map [of pm_init 5000 7] pm_init_ok by simp

end
