(* ===== verification/Heap_Levels.thy ===== *)
theory Heap_Levels
  imports Price_Map Absl
begin

text \<open>
  The containers with a priority queue of prices and a map from prices to quantities:
  \<open>include/levels/heap_level.hpp\<close> over \<open>absl::flat_hash_map\<close> and
  \<open>include/levels/heap_levels_custom_map.hpp\<close> over the table of \<open>hash_map.hpp\<close>. A price whose
  quantity is gone stays in the queue until \<open>best\<close> meets it at the top and drops it.
\<close>

section \<open>\<open>std::priority_queue\<close> of prices\<close>

text \<open>
  The standard library's queue with the comparator of the side, whose greatest element is on top:
  the list of its elements, the top first. \<open>push\<close>, \<open>top\<close> and \<open>pop\<close> are insertion, head and tail.
\<close>

fun pq_push :: "Side \<Rightarrow> u32 \<Rightarrow> u32 list \<Rightarrow> u32 list" where
  "pq_push S p [] = [p]"
| "pq_push S p (x # xs) = (if lvl_lt S x p then p # x # xs else x # pq_push S p xs)"

definition pq_ok :: "Side \<Rightarrow> u32 list \<Rightarrow> bool" where
  "pq_ok S ps \<longleftrightarrow> sorted_wrt (\<lambda>a b. a = b \<or> lvl_lt S b a) ps"

lemma set_pq_push [simp]: "set (pq_push S p ps) = insert p (set ps)"
  by (induction S p ps rule: pq_push.induct) auto

lemma pq_ok_Nil [simp]: "pq_ok S []"
  by (simp add: pq_ok_def)

lemma pq_ok_Cons:
  "pq_ok S (p # ps) \<longleftrightarrow> (\<forall>q \<in> set ps. p = q \<or> lvl_lt S q p) \<and> pq_ok S ps"
  by (simp add: pq_ok_def)

lemma pq_ok_push: "pq_ok S ps \<Longrightarrow> pq_ok S (pq_push S p ps)"
proof (induction S p ps rule: pq_push.induct)
  case (2 S p x xs)
  then show ?case
    using lvl_lt_total [of x p S]
    by (auto simp: pq_ok_Cons intro: lvl_lt_trans)
qed (simp add: pq_ok_Cons)

text \<open>
  The loop of \<open>best\<close>: \<open>lookup\<close> is the map, an entry without a quantity is no entry.
\<close>

fun drop_dead :: "(u32 \<Rightarrow> u64 option) \<Rightarrow> u32 list \<Rightarrow> Level \<times> u32 list" where
  "drop_dead lookup [] = (\<lparr>Level.qty = 0, Level.price = 0\<rparr>, [])"
| "drop_dead lookup (p # ps) =
     (case lookup p of
        Some q \<Rightarrow> if q \<noteq> 0 then (\<lparr>Level.qty = q, Level.price = p\<rparr>, p # ps) else drop_dead lookup ps
      | None \<Rightarrow> drop_dead lookup ps)"

text \<open>Every listed price is in the queue, with a quantity.\<close>

definition pq_covers :: "u32 list \<Rightarrow> depth \<Rightarrow> bool" where
  "pq_covers ps d \<longleftrightarrow> dom d \<subseteq> set ps \<and> (\<forall>p. d p \<noteq> Some 0)"

lemma drop_dead_ok:
  assumes "pq_ok S ps" and "pq_covers ps d"
  shows "is_best S d (fst (drop_dead d ps)) \<and> pq_ok S (snd (drop_dead d ps)) \<and>
    pq_covers (snd (drop_dead d ps)) d"
  using assms
proof (induction ps)
  case Nil
  then show ?case by (simp add: pq_covers_def is_best_def empty_level_def)
next
  case (Cons p ps)
  show ?case
  proof (cases "d p")
    case None
    then have "pq_covers ps d" using Cons.prems by (auto simp: pq_covers_def)
    with None Cons show ?thesis by (simp add: pq_ok_Cons)
  next
    case (Some q)
    with Cons.prems have "q \<noteq> 0" by (auto simp: pq_covers_def)
    moreover have "d \<noteq> Map.empty" using Some by auto
    moreover have "r = p \<or> lvl_lt S r p" if "r \<in> dom d" for r
      using that Cons.prems by (auto simp: pq_ok_Cons pq_covers_def)
    ultimately show ?thesis
      using Some Cons.prems by (auto simp: is_best_def)
  qed
qed

lemma pq_covers_empty: "pq_covers [] Map.empty"
  by (simp add: pq_covers_def)

section \<open>Over \<open>absl::flat_hash_map\<close>\<close>

record 'm HeapLevels =
  heap :: "u32 list"
  qty_by_price :: 'm

type_synonym 'm qty_map = "(u32, u64, 'm) flat_hash_map"

definition heap_init :: "'m qty_map \<Rightarrow> Side \<Rightarrow> 'm HeapLevels" where
  "heap_init H S = \<lparr>heap = [], qty_by_price = hm_empty H\<rparr>"

text \<open>\<open>qty_by_price[level.price]\<close> inserts a zero for a new price and refers to its value.\<close>

definition heap_add :: "'m qty_map \<Rightarrow> Side \<Rightarrow> 'm HeapLevels \<Rightarrow> Level \<Rightarrow> 'm HeapLevels result" where
  "heap_add H S l level =
     (let p = Level.price level;
          m = hm_insert H (qty_by_price l) p 0;
          q = the (hm_find H m p);
          ps = (if q = 0 then pq_push S p (heap l) else heap l)
      in Inr \<lparr>heap = ps, qty_by_price = hm_assign H m p (q + Level.qty level)\<rparr>)"

definition heap_remove :: "'m qty_map \<Rightarrow> Side \<Rightarrow> 'm HeapLevels \<Rightarrow> Level \<Rightarrow> 'm HeapLevels result" where
  "heap_remove H S l level =
     (let p = Level.price level in
      case hm_find H (qty_by_price l) p of
        None \<Rightarrow> abort_unexpected ''Remove didn't find level''
      | Some q \<Rightarrow>
          rbind (UNEXPECTED (Level.qty level > q) ''Remove underflow'') (\<lambda>_.
            let m = hm_assign H (qty_by_price l) p (q - Level.qty level)
            in Inr (l\<lparr>qty_by_price := (if q - Level.qty level = 0 then hm_erase H m p else m)\<rparr>)))"

definition heap_best :: "'m qty_map \<Rightarrow> Side \<Rightarrow> 'm HeapLevels \<Rightarrow> (Level \<times> 'm HeapLevels) result" where
  "heap_best H S l =
     (let (v, ps) = drop_dead (hm_find H (qty_by_price l)) (heap l) in Inr (v, l\<lparr>heap := ps\<rparr>))"

definition heap_ops :: "'m qty_map \<Rightarrow> 'm HeapLevels store_ops" where
  "heap_ops H =
     \<lparr>store_init = heap_init H, store_add = heap_add H, store_remove = heap_remove H,
      store_best = heap_best H\<rparr>"

definition heap_depth :: "'m qty_map \<Rightarrow> 'm HeapLevels \<Rightarrow> depth" where
  "heap_depth H l = hm_find H (qty_by_price l)"

lemma heap_depth_upd [simp]:
  "heap_depth H (l\<lparr>qty_by_price := m\<rparr>) = hm_find H m"
  "heap_depth H \<lparr>heap = ps, qty_by_price = m\<rparr> = hm_find H m"
  "heap_depth H (l\<lparr>heap := ps\<rparr>) = heap_depth H l"
  by (simp_all add: heap_depth_def)

definition heap_inv :: "'m qty_map \<Rightarrow> Side \<Rightarrow> 'm HeapLevels \<Rightarrow> bool" where
  "heap_inv H S l \<longleftrightarrow> pq_ok S (heap l) \<and> pq_covers (heap l) (heap_depth H l)"

text \<open>A level whose price then has a quantity: not zero, and not wrapped to zero.\<close>

definition nonzero_fits :: "depth \<Rightarrow> Level \<Rightarrow> bool" where
  "nonzero_fits d v \<longleftrightarrow> spec_add d v (Level.price v) \<noteq> Some 0"

lemma pq_covers_add:
  assumes "pq_covers ps d" and "nonzero_fits d v" and "set ps \<subseteq> set ps'"
    and "d (Level.price v) = None \<Longrightarrow> Level.price v \<in> set ps'"
  shows "pq_covers ps' (spec_add d v)"
proof -
  have "Level.price v \<in> set ps'" using assms by (cases "d (Level.price v)") (auto simp: pq_covers_def)
  then show ?thesis
    using assms by (auto simp: pq_covers_def nonzero_fits_def spec_add_apply)
qed

lemma pq_covers_remove: "pq_covers ps d \<Longrightarrow> spec_remove d v = Some d' \<Longrightarrow> pq_covers ps d'"
  by (auto simp: pq_covers_def spec_remove_Some split: if_splits)

lemma heap_add_ok:
  assumes H: "flat_hash_map_laws H" and inv: "heap_inv H S l" and fits: "nonzero_fits (heap_depth H l) v"
  shows "\<exists>l'. heap_add H S l v = Inr l' \<and> heap_inv H S l' \<and> heap_depth H l' = spec_add (heap_depth H l) v"
proof -
  let ?p = "Level.price v"
  let ?m = "hm_insert H (qty_by_price l) ?p 0"
  let ?q = "case heap_depth H l ?p of None \<Rightarrow> 0 | Some q \<Rightarrow> q"
  let ?ps = "if heap_depth H l ?p = None then pq_push S ?p (heap l) else heap l"
  have m: "hm_find H ?m ?p = Some ?q"
    and dom: "hm_find H ?m = (if heap_depth H l ?p = None then (heap_depth H l)(?p \<mapsto> 0) else heap_depth H l)"
    using flat_hash_map_lawsD(2,3) [OF H, of "qty_by_price l" ?p 0]
    by (auto simp: heap_depth_def split: option.splits)
  have assign: "hm_find H (hm_assign H ?m ?p q) = (hm_find H ?m)(?p \<mapsto> q)" for q
    using flat_hash_map_lawsD(4) [OF H, of ?m ?p q] m by simp
  have zero: "?q = 0 \<longleftrightarrow> heap_depth H l ?p = None"
    using inv by (auto simp: heap_inv_def pq_covers_def split: option.splits)
  let ?l = "\<lparr>heap = ?ps, qty_by_price = hm_assign H ?m ?p (?q + Level.qty v)\<rparr>"
  have add: "heap_add H S l v = Inr ?l"
    by (simp add: heap_add_def Let_def m zero)
  have depth: "heap_depth H ?l = spec_add (heap_depth H l) v"
    by (auto simp: assign dom spec_add_def fun_eq_iff split: option.splits)
  have "pq_covers ?ps (spec_add (heap_depth H l) v)"
    using inv fits by (intro pq_covers_add [of "heap l"]) (auto simp: heap_inv_def)
  then have "heap_inv H S ?l"
    unfolding heap_inv_def depth using inv by (auto simp: heap_inv_def intro: pq_ok_push)
  with add depth show ?thesis by blast
qed

lemma heap_remove_ok:
  assumes H: "flat_hash_map_laws H" and inv: "heap_inv H S l" and s: "spec_remove (heap_depth H l) v = Some d"
  shows "\<exists>l'. heap_remove H S l v = Inr l' \<and> heap_inv H S l' \<and> heap_depth H l' = d"
proof -
  let ?p = "Level.price v"
  obtain q where q: "hm_find H (qty_by_price l) ?p = Some q" "Level.qty v \<le> q"
    and d: "d = (if q - Level.qty v = 0 then (heap_depth H l)(?p := None)
              else (heap_depth H l)(?p \<mapsto> q - Level.qty v))"
    using s by (auto simp: spec_remove_Some heap_depth_def)
  let ?m = "hm_assign H (qty_by_price l) ?p (q - Level.qty v)"
  let ?l = "l\<lparr>qty_by_price := (if q - Level.qty v = 0 then hm_erase H ?m ?p else ?m)\<rparr>"
  have m: "hm_find H (hm_assign H (qty_by_price l) ?p r) = (heap_depth H l)(?p \<mapsto> r)" for r
    using flat_hash_map_lawsD(4) [OF H] q(1) by (simp add: heap_depth_def)
  have "heap_remove H S l v = Inr ?l"
    using q by (simp add: heap_remove_def Let_def leD)
  moreover have depth: "heap_depth H ?l = d"
    using m d by (simp add: flat_hash_map_lawsD(5) [OF H])
  moreover have "heap_inv H S ?l"
    unfolding heap_inv_def depth using inv pq_covers_remove [OF _ s] by (simp add: heap_inv_def)
  ultimately show ?thesis by blast
qed

text \<open>The contract, for every hash map with the documented behaviour.\<close>

lemma heap_store:
  assumes H: "flat_hash_map_laws H"
  shows "total_store (heap_ops H) (heap_depth H) (heap_inv H) nonzero_fits"
proof
  note best = drop_dead_ok [of S "heap l" "heap_depth H l" for S l]
  show "heap_inv H S (store_init (heap_ops H) S) \<and> heap_depth H (store_init (heap_ops H) S) = Map.empty" for S
    using flat_hash_map_lawsD(1) [OF H] pq_covers_empty
    by (simp add: heap_ops_def heap_init_def heap_inv_def heap_depth_def)
  show "\<exists>s'. store_add (heap_ops H) S s v = Inr s' \<and> heap_inv H S s' \<and>
        heap_depth H s' = spec_add (heap_depth H s) v"
    if "heap_inv H S s" "nonzero_fits (heap_depth H s) v" for S s v
    using heap_add_ok [OF H that] by (simp add: heap_ops_def)
  show "\<exists>s'. store_remove (heap_ops H) S s v = Inr s' \<and> heap_inv H S s' \<and> heap_depth H s' = d"
    if "heap_inv H S s" "spec_remove (heap_depth H s) v = Some d" for S s v d
    using heap_remove_ok [OF H that] by (simp add: heap_ops_def)
  show "\<exists>v s'. store_best (heap_ops H) S s = Inr (v, s') \<and> is_best S (heap_depth H s) v \<and>
        heap_inv H S s' \<and> heap_depth H s' = heap_depth H s"
    if "heap_inv H S s" "heap_depth H s \<noteq> Map.empty" for S s
    using that best [of S s]
    by (auto simp: heap_ops_def heap_best_def heap_inv_def heap_depth_def split: prod.splits)
  show "\<exists>s'. store_best (heap_ops H) S s = Inr (empty_level, s') \<and> heap_inv H S s' \<and>
        heap_depth H s' = heap_depth H s"
    if "heap_inv H S s" "heap_depth H s = Map.empty" for S s
    using that best [of S s]
    by (auto simp: heap_ops_def heap_best_def heap_inv_def heap_depth_def is_best_def split: prod.splits)
qed


section \<open>Over the table of \<open>hash_map.hpp\<close>\<close>

record HeapLevelsCustomMap =
  cheap :: "u32 list"
  cmap :: PriceToQtyMap

definition hc_init :: "Side \<Rightarrow> HeapLevelsCustomMap" where
  "hc_init S = \<lparr>cheap = [], cmap = pm_init\<rparr>"

text \<open>A \<open>uint32_t\<close> price is converted to the table's \<open>uint64_t\<close> key.\<close>

definition hc_add :: "Side \<Rightarrow> HeapLevelsCustomMap \<Rightarrow> Level \<Rightarrow> HeapLevelsCustomMap result" where
  "hc_add S l level =
     (let k = ucast (Level.price level) in
      case pm_find (cmap l) k of
        None \<Rightarrow>
          rbind (pm_insert (cmap l) k (Level.qty level)) (\<lambda>m.
            Inr \<lparr>cheap = pq_push S (Level.price level) (cheap l), cmap = m\<rparr>)
      | Some i \<Rightarrow> Inr (l\<lparr>cmap := pm_write (cmap l) k i (pm_read (cmap l) k i + Level.qty level)\<rparr>))"

definition hc_remove :: "Side \<Rightarrow> HeapLevelsCustomMap \<Rightarrow> Level \<Rightarrow> HeapLevelsCustomMap result" where
  "hc_remove S l level =
     (let k = ucast (Level.price level) in
      case pm_find (cmap l) k of
        None \<Rightarrow> abort_unexpected ''Remove didn't find level''
      | Some i \<Rightarrow>
          rbind (UNEXPECTED (Level.qty level > pm_read (cmap l) k i) ''Remove underflow'') (\<lambda>_.
            let q = pm_read (cmap l) k i - Level.qty level;
                m = pm_write (cmap l) k i q
            in if q = 0 then rbind (pm_erase m k) (\<lambda>m'. Inr (l\<lparr>cmap := m'\<rparr>))
               else Inr (l\<lparr>cmap := m\<rparr>)))"

definition hc_lookup :: "PriceToQtyMap \<Rightarrow> u32 \<Rightarrow> u64 option" where
  "hc_lookup m p = map_option (pm_read m (ucast p)) (pm_find m (ucast p))"

definition hc_best :: "Side \<Rightarrow> HeapLevelsCustomMap \<Rightarrow> (Level \<times> HeapLevelsCustomMap) result" where
  "hc_best S l =
     (let (v, ps) = drop_dead (hc_lookup (cmap l)) (cheap l) in Inr (v, l\<lparr>cheap := ps\<rparr>))"

definition hc_ops :: "HeapLevelsCustomMap store_ops" where
  "hc_ops =
     \<lparr>store_init = hc_init, store_add = hc_add, store_remove = hc_remove, store_best = hc_best\<rparr>"

definition hc_depth :: "HeapLevelsCustomMap \<Rightarrow> depth" where
  "hc_depth l = (\<lambda>p. pm_map (cmap l) (ucast p))"

text \<open>Every key of the table is a price.\<close>

definition price_keys :: "PriceToQtyMap \<Rightarrow> bool" where
  "price_keys m \<longleftrightarrow> dom (pm_map m) \<subseteq> range (ucast :: u32 \<Rightarrow> u64)"

definition hc_inv :: "Side \<Rightarrow> HeapLevelsCustomMap \<Rightarrow> bool" where
  "hc_inv S l \<longleftrightarrow>
     pm_inv (cmap l) \<and> price_keys (cmap l) \<and> pq_ok S (cheap l) \<and>
     pq_covers (cheap l) (hc_depth l) \<and> 0 \<notin> set (cheap l)"

text \<open>
  A level fits if its price is not 0, its quantity does not vanish, and the price is listed or
  fewer than eight listed prices share its bucket.
\<close>

definition bucket_prices :: "depth \<Rightarrow> u32 \<Rightarrow> u32 set" where
  "bucket_prices d p = {r \<in> dom d. pm_bucket (ucast r) = pm_bucket (ucast p)}"

definition hc_fits :: "depth \<Rightarrow> Level \<Rightarrow> bool" where
  "hc_fits d v \<longleftrightarrow>
     Level.price v \<noteq> 0 \<and> nonzero_fits d v \<and>
     (d (Level.price v) \<noteq> None \<or> card (bucket_prices d (Level.price v)) < 8)"

lemma unat_price: "unat (ucast (p :: u32) :: u64) = unat p"
  using unsigned_less [of p, where 'a = nat] by (simp add: unsigned_ucast_eq take_bit_nat_eq_self)

lemma ucast_price [simp]: "(ucast (p :: u32) :: u64) = ucast q \<longleftrightarrow> p = q"
  by (metis unat_price word_unat_eq_iff)

lemma ucast_price_0 [simp]: "(ucast (p :: u32) :: u64) = 0 \<longleftrightarrow> p = 0"
  using ucast_price [of p 0] by simp

lemma hc_room:
  assumes inv: "hc_inv S l" and few: "card (bucket_prices (hc_depth l) p) < 8"
  shows "pm_room (cmap l) (ucast p)"
proof (rule ccontr)
  assume full: "\<not> pm_room (cmap l) (ucast p)"
  let ?s = "slots_of (cmap l) (ucast p)"
  have pm: "pm_inv (cmap l)" using inv by (simp add: hc_inv_def)
  note ok = pm_inv_slots [OF pm, of "ucast p"]
  have nz: "key e \<noteq> 0" if "e \<in> set ?s" for e using full that by (auto simp: pm_room_def)
  have "distinct (map key ?s)"
  proof -
    have "i = j" if "i < length ?s" "j < length ?s" "key (?s ! i) = key (?s ! j)" for i j
      using slots_okD [OF ok that(1,2) that(3) refl] nz [OF nth_mem [OF that(2)]] by blast
    then show ?thesis by (auto simp: distinct_conv_nth)
  qed
  then have "card (key ` set ?s) = 8"
    using ok distinct_card [of "map key ?s"] by (simp add: slots_ok_def bucket_size_def)
  moreover have "key ` set ?s \<subseteq> ucast ` bucket_prices (hc_depth l) p"
  proof
    fix k assume "k \<in> key ` set ?s"
    then obtain i where i: "i < length ?s" "key (?s ! i) = k" and k: "k \<noteq> 0"
      using nz by (auto simp: in_set_conv_nth)
    then have b: "pm_bucket k = pm_bucket (ucast p)"
      using pm by (auto simp: pm_inv_def slots_of_def)
    then have "pm_map (cmap l) k = Some (value (?s ! i))"
      using look_Some [OF ok k i] k by (simp add: pm_map_def slots_of_def)
    moreover from this obtain r :: u32 where "k = ucast r"
      using inv by (auto simp: hc_inv_def price_keys_def)
    ultimately show "k \<in> ucast ` bucket_prices (hc_depth l) p"
      using b by (auto simp: bucket_prices_def hc_depth_def)
  qed
  then have "card (key ` set ?s) \<le> card (bucket_prices (hc_depth l) p)"
    by (intro surj_card_le) simp_all
  ultimately show False using few by simp
qed

text \<open>Changing the map at one price.\<close>

lemma hc_depth_upd:
  assumes "pm_map m = (pm_map (cmap l))(ucast p := x)"
  shows "(\<lambda>r. pm_map m (ucast r)) = (hc_depth l)(p := x)"
  using assms by (auto simp: hc_depth_def fun_eq_iff)

lemma price_keys_upd:
  "price_keys m \<Longrightarrow> pm_map m' = (pm_map m)(ucast (p :: u32) := x) \<Longrightarrow> price_keys m'"
  by (cases x) (auto simp: price_keys_def)

lemma hc_add_ok:
  assumes inv: "hc_inv S l" and fits: "hc_fits (hc_depth l) v"
  shows "\<exists>l'. hc_add S l v = Inr l' \<and> hc_inv S l' \<and> hc_depth l' = spec_add (hc_depth l) v"
proof -
  let ?p = "Level.price v"
  let ?k = "ucast ?p :: u64"
  have pm: "pm_inv (cmap l)" and pk: "price_keys (cmap l)" and k: "?k \<noteq> 0"
    using inv fits by (simp_all add: hc_inv_def hc_fits_def)
  from pm k show ?thesis
  proof (cases rule: pm_slot)
    case absent
    then have none: "hc_depth l ?p = None" by (simp add: hc_depth_def)
    with fits have "pm_room (cmap l) ?k" by (intro hc_room [OF inv]) (simp add: hc_fits_def)
    from pm_insert_ok [OF pm k absent(1) this] obtain m where
      m: "pm_insert (cmap l) ?k (Level.qty v) = Inr m" "pm_inv m"
      "pm_map m = (pm_map (cmap l))(?k \<mapsto> Level.qty v)" by blast
    let ?l = "\<lparr>cheap = pq_push S ?p (cheap l), cmap = m\<rparr>"
    have "hc_add S l v = Inr ?l" using absent m by (simp add: hc_add_def Let_def)
    moreover have d: "hc_depth ?l = spec_add (hc_depth l) v"
      using hc_depth_upd [OF m(3)] none by (simp add: hc_depth_def spec_add_def)
    moreover have "pq_covers (pq_push S ?p (cheap l)) (spec_add (hc_depth l) v)"
      using inv fits by (intro pq_covers_add [of "cheap l"]) (auto simp: hc_inv_def hc_fits_def)
    then have "hc_inv S ?l"
      unfolding hc_inv_def d
      using inv fits m(2) price_keys_upd [OF pk m(3)] by (simp add: hc_inv_def hc_fits_def pq_ok_push)
    ultimately show ?thesis by blast
  next
    case (there i)
    let ?m = "pm_write (cmap l) ?k i (pm_read (cmap l) ?k i + Level.qty v)"
    note m = pm_write_ok [OF pm k there(3), of "pm_read (cmap l) ?k i + Level.qty v"]
    let ?l = "l\<lparr>cmap := ?m\<rparr>"
    have "hc_add S l v = Inr ?l" using there by (simp add: hc_add_def Let_def)
    moreover have d: "hc_depth ?l = spec_add (hc_depth l) v"
      using hc_depth_upd [OF m [THEN conjunct2]] there by (simp add: hc_depth_def spec_add_def)
    moreover have "pq_covers (cheap l) (spec_add (hc_depth l) v)"
      using inv fits there
      by (intro pq_covers_add [of "cheap l"]) (auto simp: hc_inv_def hc_fits_def hc_depth_def)
    then have "hc_inv S ?l"
      unfolding hc_inv_def d
      using inv m price_keys_upd [OF pk m [THEN conjunct2]] by (simp add: hc_inv_def)
    ultimately show ?thesis by blast
  qed
qed

lemma hc_zero_price: "hc_depth l 0 = None"
  by (simp add: hc_depth_def pm_map_def)

lemma hc_remove_ok:
  assumes inv: "hc_inv S l" and s: "spec_remove (hc_depth l) v = Some d"
  shows "\<exists>l'. hc_remove S l v = Inr l' \<and> hc_inv S l' \<and> hc_depth l' = d"
proof -
  let ?p = "Level.price v"
  let ?k = "ucast ?p :: u64"
  have pm: "pm_inv (cmap l)" and pk: "price_keys (cmap l)" using inv by (simp_all add: hc_inv_def)
  from s obtain q where q: "hc_depth l ?p = Some q" "Level.qty v \<le> q"
    and d: "d = (if q - Level.qty v = 0 then (hc_depth l)(?p := None) else (hc_depth l)(?p \<mapsto> q - Level.qty v))"
    by (auto simp: spec_remove_Some)
  have k: "?k \<noteq> 0" using q(1) hc_zero_price [of l] by auto
  from q(1) have map: "pm_map (cmap l) ?k = Some q" by (simp add: hc_depth_def)
  from pm k obtain i where i: "pm_find (cmap l) ?k = Some i" "pm_read (cmap l) ?k i = q"
    using map by (cases rule: pm_slot) auto
  let ?m = "pm_write (cmap l) ?k i (q - Level.qty v)"
  note m = pm_write_ok [OF pm k i(1), of "q - Level.qty v"]
  have pkm: "price_keys ?m" using price_keys_upd [OF pk m [THEN conjunct2]] .
  obtain m' where m': "pm_inv m'" "price_keys m'" "(\<lambda>r. pm_map m' (ucast r)) = d"
    "hc_remove S l v = Inr (l\<lparr>cmap := m'\<rparr>)"
  proof (cases "q - Level.qty v = 0")
    case True
    have "pm_map ?m ?k \<noteq> None" using m by simp
    with pm_erase_ok [OF m [THEN conjunct1] k] obtain m' where
      e: "pm_erase ?m ?k = Inr m'" "pm_inv m'" "pm_map m' = (pm_map ?m)(?k := None)" by blast
    then have "pm_map m' = (pm_map (cmap l))(?k := None)" using m by simp
    then have "(\<lambda>r. pm_map m' (ucast r)) = d" using hc_depth_upd True d by simp
    moreover have "hc_remove S l v = Inr (l\<lparr>cmap := m'\<rparr>)"
      using i q(2) True e(1) by (simp add: hc_remove_def Let_def leD)
    ultimately show ?thesis using that e(2) price_keys_upd [OF pkm e(3)] by blast
  next
    case False
    then have "hc_remove S l v = Inr (l\<lparr>cmap := ?m\<rparr>)"
      using i q(2) by (simp add: hc_remove_def Let_def leD)
    moreover have "(\<lambda>r. pm_map ?m (ucast r)) = d"
      using hc_depth_upd [OF m [THEN conjunct2]] False d by (simp only: if_False)
    ultimately show ?thesis using that m pkm by blast
  qed
  have dep: "hc_depth (l\<lparr>cmap := m'\<rparr>) = d" using m'(3) by (simp add: hc_depth_def)
  have "hc_inv S (l\<lparr>cmap := m'\<rparr>)"
    unfolding hc_inv_def dep using inv m'(1,2) pq_covers_remove [OF _ s] by (simp add: hc_inv_def)
  with m'(4) dep show ?thesis by blast
qed

lemma hc_lookup_eq:
  assumes inv: "hc_inv S l" and "p \<in> set (cheap l)"
  shows "hc_lookup (cmap l) p = hc_depth l p"
proof -
  have pm: "pm_inv (cmap l)" and k: "(ucast p :: u64) \<noteq> 0"
    using assms by (auto simp: hc_inv_def)
  then show ?thesis
    by (cases rule: pm_slot) (simp_all add: hc_lookup_def hc_depth_def)
qed

lemma drop_dead_cong:
  "(\<And>p. p \<in> set ps \<Longrightarrow> f p = g p) \<Longrightarrow> drop_dead f ps = drop_dead g ps"
  by (induction ps) (auto split: option.splits)

lemma set_drop_dead: "set (snd (drop_dead f ps)) \<subseteq> set ps"
  by (induction ps) (auto split: option.splits)

lemma hc_best_ok:
  assumes inv: "hc_inv S l"
  shows "\<exists>v l'. hc_best S l = Inr (v, l') \<and> is_best S (hc_depth l) v \<and> hc_inv S l' \<and> hc_depth l' = hc_depth l"
proof -
  have "drop_dead (hc_lookup (cmap l)) (cheap l) = drop_dead (hc_depth l) (cheap l)"
    using hc_lookup_eq [OF inv] by (rule drop_dead_cong)
  moreover have "is_best S (hc_depth l) (fst (drop_dead (hc_depth l) (cheap l))) \<and>
      pq_ok S (snd (drop_dead (hc_depth l) (cheap l))) \<and>
      pq_covers (snd (drop_dead (hc_depth l) (cheap l))) (hc_depth l)"
    using inv by (intro drop_dead_ok) (simp_all add: hc_inv_def)
  ultimately show ?thesis
    using inv set_drop_dead [of "hc_depth l" "cheap l"]
    by (auto simp: hc_best_def hc_inv_def hc_depth_def split: prod.splits)
qed

interpretation hc: total_store hc_ops hc_depth hc_inv hc_fits
proof
  show "hc_inv S (store_init hc_ops S) \<and> hc_depth (store_init hc_ops S) = Map.empty" for S
    using pm_init_ok pq_covers_empty
    by (simp add: hc_ops_def hc_init_def hc_inv_def hc_depth_def price_keys_def)
  show "\<exists>s'. store_add hc_ops S s v = Inr s' \<and> hc_inv S s' \<and> hc_depth s' = spec_add (hc_depth s) v"
    if "hc_inv S s" "hc_fits (hc_depth s) v" for S s v
    using hc_add_ok [OF that] by (simp add: hc_ops_def)
  show "\<exists>s'. store_remove hc_ops S s v = Inr s' \<and> hc_inv S s' \<and> hc_depth s' = d"
    if "hc_inv S s" "spec_remove (hc_depth s) v = Some d" for S s v d
    using hc_remove_ok [OF that] by (simp add: hc_ops_def)
  show "\<exists>v s'. store_best hc_ops S s = Inr (v, s') \<and> is_best S (hc_depth s) v \<and> hc_inv S s' \<and>
        hc_depth s' = hc_depth s"
    if "hc_inv S s" "hc_depth s \<noteq> Map.empty" for S s
    using hc_best_ok [OF that(1)] by (simp add: hc_ops_def)
  show "\<exists>s'. store_best hc_ops S s = Inr (empty_level, s') \<and> hc_inv S s' \<and> hc_depth s' = hc_depth s"
    if "hc_inv S s" "hc_depth s = Map.empty" for S s
    using hc_best_ok [OF that(1)] that(2) by (auto simp: hc_ops_def is_best_def)
qed


section \<open>Properties\<close>

text \<open>
  C32. The key 0 marks the free slots, so the price 0 is never new to the table: \<open>find(0)\<close> answers a
  free slot of its bucket, the added quantity goes into that slot and the price never into the
  queue. A container that is given a level at the price 0 answers \<open>{0, 0}\<close> afterwards; over
  \<open>absl::flat_hash_map\<close> the same container answers the level.
\<close>

theorem price_zero_is_lost:
  assumes "flat_hash_map_laws H" and "q \<noteq> 0"
  shows "(\<exists>l l'. hc_add S (hc_init S) \<lparr>Level.qty = q, Level.price = 0\<rparr> = Inr l \<and>
      hc_best S l = Inr (empty_level, l')) \<and>
    (\<exists>l l'. heap_add H S (heap_init H S) \<lparr>Level.qty = q, Level.price = 0\<rparr> = Inr l \<and>
      heap_best H S l = Inr (\<lparr>Level.qty = q, Level.price = 0\<rparr>, l'))"
proof
  have "find_if (\<lambda>e. key e = 0) (replicate 8 \<lparr>key = 0, value = 0\<rparr>) = 0"
    by (rule find_if_eq) simp_all
  then have "pm_find pm_init 0 = Some 7"
    by (simp add: pm_find_def pm_init_def slots_of_def bucket_size_def Let_def)
  then show "\<exists>l l'. hc_add S (hc_init S) \<lparr>Level.qty = q, Level.price = 0\<rparr> = Inr l \<and>
      hc_best S l = Inr (empty_level, l')"
    by (simp add: hc_add_def hc_init_def hc_best_def empty_level_def Let_def)
next
  let ?v = "\<lparr>Level.qty = q, Level.price = 0\<rparr>"
  have insert: "hm_find H (hm_insert H (hm_empty H) 0 0) = [0 \<mapsto> 0]"
    using flat_hash_map_lawsD(2) [OF assms(1), of "hm_empty H" 0 0]
    by (simp add: flat_hash_map_lawsD(1) [OF assms(1)])
  then have "hm_find H (hm_assign H (hm_insert H (hm_empty H) 0 0) 0 q) = [0 \<mapsto> q]"
    using flat_hash_map_lawsD(4) [OF assms(1), of "hm_insert H (hm_empty H) 0 0" 0 q] by simp
  then show "\<exists>l l'. heap_add H S (heap_init H S) ?v = Inr l \<and> heap_best H S l = Inr (?v, l')"
    using assms(2) insert by (simp add: heap_add_def heap_init_def heap_best_def Let_def)
qed

lemma price_zero_is_lost_witness:
  "\<exists>l l'. hc_add Bid (hc_init Bid) \<lparr>Level.qty = 5, Level.price = 0\<rparr> = Inr l \<and>
     hc_best Bid l = Inr (empty_level, l')"
proof -
  have "(5 :: u64) \<noteq> 0" by simp
  from price_zero_is_lost [OF alist_hash_map_laws this, of Bid] show ?thesis by blast
qed

end
