(* ===== verification/Levels_Agree.thy ===== *)
theory Levels_Agree
  imports Array_Levels Flat_Array_Levels BTree_Levels Heap_Levels
begin

text \<open>
  The containers of \<open>include/levels\<close> against each other: whatever their representation, on a
  stream of operations each of them can take they give the same answers, the best levels of the
  depth. The production container is one of them.
\<close>

section \<open>One stream, every container\<close>

text \<open>A level all of them can take.\<close>

definition all_fits :: "depth \<Rightarrow> Level \<Rightarrow> bool" where
  "all_fits d v \<longleftrightarrow> array_fits d v \<and> v2_fits d v \<and> hc_fits d v"

lemma all_fits_each:
  assumes "stream_ok all_fits ops d"
  shows "stream_ok any_level ops d" "stream_ok array_fits ops d" "stream_ok v2_fits ops d"
    "stream_ok hc_fits ops d" "stream_ok nonzero_fits ops d"
  by (rule stream_ok_mono [OF assms], simp add: all_fits_def any_level_def hc_fits_def)+

text \<open>The answers of a container are those of \<open>VectorLevelBSearch\<close>.\<close>

lemma answers_like_vector:
  assumes "level_store T depth_of invar fits" and "S \<in> {Bid, Ask}"
    and "stream_ok fits ops Map.empty"
  shows "store_answers T S ops = store_answers vb_ops S ops"
proof (rule stores_agree [OF assms(1) vb.level_store_axioms assms(2,3)])
  show "stream_ok any_level ops Map.empty"
    by (rule stream_ok_mono [OF assms(3)]) (simp add: any_level_def)
qed

text \<open>The list of all answers, for a book with the given third-party maps.\<close>

definition all_answers ::
    "(u32, u64, 'm) flat_hash_map \<Rightarrow> 'n price_tree \<Rightarrow> Side \<Rightarrow> level_op list \<Rightarrow> Level list result list" where
  "all_answers H B S ops =
     [store_answers (plain_ops split_ops) S ops, store_answers vl_ops S ops,
      store_answers al_ops S ops, store_answers ab_ops S ops, store_answers v2_ops S ops,
      store_answers (btree_ops B) S ops, store_answers (heap_ops H) S ops,
      store_answers hc_ops S ops]"

text \<open>
  C22. The level containers are interchangeable: on a stream of additions, removals and questions
  that is in order and whose levels every container can take, the eight containers, with any
  hash map and any ordered map that behave as documented, all return, and all give the answers of
  the sorted vector with binary search, which are the best levels of the depth at each question.
\<close>

theorem containers_agree:
  assumes "flat_hash_map_laws H" and "tree_laws B" and "S \<in> {Bid, Ask}"
    and "stream_ok all_fits ops Map.empty"
  shows "\<exists>vs. store_answers vb_ops S ops = Inr vs \<and> best_answers S ops Map.empty vs \<and>
    all_answers H B S ops = replicate 8 (Inr vs)"
proof -
  note fits = all_fits_each [OF assms(4)]
  note like = answers_like_vector [OF _ assms(3)]
  obtain vs where vs: "store_answers vb_ops S ops = Inr vs" "best_answers S ops Map.empty vs"
    using vb.store_answers_ok [OF assms(3) fits(1)] by blast
  have "store_answers (plain_ops split_ops) S ops = Inr vs"
    unfolding vs(1) [symmetric] by (rule like [OF split_lv.plain.level_store_axioms fits(1)])
  moreover have "store_answers vl_ops S ops = Inr vs"
    unfolding vs(1) [symmetric] by (rule like [OF vl.level_store_axioms fits(1)])
  moreover have "store_answers al_ops S ops = Inr vs"
    unfolding vs(1) [symmetric] by (rule like [OF al.level_store_axioms fits(2)])
  moreover have "store_answers ab_ops S ops = Inr vs"
    unfolding vs(1) [symmetric] by (rule like [OF ab.level_store_axioms fits(2)])
  moreover have "store_answers v2_ops S ops = Inr vs"
    unfolding vs(1) [symmetric] by (rule like [OF v2.level_store_axioms fits(3)])
  moreover have "store_answers (btree_ops B) S ops = Inr vs"
    unfolding vs(1) [symmetric]
    by (rule like [OF total_store.axioms(1) [OF btree_store [OF assms(2)]] fits(1)])
  moreover have "store_answers (heap_ops H) S ops = Inr vs"
    unfolding vs(1) [symmetric]
    by (rule like [OF total_store.axioms(1) [OF heap_store [OF assms(1)]] fits(5)])
  moreover have "store_answers hc_ops S ops = Inr vs"
    unfolding vs(1) [symmetric] by (rule like [OF hc.level_store_axioms fits(4)])
  ultimately have "all_answers H B S ops = replicate 8 (Inr vs)"
    by (simp add: all_answers_def eval_nat_numeral)
  with vs show ?thesis by blast
qed

definition some_level_ops :: "level_op list" where
  "some_level_ops =
     [Add_Level \<lparr>Level.qty = 5, Level.price = 10\<rparr>, Ask_Best,
      Add_Level \<lparr>Level.qty = 7, Level.price = 20\<rparr>, Ask_Best,
      Remove_Level \<lparr>Level.qty = 7, Level.price = 20\<rparr>, Ask_Best]"

lemma some_level_ops_ok: "stream_ok all_fits some_level_ops Map.empty"
proof -
  have "all_fits Map.empty \<lparr>Level.qty = 5, Level.price = 10\<rparr>"
    by (simp add: all_fits_def array_fits_def v2_fits_def hc_fits_def nonzero_fits_def spec_add_def
        flat_N_def bucket_prices_def)
  moreover have "card {r. r = (10 :: u32) \<and> pm_bucket (ucast r) = pm_bucket (ucast (20 :: u32))} \<le> 1"
    by (rule order_trans [OF card_mono [of "{10}"]]) auto
  then have "all_fits [10 \<mapsto> 5] \<lparr>Level.qty = 7, Level.price = 20\<rparr>"
    by (simp add: all_fits_def array_fits_def v2_fits_def hc_fits_def nonzero_fits_def spec_add_def
        flat_N_def bucket_prices_def)
  ultimately show ?thesis
    by (simp add: some_level_ops_def spec_add_def spec_remove_def)
qed

lemma containers_agree_witness:
  "\<exists>vs. store_answers vb_ops Bid some_level_ops = Inr vs \<and>
    best_answers Bid some_level_ops Map.empty vs \<and>
    all_answers alist_hash_map (\<lambda>S. alist_btree_map (tree_before S)) Bid some_level_ops =
      replicate 8 (Inr vs)"
  by (rule containers_agree [OF alist_hash_map_laws alist_tree_laws _ some_level_ops_ok]) simp

end
