(* ===== verification/Map_Levels.thy ===== *)
theory Map_Levels
  imports Heap_Levels
begin

text \<open>
  \<open>include/levels/map_level.hpp\<close>, a hash map and the index of the best price moved by a search
  through the prices, and \<open>include/levels/hybrid_vector_map.hpp\<close>, a sorted vector of prices and a
  hash map of quantities. Both keep the depth; their \<open>best\<close> does not answer the best level.
\<close>

section \<open>\<open>MapLevels\<close>\<close>

record 'm MapLevels =
  best_idx :: u32
  book :: 'm

definition ml_init :: "'m qty_map \<Rightarrow> Side \<Rightarrow> 'm MapLevels" where
  "ml_init H S = \<lparr>best_idx = 0, book = hm_empty H\<rparr>"

definition ml_add :: "'m qty_map \<Rightarrow> Side \<Rightarrow> 'm MapLevels \<Rightarrow> Level \<Rightarrow> 'm MapLevels" where
  "ml_add H S l level =
     (let p = Level.price level;
          m = hm_insert H (book l) p 0;
          l1 = l\<lparr>book := hm_assign H m p (the (hm_find H m p) + Level.qty level)\<rparr>
      in if S = Bid then (if p > best_idx l1 then l1\<lparr>best_idx := p\<rparr> else l1)
         else (if p < best_idx l1 then l1\<lparr>best_idx := p\<rparr> else l1))"

text \<open>
  The searches \<open>best_idx--\<close> and \<open>best_idx++\<close> for a listed price wrap around at the ends of
  \<open>uint32_t\<close>; they return only if some price is listed.
\<close>

partial_function (option) seek_down :: "(u32 \<Rightarrow> bool) \<Rightarrow> u32 \<Rightarrow> u32 option" where
  "seek_down listed i = (if listed i then Some i else seek_down listed (i - 1))"

partial_function (option) seek_up :: "(u32 \<Rightarrow> bool) \<Rightarrow> u32 \<Rightarrow> u32 option" where
  "seek_up listed i = (if listed i then Some i else seek_up listed (i + 1))"

declare seek_down.simps [code] seek_up.simps [code]

text \<open>\<open>None\<close> stands for a call that does not return.\<close>

definition ml_remove :: "'m qty_map \<Rightarrow> Side \<Rightarrow> 'm MapLevels \<Rightarrow> Level \<Rightarrow> 'm MapLevels result option" where
  "ml_remove H S l level =
     (let p = Level.price level in
      case hm_find H (book l) p of
        None \<Rightarrow> Some (abort_unexpected ''Remove didn't find a level'')
      | Some q \<Rightarrow>
          if Level.qty level > q then Some (abort_unexpected ''Remove underflow'')
          else
            let m = hm_assign H (book l) p (q - Level.qty level)
            in if q - Level.qty level \<noteq> 0 then Some (Inr (l\<lparr>book := m\<rparr>))
               else
                 let m' = hm_erase H m p; l' = l\<lparr>book := m'\<rparr>
                 in if p = best_idx l \<and> hm_size H m' \<noteq> 0
                    then map_option (\<lambda>i. Inr (l'\<lparr>best_idx := i\<rparr>))
                           ((if S = Bid then seek_down else seek_up)
                              (\<lambda>i. hm_find H m' i \<noteq> None) (best_idx l))
                    else Some (Inr l'))"

text \<open>The fields of the answer are exchanged: the quantity, narrowed to 32 bits, is its price.\<close>

definition ml_best :: "'m qty_map \<Rightarrow> Side \<Rightarrow> 'm MapLevels \<Rightarrow> Level" where
  "ml_best H S l =
     (case hm_find H (book l) (best_idx l) of
        None \<Rightarrow> \<lparr>Level.qty = 0, Level.price = 0\<rparr>
      | Some q \<Rightarrow> \<lparr>Level.qty = ucast (best_idx l), Level.price = ucast q\<rparr>)"

definition ml_depth :: "'m qty_map \<Rightarrow> 'm MapLevels \<Rightarrow> depth" where
  "ml_depth H l = hm_find H (book l)"

lemma ml_sel [simp]:
  "ml_depth H (l\<lparr>book := m\<rparr>) = hm_find H m"
  "ml_depth H (l\<lparr>best_idx := i\<rparr>) = ml_depth H l"
  by (simp_all add: ml_depth_def)

section \<open>The searches return\<close>

text \<open>The distance to a listed price, going one way around, falls with every step.\<close>

lemma unat_pred_less: "x \<noteq> 0 \<Longrightarrow> unat (x - 1 :: u32) < unat x"
  using unat_gt_0 [of x] by (simp add: unat_minus_one)

lemma seek_down_returns:
  assumes "listed k"
  shows "\<exists>j. seek_down listed i = Some j \<and> listed j"
proof (induction "unat (i - k)" arbitrary: i rule: less_induct)
  case less
  show ?case
  proof (cases "listed i")
    case True
    then show ?thesis by (simp add: seek_down.simps)
  next
    case False
    with assms have "i - k \<noteq> 0" by auto
    then have "unat (i - 1 - k) < unat (i - k)"
      using unat_pred_less [of "i - k"] by (simp add: algebra_simps)
    from less [OF this] False show ?thesis by (subst seek_down.simps) simp
  qed
qed

lemma seek_up_returns:
  assumes "listed k"
  shows "\<exists>j. seek_up listed i = Some j \<and> listed j"
proof (induction "unat (k - i)" arbitrary: i rule: less_induct)
  case less
  show ?case
  proof (cases "listed i")
    case True
    then show ?thesis by (simp add: seek_up.simps)
  next
    case False
    with assms have "k - i \<noteq> 0" by auto
    then have "unat (k - (i + 1)) < unat (k - i)"
      using unat_pred_less [of "k - i"] by (simp add: algebra_simps)
    from less [OF this] False show ?thesis by (subst seek_up.simps) simp
  qed
qed

lemma ml_listed:
  assumes H: "flat_hash_map_laws H" and "hm_size H m \<noteq> 0"
  shows "\<exists>k. hm_find H m k \<noteq> None"
  using assms(2) flat_hash_map_lawsD(7) [OF H, of m] by (cases "hm_find H m = Map.empty") auto

text \<open>Adding and removing change the depth as asked.\<close>

lemma ml_add_depth:
  assumes H: "flat_hash_map_laws H"
  shows "ml_depth H (ml_add H S l v) = spec_add (ml_depth H l) v"
proof -
  let ?p = "Level.price v"
  let ?m = "hm_insert H (book l) ?p 0"
  have there: "hm_find H ?m ?p \<noteq> None" and
    eq: "hm_find H ?m = (if ml_depth H l ?p = None then (ml_depth H l)(?p \<mapsto> 0) else ml_depth H l)"
    using flat_hash_map_lawsD(2,3) [OF H, of "book l" ?p 0]
    by (cases "hm_find H (book l) ?p"; simp add: ml_depth_def)+
  have "hm_find H (hm_assign H ?m ?p (the (hm_find H ?m ?p) + Level.qty v)) = spec_add (ml_depth H l) v"
    using flat_hash_map_lawsD(4) [OF H there]
    by (auto simp: eq spec_add_def fun_eq_iff split: option.splits)
  then show ?thesis by (simp add: ml_add_def Let_def)
qed

lemma ml_remove_cases:
  assumes H: "flat_hash_map_laws H"
  shows "case spec_remove (ml_depth H l) v of
      None \<Rightarrow> \<exists>message. ml_remove H S l v = Some (Inl (Unexpected message))
    | Some d \<Rightarrow> \<exists>l'. ml_remove H S l v = Some (Inr l') \<and> ml_depth H l' = d \<and>
        (best_idx l' = best_idx l \<or> best_idx l = Level.price v \<and> d (best_idx l') \<noteq> None)"
proof (cases "spec_remove (ml_depth H l) v")
  case None
  then have "\<exists>message. ml_remove H S l v = Some (Inl (Unexpected message))"
    by (auto simp: spec_remove_None ml_depth_def ml_remove_def Let_def abort_unexpected_def)
  with None show ?thesis by simp
next
  case (Some d)
  let ?p = "Level.price v"
  obtain q where q: "hm_find H (book l) ?p = Some q" "Level.qty v \<le> q"
    and d: "d = (if q - Level.qty v = 0 then (ml_depth H l)(?p := None)
              else (ml_depth H l)(?p \<mapsto> q - Level.qty v))"
    using Some by (auto simp: spec_remove_Some ml_depth_def)
  have m: "hm_find H (hm_assign H (book l) ?p r) = (ml_depth H l)(?p \<mapsto> r)" for r
    using flat_hash_map_lawsD(4) [OF H] q(1) by (simp add: ml_depth_def)
  have e: "hm_find H (hm_erase H (hm_assign H (book l) ?p r) ?p) = (ml_depth H l)(?p := None)" for r
    by (simp add: flat_hash_map_lawsD(5) [OF H] m)
  let ?m' = "hm_erase H (hm_assign H (book l) ?p 0) ?p"
  have "\<exists>l'. ml_remove H S l v = Some (Inr l') \<and> ml_depth H l' = d \<and>
        (best_idx l' = best_idx l \<or> best_idx l = ?p \<and> d (best_idx l') \<noteq> None)"
  proof (cases "q - Level.qty v = 0 \<and> ?p = best_idx l \<and> hm_size H ?m' \<noteq> 0")
    case True
    let ?listed = "\<lambda>i. hm_find H ?m' i \<noteq> None"
    obtain k where "?listed k" using ml_listed [OF H] True by blast
    then obtain i where i: "(if S = Bid then seek_down else seek_up) ?listed (best_idx l) = Some i" "?listed i"
      using seek_down_returns [of ?listed k "best_idx l"] seek_up_returns [of ?listed k "best_idx l"]
      by (cases "S = Bid") auto
    have t: "q - Level.qty v = 0" "?p = best_idx l" "hm_size H ?m' \<noteq> 0" using True by blast+
    have "ml_remove H S l v = Some (Inr (l\<lparr>book := ?m', best_idx := i\<rparr>))"
      using t(3) q i(1) 
      by (cases "S = Bid"; simp add: ml_remove_def Let_def leD t(1); simp add: t(2))
    with True d e i(2) show ?thesis by (intro exI conjI) auto
  next
    case False
    let ?l = "l\<lparr>book := (if q - Level.qty v = 0 then ?m' else hm_assign H (book l) ?p (q - Level.qty v))\<rparr>"
    have "ml_remove H S l v = Some (Inr ?l)"
      using False q by (auto simp: ml_remove_def Let_def leD)
    then show ?thesis using d m e by (intro exI [of _ ?l]) auto
  qed
  with Some show ?thesis by simp
qed


section \<open>\<open>HybridVectorMap\<close>\<close>

record 'm HybridVectorMap =
  hv_prices :: "u32 list"
  hv_qty :: 'm

definition hv_init :: "'m qty_map \<Rightarrow> Side \<Rightarrow> 'm HybridVectorMap" where
  "hv_init H S = \<lparr>hv_prices = [], hv_qty = hm_empty H\<rparr>"

definition hv_add :: "'m qty_map \<Rightarrow> Side \<Rightarrow> 'm HybridVectorMap \<Rightarrow> Level \<Rightarrow> 'm HybridVectorMap result" where
  "hv_add H S l level =
     (let p = Level.price level;
          m = hm_insert H (hv_qty l) p 0;
          q = the (hm_find H m p)
      in Inr
        (if q \<noteq> 0 then l\<lparr>hv_qty := hm_assign H m p (q + Level.qty level)\<rparr>
         else l\<lparr>hv_prices := vec_insert (lower_bound (lvl_lt S) (hv_prices l) p) p (hv_prices l),
                hv_qty := hm_assign H m p (Level.qty level)\<rparr>))"

definition hv_remove :: "'m qty_map \<Rightarrow> Side \<Rightarrow> 'm HybridVectorMap \<Rightarrow> Level \<Rightarrow> 'm HybridVectorMap result" where
  "hv_remove H S l level =
     (let p = Level.price level in
      case hm_find H (hv_qty l) p of
        None \<Rightarrow> abort_unexpected ''Qty missing for level''
      | Some q \<Rightarrow>
          rbind (UNEXPECTED (Level.qty level > q) ''Remove lead to an underflow'') (\<lambda>_.
            let m = hm_assign H (hv_qty l) p (q - Level.qty level)
            in if q - Level.qty level = 0 then
                 let pit = lower_bound (lvl_lt S) (hv_prices l) p
                 in rbind (UNEXPECTED (pit = length (hv_prices l) \<or> hv_prices l ! pit \<noteq> p)
                      ''Remove didn't find a level'') (\<lambda>_.
                    Inr (l\<lparr>hv_qty := hm_erase H m p, hv_prices := vec_erase pit (hv_prices l)\<rparr>))
               else Inr (l\<lparr>hv_qty := m\<rparr>)))"

text \<open>Here too the fields of the answer are exchanged.\<close>

definition hv_best :: "'m qty_map \<Rightarrow> Side \<Rightarrow> 'm HybridVectorMap \<Rightarrow> Level result" where
  "hv_best H S l =
     (if hv_prices l \<noteq> [] then
        let p = last (hv_prices l)
        in case hm_find H (hv_qty l) p of
             None \<Rightarrow> abort_unexpected ''Best price missing qty''
           | Some q \<Rightarrow> Inr \<lparr>Level.qty = ucast p, Level.price = ucast q\<rparr>
      else Inr \<lparr>Level.qty = 0, Level.price = 0\<rparr>)"

definition hv_depth :: "'m qty_map \<Rightarrow> 'm HybridVectorMap \<Rightarrow> depth" where
  "hv_depth H l = hm_find H (hv_qty l)"

definition hv_inv :: "'m qty_map \<Rightarrow> Side \<Rightarrow> 'm HybridVectorMap \<Rightarrow> bool" where
  "hv_inv H S l \<longleftrightarrow>
     sorted_prices S (hv_prices l) \<and> set (hv_prices l) = dom (hv_depth H l) \<and>
     (\<forall>p. hv_depth H l p \<noteq> Some 0)"

lemma hv_sel [simp]:
  "hv_depth H (l\<lparr>hv_qty := m\<rparr>) = hm_find H m"
  "hv_depth H (l\<lparr>hv_prices := ps\<rparr>) = hv_depth H l"
  by (simp_all add: hv_depth_def)

lemma sorted_prices_pairs: "sorted_prices S ps \<longleftrightarrow> sorted_levels S (map (\<lambda>p. (p, 0)) ps)"
  by (simp add: sorted_levels_def comp_def)

lemma sorted_prices_insert:
  assumes "sorted_prices S ps" and "p \<notin> set ps"
  shows "sorted_prices S (vec_insert (lower_bound (lvl_lt S) ps p) p ps)"
  using sorted_levels_insert [of S "map (\<lambda>p. (p, 0)) ps" p "lower_bound (lvl_lt S) ps p" 0] assms
  by (auto simp: sorted_prices_pairs map_vec_insert comp_def image_image)

lemma sorted_prices_erase:
  assumes "sorted_prices S ps" and "i < length ps"
  shows "sorted_prices S (vec_erase i ps) \<and> set (vec_erase i ps) = set ps - {ps ! i}"
proof -
  have "sorted_prices S (vec_erase i ps)"
    using sorted_levels_erase [of S "map (\<lambda>p. (p, 0)) ps" i] assms
    by (simp add: sorted_prices_pairs map_vec_erase)
  moreover have "set (vec_erase i ps) = set ps - {ps ! i}"
  proof -
    have eq: "ps = take i ps @ ps ! i # drop (Suc i) ps" by (rule list_split_at [OF assms(2)])
    have "distinct (take i ps @ ps ! i # drop (Suc i) ps)"
      using sorted_prices_distinct [OF assms(1)] eq by simp
    then have "set (take i ps @ drop (Suc i) ps) = set (take i ps @ ps ! i # drop (Suc i) ps) - {ps ! i}"
      by auto
    then show ?thesis unfolding vec_erase_def eq [symmetric] .
  qed
  ultimately show ?thesis ..
qed

lemma set_vec_insert [simp]: "set (vec_insert i x xs) = insert x (set xs)"
  unfolding vec_insert_def by (metis Un_insert_right append_take_drop_id list.simps(15) set_append)


lemma hv_add_ok:
  assumes H: "flat_hash_map_laws H" and inv: "hv_inv H S l" and fits: "nonzero_fits (hv_depth H l) v"
  shows "\<exists>l'. hv_add H S l v = Inr l' \<and> hv_inv H S l' \<and> hv_depth H l' = spec_add (hv_depth H l) v"
proof -
  let ?p = "Level.price v" and ?d = "hv_depth H l"
  let ?m = "hm_insert H (hv_qty l) ?p 0"
  have m: "hm_find H ?m = (if ?d ?p = None then ?d(?p \<mapsto> 0) else ?d)"
    using flat_hash_map_lawsD(2,3) [OF H, of "hv_qty l" ?p 0] by (simp add: hv_depth_def)
  then have there: "hm_find H ?m ?p \<noteq> None" by auto
  have assign: "hm_find H (hm_assign H ?m ?p q) = ?d(?p \<mapsto> q)" for q
    using flat_hash_map_lawsD(4) [OF H there, of q] by (auto simp: m fun_eq_iff)
  have nz: "\<forall>p. spec_add ?d v p \<noteq> Some 0"
    using inv fits by (auto simp: hv_inv_def nonzero_fits_def spec_add_apply)
  show ?thesis
  proof (cases "?d ?p")
    case None
    let ?l = "l\<lparr>hv_prices := vec_insert (lower_bound (lvl_lt S) (hv_prices l) ?p) ?p (hv_prices l),
                hv_qty := hm_assign H ?m ?p (Level.qty v)\<rparr>"
    have "hv_add H S l v = Inr ?l" using None by (simp add: hv_add_def Let_def m)
    moreover have d: "hv_depth H ?l = spec_add ?d v" using None by (simp add: assign spec_add_def)
    moreover have "?p \<notin> set (hv_prices l)" using inv None by (auto simp: hv_inv_def)
    then have "hv_inv H S ?l"
      unfolding hv_inv_def d using inv nz sorted_prices_insert by (simp add: hv_inv_def)
    ultimately show ?thesis by blast
  next
    case (Some q)
    then have q: "q \<noteq> 0" using inv by (auto simp: hv_inv_def)
    let ?l = "l\<lparr>hv_qty := hm_assign H ?m ?p (q + Level.qty v)\<rparr>"
    have "hv_add H S l v = Inr ?l" using Some q by (simp add: hv_add_def Let_def m)
    moreover have d: "hv_depth H ?l = spec_add ?d v" using Some by (simp add: assign spec_add_def)
    moreover have "hv_inv H S ?l"
      unfolding hv_inv_def d using inv nz Some by (auto simp: hv_inv_def)
    ultimately show ?thesis by blast
  qed
qed

lemma hv_remove_ok:
  assumes H: "flat_hash_map_laws H" and inv: "hv_inv H S l" and s: "spec_remove (hv_depth H l) v = Some d"
  shows "\<exists>l'. hv_remove H S l v = Inr l' \<and> hv_inv H S l' \<and> hv_depth H l' = d"
proof -
  let ?p = "Level.price v" and ?d = "hv_depth H l"
  obtain q where q: "hm_find H (hv_qty l) ?p = Some q" "Level.qty v \<le> q"
    and d: "d = (if q - Level.qty v = 0 then ?d(?p := None) else ?d(?p \<mapsto> q - Level.qty v))"
    using s by (auto simp: spec_remove_Some hv_depth_def)
  have assign: "hm_find H (hm_assign H (hv_qty l) ?p r) = ?d(?p \<mapsto> r)" for r
    using flat_hash_map_lawsD(4) [OF H] q(1) by (simp add: hv_depth_def)
  have erase: "hm_find H (hm_erase H (hm_assign H (hv_qty l) ?p r) ?p) = ?d(?p := None)" for r
    by (simp add: flat_hash_map_lawsD(5) [OF H] assign)
  have sorted: "sorted_prices S (hv_prices l)" and dom: "set (hv_prices l) = dom ?d"
    and nz: "\<forall>p. ?d p \<noteq> Some 0" using inv by (simp_all add: hv_inv_def)
  show ?thesis
  proof (cases "q - Level.qty v = 0")
    case True
    let ?i = "lower_bound (lvl_lt S) (hv_prices l) ?p"
    have "?p \<in> set (hv_prices l)" using q(1) dom by (auto simp: hv_depth_def)
    then have i: "?i < length (hv_prices l)" "hv_prices l ! ?i = ?p"
      using lower_bound_hit [OF sorted] by blast+
    let ?l = "l\<lparr>hv_qty := hm_erase H (hm_assign H (hv_qty l) ?p 0) ?p,
               hv_prices := vec_erase ?i (hv_prices l)\<rparr>"
    have "hv_remove H S l v = Inr ?l"
      using q True i by (simp add: hv_remove_def Let_def leD)
    moreover have d': "hv_depth H ?l = d" using True by (simp add: erase d)
    moreover have "hv_inv H S ?l"
      unfolding hv_inv_def d' using sorted_prices_erase [OF sorted i(1)] i(2) dom nz True
      by (auto simp: d)
    ultimately show ?thesis by blast
  next
    case False
    let ?l = "l\<lparr>hv_qty := hm_assign H (hv_qty l) ?p (q - Level.qty v)\<rparr>"
    have "hv_remove H S l v = Inr ?l" using q False by (simp add: hv_remove_def Let_def leD)
    moreover have d': "hv_depth H ?l = d" using False by (simp add: assign d)
    moreover have "?p \<in> dom ?d" using q(1) by (auto simp: hv_depth_def)
    then have "hv_inv H S ?l"
      unfolding hv_inv_def d' using sorted dom nz False by (auto simp: d)
    ultimately show ?thesis by blast
  qed
qed

text \<open>The level whose fields \<open>best\<close> exchanges is the best one.\<close>

definition exchanged :: "Level \<Rightarrow> Level" where
  "exchanged v = \<lparr>Level.qty = ucast (Level.price v), Level.price = ucast (Level.qty v)\<rparr>"

lemma hv_best_ok:
  assumes inv: "hv_inv H S l"
  shows "\<exists>v. is_best S (hv_depth H l) v \<and> hv_best H S l = Inr (exchanged v)"
proof (cases "hv_prices l" rule: rev_cases)
  case Nil
  have "dom (hv_depth H l) = set (hv_prices l)" using inv by (auto simp: hv_inv_def)
  with Nil have "hv_depth H l = Map.empty" by simp
  with Nil show ?thesis
    by (intro exI [of _ empty_level]) (simp add: is_best_def hv_best_def exchanged_def empty_level_def)
next
  case (snoc ps p)
  have dom: "set (hv_prices l) = dom (hv_depth H l)" and sorted: "sorted_prices S (ps @ [p])"
    using inv snoc by (simp_all add: hv_inv_def)
  then obtain q where q: "hv_depth H l p = Some q" using snoc by auto
  moreover have "r = p \<or> lvl_lt S r p" if "r \<in> dom (hv_depth H l)" for r
    using that sorted snoc dom by (auto simp: sorted_prices_def sorted_wrt_append)
  moreover have "hv_depth H l \<noteq> Map.empty" using q by auto
  ultimately show ?thesis
    using snoc
    by (intro exI [of _ "\<lparr>Level.qty = q, Level.price = p\<rparr>"])
       (simp add: is_best_def hv_best_def exchanged_def hv_depth_def)
qed


section \<open>Properties\<close>

text \<open>
  C26. \<open>MapLevels::remove\<close> always returns: its searches wrap around and run only while some price
  is listed. It aborts when the price is not listed or short, and otherwise leaves the depth
  asked for, with the best index where it was or, if the best price has gone, at a listed price.
\<close>

theorem map_levels_remove_returns:
  assumes "flat_hash_map_laws H"
  shows "case spec_remove (ml_depth H l) v of
      None \<Rightarrow> \<exists>message. ml_remove H S l v = Some (Inl (Unexpected message))
    | Some d \<Rightarrow> \<exists>l'. ml_remove H S l v = Some (Inr l') \<and> ml_depth H l' = d \<and>
        (best_idx l' = best_idx l \<or> best_idx l = Level.price v \<and> d (best_idx l') \<noteq> None)"
  using assms by (rule ml_remove_cases)

definition two_prices :: "(u32 \<times> u64) list MapLevels" where
  "two_prices = \<lparr>best_idx = 20, book = [(20, 7), (10, 5)]\<rparr>"

lemma map_levels_remove_returns_witness:
  "\<exists>l'. ml_remove alist_hash_map Bid two_prices \<lparr>Level.qty = 7, Level.price = 20\<rparr> = Some (Inr l') \<and>
     ml_depth alist_hash_map l' = [10 \<mapsto> 5]"
proof -
  have d: "ml_depth alist_hash_map two_prices = [20 \<mapsto> 7, 10 \<mapsto> 5]"
    by (auto simp: ml_depth_def two_prices_def alist_hash_map_def fun_eq_iff)
  have "spec_remove (ml_depth alist_hash_map two_prices) \<lparr>Level.qty = 7, Level.price = 20\<rparr> = Some [10 \<mapsto> 5]"
    unfolding d by (auto simp: spec_remove_def fun_eq_iff)
  then show ?thesis
    using map_levels_remove_returns [OF alist_hash_map_laws, where l = two_prices
        and v = "\<lparr>Level.qty = 7, Level.price = 20\<rparr>" and S = Bid]
    by (auto simp del: fun_upd_apply)
qed

text \<open>An ask side on which the price 0 was never listed, with the best index where it started.\<close>

definition ask_blind :: "'m qty_map \<Rightarrow> 'm MapLevels \<Rightarrow> bool" where
  "ask_blind H l \<longleftrightarrow> best_idx l = 0 \<and> ml_depth H l 0 = None"

text \<open>
  C33. The ask side of \<open>MapLevels\<close> has no best level as long as the price 0 has not been listed: its best
  index starts at 0, only a lower price would move it, and \<open>best\<close> answers \<open>{0, 0}\<close> whatever is listed. The
  initial side is in such a state; adding a level at a price above 0, and removing any level, lead to
  such a state again. A level added at the price 0 is found there, with the fields exchanged.
\<close>

theorem map_levels_ask_has_no_best:
  assumes "flat_hash_map_laws H" and "S \<noteq> Bid" and "ask_blind H l"
  shows "ask_blind H (ml_init H S) \<and> ml_best H S l = empty_level \<and>
    ml_depth H (ml_add H S l v) \<noteq> Map.empty \<and>
    (if Level.price v = 0
     then ml_best H S (ml_add H S l v) = \<lparr>Level.qty = 0, Level.price = ucast (Level.qty v)\<rparr>
     else ask_blind H (ml_add H S l v) \<and> ml_best H S (ml_add H S l v) = empty_level) \<and>
    (case ml_remove H S l v of Some (Inr l') \<Rightarrow> ask_blind H l' \<and> ml_best H S l' = empty_level | _ \<Rightarrow> True)"
proof -
  have blind: "ml_best H S l' = empty_level" if "ask_blind H l'" for l'
    using that by (simp add: ask_blind_def ml_best_def ml_depth_def empty_level_def)
  have idx: "best_idx (ml_add H S l v) = 0"
    using assms(2,3) by (simp add: ml_add_def Let_def ask_blind_def)
  then have add: "ask_blind H (ml_add H S l v)" if "Level.price v \<noteq> 0"
    using assms(3) that by (simp add: ask_blind_def ml_add_depth [OF assms(1)] spec_add_apply)
  have "hm_find H (book (ml_add H S l v)) 0 = Some (Level.qty v)" if "Level.price v = 0"
    using ml_add_depth [OF assms(1), of S l v] assms(3) that
    by (simp add: ml_depth_def spec_add_apply ask_blind_def)
  with idx have zero: "ml_best H S (ml_add H S l v) = \<lparr>Level.qty = 0, Level.price = ucast (Level.qty v)\<rparr>"
    if "Level.price v = 0"
    using that by (simp add: ml_best_def)
  have remove: "ask_blind H l'" if r: "ml_remove H S l v = Some (Inr l')" for l'
  proof -
    obtain d where d: "spec_remove (ml_depth H l) v = Some d"
      and l': "ml_depth H l' = d" "best_idx l' = best_idx l \<or> best_idx l = Level.price v"
      using ml_remove_cases [OF assms(1), where l = l and v = v and S = S] r by (auto split: option.splits)
    have "Level.price v \<noteq> 0" using d assms(3) by (auto simp: spec_remove_Some ask_blind_def)
    moreover from this have "d 0 = None"
      using d assms(3) by (auto simp: spec_remove_Some ask_blind_def split: if_splits)
    ultimately show ?thesis using l' assms(3) by (auto simp: ask_blind_def)
  qed
  have "ask_blind H (ml_init H S)"
    using assms(1) by (simp add: ask_blind_def ml_init_def ml_depth_def flat_hash_map_lawsD(1))
  then show ?thesis
    using add blind [OF assms(3)] blind [OF add] zero remove blind [OF remove] spec_add_not_empty
    by (auto simp: ml_add_depth [OF assms(1)] split: option.splits sum.splits)
qed

lemma map_levels_ask_has_no_best_witness:
  "ml_best alist_hash_map Ask (ml_add alist_hash_map Ask (ml_init alist_hash_map Ask) \<lparr>Level.qty = 7, Level.price = 20\<rparr>) =
     empty_level \<and>
   ml_best alist_hash_map Ask (ml_add alist_hash_map Ask (ml_init alist_hash_map Ask) \<lparr>Level.qty = 7, Level.price = 0\<rparr>) =
     \<lparr>Level.qty = 0, Level.price = 7\<rparr>"
proof -
  have init: "ask_blind alist_hash_map (ml_init alist_hash_map Ask)"
    by (simp add: ask_blind_def ml_init_def ml_depth_def alist_hash_map_def)
  show ?thesis
    using map_levels_ask_has_no_best [OF alist_hash_map_laws _ init, of Ask "\<lparr>Level.qty = 7, Level.price = 20\<rparr>"]
      map_levels_ask_has_no_best [OF alist_hash_map_laws _ init, of Ask "\<lparr>Level.qty = 7, Level.price = 0\<rparr>"]
    by simp
qed

text \<open>
  On the bid side the index is stale once the side has been empty: a lower price that follows is
  never found.
\<close>

lemma map_levels_bid_stale:
  "let l1 = ml_add alist_hash_map Bid (ml_init alist_hash_map Bid) \<lparr>Level.qty = 7, Level.price = 20\<rparr>
   in case ml_remove alist_hash_map Bid l1 \<lparr>Level.qty = 7, Level.price = 20\<rparr> of
        Some (Inr l2) \<Rightarrow>
          ml_best alist_hash_map Bid (ml_add alist_hash_map Bid l2 \<lparr>Level.qty = 5, Level.price = 10\<rparr>) = empty_level
      | _ \<Rightarrow> False"
  by (simp add: ml_init_def ml_add_def ml_remove_def ml_best_def alist_hash_map_def empty_level_def Let_def)

text \<open>
  C25. The price vector of \<open>HybridVectorMap\<close> is sorted and lists exactly the prices the map has a
  quantity for; adding a level that keeps its price's total from zero, and removing what is
  there, return and keep that, with the depth asked for. \<open>best\<close> never aborts, and answers the best
  level with its two fields exchanged, the quantity narrowed to 32 bits.
\<close>

theorem hybrid_invariant:
  assumes "flat_hash_map_laws H" and "hv_inv H S l"
    and "nonzero_fits (hv_depth H l) v" and "spec_remove (hv_depth H l) w = Some d"
  shows "(\<exists>l'. hv_add H S l v = Inr l' \<and> hv_inv H S l' \<and> hv_depth H l' = spec_add (hv_depth H l) v) \<and>
    (\<exists>l'. hv_remove H S l w = Inr l' \<and> hv_inv H S l' \<and> hv_depth H l' = d) \<and>
    (\<exists>best. is_best S (hv_depth H l) best \<and> hv_best H S l = Inr (exchanged best))"
  using hv_add_ok [OF assms(1-3)] hv_remove_ok [OF assms(1,2,4)] hv_best_ok [OF assms(2)] by blast

definition one_price :: "(u32 \<times> u64) list HybridVectorMap" where
  "one_price = \<lparr>hv_prices = [10], hv_qty = [(10, 5)]\<rparr>"

lemma hybrid_invariant_witness:
  "\<exists>l'. hv_remove alist_hash_map Bid one_price \<lparr>Level.qty = 2, Level.price = 10\<rparr> = Inr l' \<and>
     hv_inv alist_hash_map Bid l' \<and> hv_depth alist_hash_map l' = [10 \<mapsto> 3]"
proof -
  have d: "hv_depth alist_hash_map one_price = [10 \<mapsto> 5]"
    by (auto simp: hv_depth_def one_price_def alist_hash_map_def fun_eq_iff)
  have "hv_inv alist_hash_map Bid one_price"
    unfolding hv_inv_def d by (simp add: one_price_def sorted_prices_def)
  moreover have "nonzero_fits (hv_depth alist_hash_map one_price) \<lparr>Level.qty = 1, Level.price = 20\<rparr>"
    unfolding d by (simp add: nonzero_fits_def spec_add_def)
  moreover have "spec_remove (hv_depth alist_hash_map one_price) \<lparr>Level.qty = 2, Level.price = 10\<rparr> = Some [10 \<mapsto> 3]"
    unfolding d by (auto simp: spec_remove_def fun_eq_iff)
  ultimately show ?thesis using hybrid_invariant [OF alist_hash_map_laws] by blast
qed

end
