(* ===== verification/Decoded.thy ===== *)
theory Decoded
  imports Parser_Correct
begin

text \<open>
  What \<open>parse_itch\<close> of \<open>include/itch_parser.hpp\<close> makes of arbitrary bytes, not only of encoded
  messages: a message of the type asked for whose arrays have their declared lengths, and whose
  encoding is the bytes it was read from, the six bytes of the time stamp apart.
\<close>

section \<open>Slices of memory\<close>

definition bytes_at :: "byte list \<Rightarrow> nat \<Rightarrow> nat \<Rightarrow> byte list" where
  "bytes_at mem p n = take n (drop p mem)"

lemma bytes_at_append: "q = p + m \<Longrightarrow> bytes_at mem p m @ bytes_at mem q n = bytes_at mem p (m + n)"
  by (simp add: bytes_at_def take_add add.commute)

lemma bytes_at_append2:
  "q = p + m \<Longrightarrow> bytes_at mem p m @ bytes_at mem q n @ rest = bytes_at mem p (m + n) @ rest"
  using bytes_at_append [of q p m mem n] by (metis append_assoc)

lemma rd_bytes: "rd mem p = Inr b \<Longrightarrow> bytes_at mem p (Suc n) = b # bytes_at mem (Suc p) n"
  by (auto simp: rd_def bytes_at_def Cons_nth_drop_Suc [symmetric] split: if_splits)

lemma bytes_at_0: "bytes_at mem p 0 = []"
  by (simp add: bytes_at_def)

section \<open>Loads and the bytes they read\<close>

lemma byte_bit_less: "bit (b :: byte) n \<Longrightarrow> n < 8"
  using bit_imp_le_length [of b n] by simp

lemma byte_eqI: "(\<And>n. n < 8 \<Longrightarrow> bit (a :: byte) n = bit b n) \<Longrightarrow> a = b"
  by (rule bit_word_eqI) simp

lemma bytes_of_u16:
  fixes b0 b1 :: byte
  defines "w \<equiv> push_bit 8 (ucast b0) OR ucast b1 :: u16"
  shows "ucast (drop_bit 8 w) = b0" "ucast (drop_bit 0 w) = b1"
  unfolding w_def by (rule byte_eqI; auto simp: bit_simps dest: byte_bit_less)+

lemma bytes_of_u32:
  fixes b0 b1 b2 b3 :: byte
  defines "w \<equiv> push_bit 24 (ucast b0) OR push_bit 16 (ucast b1) OR push_bit 8 (ucast b2) OR ucast b3 :: u32"
  shows "ucast (drop_bit 24 w) = b0" "ucast (drop_bit 16 w) = b1" "ucast (drop_bit 8 w) = b2"
    "ucast (drop_bit 0 w) = b3"
  unfolding w_def by (rule byte_eqI; auto simp: bit_simps dest: byte_bit_less)+

lemma bytes_of_u64:
  fixes b0 b1 b2 b3 b4 b5 b6 b7 :: byte
  defines "w \<equiv> push_bit 56 (ucast b0) OR push_bit 48 (ucast b1) OR push_bit 40 (ucast b2) OR
            push_bit 32 (ucast b3) OR push_bit 24 (ucast b4) OR push_bit 16 (ucast b5) OR
            push_bit 8 (ucast b6) OR ucast b7 :: u64"
  shows "ucast (drop_bit 56 w) = b0" "ucast (drop_bit 48 w) = b1" "ucast (drop_bit 40 w) = b2"
    "ucast (drop_bit 32 w) = b3" "ucast (drop_bit 24 w) = b4" "ucast (drop_bit 16 w) = b5"
    "ucast (drop_bit 8 w) = b6" "ucast (drop_bit 0 w) = b7"
  unfolding w_def by (rule byte_eqI; auto simp: bit_simps dest: byte_bit_less)+

lemma be_bytes_explicit:
  "be_bytes 2 w = [ucast (drop_bit 8 w), ucast (drop_bit 0 w)]"
  "be_bytes 4 w = [ucast (drop_bit 24 w), ucast (drop_bit 16 w), ucast (drop_bit 8 w), ucast (drop_bit 0 w)]"
  "be_bytes 8 w = [ucast (drop_bit 56 w), ucast (drop_bit 48 w), ucast (drop_bit 40 w), ucast (drop_bit 32 w),
     ucast (drop_bit 24 w), ucast (drop_bit 16 w), ucast (drop_bit 8 w), ucast (drop_bit 0 w)]"
  by (simp_all add: be_bytes_def upt_rec [of _ "numeral _"])

lemma load_u16_bytes: "load_be_u16 mem p = Inr v \<Longrightarrow> be_bytes 2 v = bytes_at mem p 2"
proof -
  assume "load_be_u16 mem p = Inr v"
  then obtain b0 b1 where b: "rd mem p = Inr b0" "rd mem (p + 1) = Inr b1"
    and v: "v = push_bit 8 (ucast b0) OR ucast b1"
    unfolding load_be_u16_def rbind_eq_Inr by blast
  have "bytes_at mem p (Suc (Suc 0)) = [b0, b1]"
    using b by (simp add: rd_bytes bytes_at_0 eval_nat_numeral)
  then show ?thesis unfolding be_bytes_explicit v bytes_of_u16 by (simp add: numeral_2_eq_2)
qed

lemma load_u32_bytes: "load_be_u32 mem p = Inr v \<Longrightarrow> be_bytes 4 v = bytes_at mem p 4"
proof -
  assume "load_be_u32 mem p = Inr v"
  then obtain b0 b1 b2 b3 where b: "rd mem p = Inr b0" "rd mem (p + 1) = Inr b1" "rd mem (p + 2) = Inr b2"
      "rd mem (p + 3) = Inr b3"
    and v: "v = push_bit 24 (ucast b0) OR push_bit 16 (ucast b1) OR push_bit 8 (ucast b2) OR ucast b3"
    unfolding load_be_u32_def rbind_eq_Inr by blast
  have "bytes_at mem p (Suc (Suc (Suc (Suc 0)))) = [b0, b1, b2, b3]"
    using b by (simp add: rd_bytes bytes_at_0 eval_nat_numeral)
  then show ?thesis unfolding be_bytes_explicit v bytes_of_u32 by (simp add: eval_nat_numeral)
qed

lemma load_u64_bytes: "load_be_u64 mem p = Inr v \<Longrightarrow> be_bytes 8 v = bytes_at mem p 8"
proof -
  assume "load_be_u64 mem p = Inr v"
  then obtain b0 b1 b2 b3 b4 b5 b6 b7 where b: "rd mem p = Inr b0" "rd mem (p + 1) = Inr b1"
      "rd mem (p + 2) = Inr b2" "rd mem (p + 3) = Inr b3" "rd mem (p + 4) = Inr b4" "rd mem (p + 5) = Inr b5"
      "rd mem (p + 6) = Inr b6" "rd mem (p + 7) = Inr b7"
    and v: "v = push_bit 56 (ucast b0) OR push_bit 48 (ucast b1) OR push_bit 40 (ucast b2) OR
            push_bit 32 (ucast b3) OR push_bit 24 (ucast b4) OR push_bit 16 (ucast b5) OR
            push_bit 8 (ucast b6) OR ucast b7"
    unfolding load_be_u64_def rbind_eq_Inr by blast
  have "bytes_at mem p (Suc (Suc (Suc (Suc (Suc (Suc (Suc (Suc 0)))))))) = [b0, b1, b2, b3, b4, b5, b6, b7]"
    using b by (simp add: rd_bytes bytes_at_0 eval_nat_numeral)
  then show ?thesis unfolding be_bytes_explicit v bytes_of_u64 by (simp add: eval_nat_numeral)
qed

lemma load_char_bytes: "load_be_char mem p = Inr c \<Longrightarrow> [byte_of_char c] = bytes_at mem p 1"
  using rd_bytes [of mem p _ 0] by (auto simp: load_be_char_def rbind_eq_Inr bytes_at_0)

lemma load_chars_bytes: "load_chars mem p n = Inr str \<Longrightarrow> map byte_of_char str = bytes_at mem p n"
  by (auto simp: load_chars_def bytes_at_def comp_def split: if_splits)

lemma load_chars_length: "load_chars mem p n = Inr str \<Longrightarrow> length str = n"
  by (auto simp: load_chars_def split: if_splits)

section \<open>All 22 layouts\<close>

text \<open>
  Every layout begins with two 16-bit members and the time stamp; the encoding is compared before
  and after that.
\<close>

definition reads_back :: "'m Field list \<Rightarrow> 'm \<Rightarrow> byte list \<Rightarrow> nat \<Rightarrow> bool" where
  "reads_back L m mem src \<longleftrightarrow>
     list_all (field_ok m) L \<and> take 4 (encode L m) = bytes_at mem src 4 \<and>
     drop 10 (encode L m) = bytes_at mem (src + 10) (layout_size L - 10)"

lemma load_char_bytes2: "load_be_char mem p = Inr c \<Longrightarrow> byte_of_char c # rest = bytes_at mem p 1 @ rest"
  using load_char_bytes [of mem p c] by simp

lemmas decode_simps =
  parse_itch_def rbind_eq_Inr reads_back_def encode_def layout_size_def load_chars_length
  load_char_bytes load_char_bytes2 load_u16_bytes load_u32_bytes load_u64_bytes load_chars_bytes
  bytes_at_append bytes_at_append2

lemma parse_reads_back:
  "parse_itch SystemEventLayout m0 mem src = Inr x0 \<Longrightarrow> reads_back SystemEventLayout x0 mem src"
  "parse_itch StockDirectoryLayout m1 mem src = Inr x1 \<Longrightarrow> reads_back StockDirectoryLayout x1 mem src"
  "parse_itch TradingActionLayout m2 mem src = Inr x2 \<Longrightarrow> reads_back TradingActionLayout x2 mem src"
  "parse_itch RegShoLayout m3 mem src = Inr x3 \<Longrightarrow> reads_back RegShoLayout x3 mem src"
  "parse_itch MarketParticipantPosLayout m4 mem src = Inr x4 \<Longrightarrow> reads_back MarketParticipantPosLayout x4 mem src"
  "parse_itch MwcbDeclineLevelLayout m5 mem src = Inr x5 \<Longrightarrow> reads_back MwcbDeclineLevelLayout x5 mem src"
  "parse_itch MwcbStatusLayout m6 mem src = Inr x6 \<Longrightarrow> reads_back MwcbStatusLayout x6 mem src"
  "parse_itch IpoQuotationPeriodUpdLayout m7 mem src = Inr x7 \<Longrightarrow> reads_back IpoQuotationPeriodUpdLayout x7 mem src"
  "parse_itch LuldAuctionCollarLayout m8 mem src = Inr x8 \<Longrightarrow> reads_back LuldAuctionCollarLayout x8 mem src"
  "parse_itch OperationalHaltLayout m9 mem src = Inr x9 \<Longrightarrow> reads_back OperationalHaltLayout x9 mem src"
  "parse_itch AddOrderNoMpidLayout m10 mem src = Inr x10 \<Longrightarrow> reads_back AddOrderNoMpidLayout x10 mem src"
  "parse_itch AddOrderMpidLayout m11 mem src = Inr x11 \<Longrightarrow> reads_back AddOrderMpidLayout x11 mem src"
  "parse_itch OrderExecutedLayout m12 mem src = Inr x12 \<Longrightarrow> reads_back OrderExecutedLayout x12 mem src"
  "parse_itch OrderExecutedPriceLayout m13 mem src = Inr x13 \<Longrightarrow> reads_back OrderExecutedPriceLayout x13 mem src"
  "parse_itch OrderCancelLayout m14 mem src = Inr x14 \<Longrightarrow> reads_back OrderCancelLayout x14 mem src"
  "parse_itch OrderDeleteLayout m15 mem src = Inr x15 \<Longrightarrow> reads_back OrderDeleteLayout x15 mem src"
  "parse_itch OrderReplaceLayout m16 mem src = Inr x16 \<Longrightarrow> reads_back OrderReplaceLayout x16 mem src"
  "parse_itch TradeMessageNonCrossLayout m17 mem src = Inr x17 \<Longrightarrow> reads_back TradeMessageNonCrossLayout x17 mem src"
  "parse_itch TradeMessageCrossLayout m18 mem src = Inr x18 \<Longrightarrow> reads_back TradeMessageCrossLayout x18 mem src"
  "parse_itch BrokenTradeLayout m19 mem src = Inr x19 \<Longrightarrow> reads_back BrokenTradeLayout x19 mem src"
  "parse_itch NoiiLayout m20 mem src = Inr x20 \<Longrightarrow> reads_back NoiiLayout x20 mem src"
  "parse_itch DirectListingCapitalRaiseLayout m21 mem src = Inr x21 \<Longrightarrow> reads_back DirectListingCapitalRaiseLayout x21 mem src"
  by (auto simp: layout_defs decode_simps)

section \<open>Properties\<close>

text \<open>
  C37. What the parser delivers is well typed, whatever the bytes: if \<open>parse_itch\<close> returns for the type
  byte of a message, the result is a message of that type, every character array in it has its
  declared length, and encoding it gives back the bytes it was read from, the time stamp apart.
\<close>

theorem parsed_message_well_typed:
  assumes "parse_msg k mem src = Inr m"
  shows "msg_type m = k \<and> msg_ok m \<and>
    take 4 (encode_msg m) = bytes_at mem src 4 \<and>
    drop 10 (encode_msg m) = bytes_at mem (src + 10) (msg_size m - 10)"
  using assms
  by (cases k) (auto simp: rbind_eq_Inr reads_back_def dest!: parse_reads_back)

definition read_event :: itch_msg where
  "read_event = Msg_SystemEvent \<lparr>SystemEvent.stock_locate = 1, tracking_number = 515, timestamp = 4419622470661,
     event_code = CHR 0x43\<rparr>"

lemma read_event_parsed: "parse_msg SYSTEM_EVENT [0, 1, 2, 3, 4, 5, 6, 7, 8, 9, 67, 99] 0 = Inr read_event"
  by code_simp

lemma parsed_message_well_typed_witness:
  "msg_type read_event = SYSTEM_EVENT \<and> msg_ok read_event \<and>
   take 4 (encode_msg read_event) = bytes_at [0, 1, 2, 3, 4, 5, 6, 7, 8, 9, 67, 99] 0 4 \<and>
   drop 10 (encode_msg read_event) =
     bytes_at [0, 1, 2, 3, 4, 5, 6, 7, 8, 9, 67, 99] (0 + 10) (msg_size read_event - 10)"
  by (rule parsed_message_well_typed [OF read_event_parsed])

end
