(* ===== verification/Benchmark_Utils.thy ===== *)
theory Benchmark_Utils
  imports Prelude
begin

text \<open>
  \<open>include/benchmarks/benchmark_utils.hpp\<close> and \<open>src/benchmarks/benchmark_utils.cpp\<close>: the conversion
  between time stamp counter cycles and nanoseconds, the calibration of the counter, and the
  exports of latencies and prices. The readings of the clocks and whether a file can be opened are
  parameters; a file is the text written to it.
\<close>

section \<open>Time\<close>

record timespec =
  tv_sec :: u64
  tv_nsec :: u64

definition timespec_ns :: "timespec \<Rightarrow> u64" where
  "timespec_ns ts = tv_sec ts * 1000000000 + tv_nsec ts"

definition monotonic_raw_ns :: "timespec \<Rightarrow> u64" where
  "monotonic_raw_ns ts = timespec_ns ts"

text \<open>
  The intermediate \<open>__int128\<close> values are nonnegative and below \<open>2 ^ 127\<close> (lemma \<open>product_fits\<close>), so
  they are integers here; the cast at the end takes the result modulo \<open>2 ^ 64\<close>.
\<close>

definition cycles_to_ns :: "u64 \<Rightarrow> u64 \<Rightarrow> u64 result" where
  "cycles_to_ns cycles freq =
     (let num = uint cycles * 1000000000 + uint (freq div 2)
      in if freq = 0 then Inl Div_By_Zero else Inr (word_of_int (num div uint freq)))"

text \<open>The two readings of the clock and the counter, before and after the sleep.\<close>

definition calibrate_tsc :: "timespec \<Rightarrow> u64 \<Rightarrow> timespec \<Rightarrow> u64 \<Rightarrow> u64 result" where
  "calibrate_tsc ts0 c0 ts1 c1 =
     (let t0_ns = timespec_ns ts0;
          t1_ns = timespec_ns ts1;
          delta_cycles = c1 - c0;
          delta_ns = t1_ns - t0_ns;
          tmp = uint delta_cycles * 1000000000
      in if delta_ns = 0 then Inl Div_By_Zero
         else Inr (word_of_int ((tmp + uint (delta_ns div 2)) div uint delta_ns)))"

lemma product_fits:
  "0 \<le> uint (x :: u64) * 1000000000 + uint (y :: u64) \<and> uint x * 1000000000 + uint y < 2 ^ 127"
proof -
  have "uint x < 2 ^ 64" "uint y < 2 ^ 64" using uint_lt2p [of x] uint_lt2p [of y] by simp_all
  then show ?thesis by (simp add: add_nonneg_nonneg)
qed

section \<open>Rounded division\<close>

definition round_div :: "int \<Rightarrow> int \<Rightarrow> int" where
  "round_div a b = (a + b div 2) div b"

lemma round_div_error:
  assumes "0 < b"
  shows "2 * \<bar>round_div a b * b - a\<bar> \<le> b"
proof -
  have "(a + b div 2) div b * b = a + b div 2 - (a + b div 2) mod b"
    by (rule div_mult_mod_eq [THEN eq_diff_eq [THEN iffD2]])
  moreover have "0 \<le> (a + b div 2) mod b" "(a + b div 2) mod b < b" using assms by simp_all
  moreover have "2 * (b div 2) \<le> b" "b \<le> 2 * (b div 2) + 1" by linarith+
  ultimately show ?thesis unfolding round_div_def by (auto simp: abs_le_iff abs_if)
qed

lemma round_div_nonneg: "0 \<le> a \<Longrightarrow> 0 < b \<Longrightarrow> 0 \<le> round_div a b"
  by (simp add: round_div_def pos_imp_zdiv_nonneg_iff)

text \<open>Dividing by a rounded quotient gives back the divisor, to within the two roundings.\<close>

lemma round_div_back:
  assumes "0 < n" and f: "0 < round_div a n"
  shows "2 * round_div a n * \<bar>round_div a (round_div a n) - n\<bar> \<le> round_div a n + n"
proof -
  let ?f = "round_div a n" let ?r = "round_div a ?f"
  have "2 * \<bar>?r * ?f - a\<bar> \<le> ?f" and "2 * \<bar>?f * n - a\<bar> \<le> n"
    using round_div_error [OF f] round_div_error [OF assms(1)] by blast+
  moreover have "\<bar>?r * ?f - ?f * n\<bar> \<le> \<bar>?r * ?f - a\<bar> + \<bar>?f * n - a\<bar>" by simp
  ultimately have "2 * \<bar>?r * ?f - ?f * n\<bar> \<le> ?f + n" by simp
  moreover have "?r * ?f - ?f * n = ?f * (?r - n)" by (simp add: right_diff_distrib)
  then have "\<bar>?r * ?f - ?f * n\<bar> = ?f * \<bar>?r - n\<bar>" using f by (simp only: abs_mult abs_of_pos)
  ultimately show ?thesis by simp
qed

lemma within_one:
  assumes "2 * f * \<bar>x\<bar> \<le> f + n" and "n \<le> f" and "0 < (f :: int)"
  shows "\<bar>x\<bar> \<le> 1"
proof -
  have "2 * (\<bar>x\<bar> * f) \<le> f + n" using assms(1) by (simp add: mult.commute mult.left_commute)
  then have "\<bar>x\<bar> * f \<le> 1 * f" using assms(2) by linarith
  then show ?thesis using assms(3) by (simp only: mult_le_cancel_right)
qed

lemma uint_half: "uint (x div 2 :: u64) = uint x div 2"
  by (simp add: uint_div)

lemma cycles_to_ns_eq:
  "freq \<noteq> 0 \<Longrightarrow> cycles_to_ns cycles freq = Inr (word_of_int (round_div (uint cycles * 1000000000) (uint freq)))"
  by (simp add: cycles_to_ns_def round_div_def uint_half)

lemma calibrate_tsc_eq:
  "timespec_ns ts1 - timespec_ns ts0 \<noteq> 0 \<Longrightarrow> calibrate_tsc ts0 c0 ts1 c1 =
     Inr (word_of_int (round_div (uint (c1 - c0) * 1000000000) (uint (timespec_ns ts1 - timespec_ns ts0))))"
  by (simp add: calibrate_tsc_def round_div_def uint_half Let_def)

lemma uint_pos: "x \<noteq> 0 \<Longrightarrow> 0 < uint (x :: u64)"
  using uint_ge_0 [of x] by (simp add: less_le word_uint_eq_iff)

lemma uint_of_small: "0 \<le> x \<Longrightarrow> x < 2 ^ 64 \<Longrightarrow> uint (word_of_int x :: u64) = x"
  by (simp add: uint_word_of_int)

lemma round_div_le: "0 \<le> a \<Longrightarrow> 0 < b \<Longrightarrow> round_div a b \<le> a + 1"
proof -
  assume a: "0 \<le> a" and b: "0 < b"
  have "b div 2 \<le> b - 1" using b by linarith
  moreover have "a \<le> a * b" using a b by (simp add: mult_le_cancel_left1)
  ultimately have "a + b div 2 < (a + 1) * b" by (simp add: distrib_right)
  moreover have "(a + b div 2) div b * b \<le> a + b div 2"
    using b by (simp add: div_mult_mod_eq [THEN eq_diff_eq [THEN iffD2]])
  ultimately have "(a + b div 2) div b * b < (a + 1) * b" by linarith
  then have "(a + b div 2) div b < a + 1" using b by (simp only: mult_less_cancel_right_pos)
  then show ?thesis by (simp add: round_div_def)
qed

section \<open>The exports\<close>

fun decimal :: "nat \<Rightarrow> string" where
  "decimal n =
     (if n < 10 then [char_of (48 + n)] else decimal (n div 10) @ [char_of (48 + n mod 10)])"

declare decimal.simps [simp del]

definition csv_line :: "nat \<Rightarrow> nat \<Rightarrow> string" where
  "csv_line a b = decimal a @ '','' @ decimal b @ [CHR 0x0A]"

text \<open>A map is the list of its entries in the order of an iteration over it.\<close>

definition sorted_data :: "(u64 \<times> u64) list \<Rightarrow> (u64 \<times> u64) list" where
  "sorted_data entries = sort_key fst entries"

text \<open>The total is a signed 128-bit integer: a product or a sum outside that type is undefined.\<close>

definition i128 :: "int \<Rightarrow> int result" where
  "i128 x = (if - (2 ^ 127) \<le> x \<and> x < 2 ^ 127 then Inr x else Inl Signed_Overflow)"

fun total_from :: "int \<Rightarrow> (u64 \<times> u64) list \<Rightarrow> int result" where
  "total_from acc [] = Inr acc"
| "total_from acc ((latency, count) # data) =
     rbind (i128 (uint latency * uint count)) (\<lambda>p. rbind (i128 (acc + p)) (\<lambda>t. total_from t data))"

text \<open>
  An export prints the number of its entries, writes a file and prints the total. The total is
  printed in seconds as a floating-point number; here it is the exact integer.
\<close>

definition export_latency_distribution_csv_ns ::
    "(u64 \<times> u64) list \<Rightarrow> bool \<Rightarrow> (nat \<times> string \<times> int) result" where
  "export_latency_distribution_csv_ns latency_distribution opened =
     (let data = sorted_data latency_distribution
      in if \<not> opened then Inl Aborted
         else rbind (total_from 0 data) (\<lambda>total_ns.
           Inr (length latency_distribution,
             ''latency_ns,count'' @ [CHR 0x0A] @
             concat (map (\<lambda>(latency_ns, count). csv_line (unat latency_ns) (unat count)) data), total_ns)))"

fun cycles_rows :: "u64 \<Rightarrow> (u64 \<times> u64) list \<Rightarrow> string result" where
  "cycles_rows freq [] = Inr []"
| "cycles_rows freq ((cycles, count) # data) =
     rbind (cycles_to_ns cycles freq) (\<lambda>ns.
     rbind (cycles_rows freq data) (\<lambda>rows. Inr (csv_line (unat ns) (unat count) @ rows)))"

definition export_latency_distribution_csv_cycles ::
    "u64 \<Rightarrow> (u64 \<times> u64) list \<Rightarrow> bool \<Rightarrow> (nat \<times> string \<times> int) result" where
  "export_latency_distribution_csv_cycles rdtscp_freq latency_distribution opened =
     (let data = sorted_data latency_distribution
      in if \<not> opened then Inl Aborted
         else rbind (cycles_rows rdtscp_freq data) (\<lambda>rows.
           rbind (total_from 0 data) (\<lambda>total_cycles.
             Inr (length latency_distribution, ''latency_ns,count'' @ [CHR 0x0A] @ rows, total_cycles))))"

definition filled :: "u64 list \<Rightarrow> nat list" where
  "filled latency_histogram = filter (\<lambda>i. latency_histogram ! i \<noteq> 0) [0..<length latency_histogram]"

definition export_latency_histogram_csv_ns :: "u64 list \<Rightarrow> bool \<Rightarrow> (nat \<times> string \<times> int) result" where
  "export_latency_histogram_csv_ns latency_histogram opened =
     (let non_empty_buckets = length (filled latency_histogram)
      in rbind (total_from 0 (map (\<lambda>i. (of_nat i, latency_histogram ! i)) (filled latency_histogram))) (\<lambda>total_ns.
         if \<not> opened then Inl Aborted
         else Inr (non_empty_buckets,
           ''latency_ns,count'' @ [CHR 0x0A] @
           concat (map (\<lambda>i. csv_line i (unat (latency_histogram ! i))) (filled latency_histogram)), total_ns)))"

definition export_prices_csv :: "(u64 \<times> u32) list \<Rightarrow> bool \<Rightarrow> string result" where
  "export_prices_csv prices opened =
     (if \<not> opened then Inl Aborted
      else Inr (''timestamp,price'' @ [CHR 0x0A] @
        concat (map (\<lambda>(timestamp, price). csv_line (unat timestamp) (unat price)) prices)))"

text \<open>No total of a histogram with at most \<open>2 ^ 31\<close> buckets overflows.\<close>

lemma i128_fits: "0 \<le> x \<Longrightarrow> x < 2 ^ 127 \<Longrightarrow> i128 x = Inr x"
  by (simp add: i128_def)

lemma total_from_fits:
  "\<forall>(l, n) \<in> set data. uint l < 2 ^ 31 \<Longrightarrow> 0 \<le> acc \<Longrightarrow> acc + int (length data) * 2 ^ 95 < 2 ^ 127 \<Longrightarrow>
    total_from acc data = Inr (acc + sum_list (map (\<lambda>(l, n). uint l * uint n) data))"
proof (induction acc data rule: total_from.induct)
  case (2 acc l n data)
  have n: "0 \<le> uint n" "uint n < 2 ^ 64" and l: "0 \<le> uint l" "uint l < 2 ^ 31"
    using 2(2) uint_lt2p [of n] by auto
  have "uint l * uint n \<le> 2 ^ 31 * 2 ^ 64" using n l by (intro mult_mono) simp_all
  then have p: "0 \<le> uint l * uint n" "uint l * uint n \<le> 2 ^ 95" using n l by simp_all
  have len: "int (length ((l, n) # data)) * 2 ^ 95 = int (length data) * 2 ^ 95 + 2 ^ 95"
    by (simp add: distrib_right)
  have "0 \<le> int (length data) * 2 ^ 95" by simp
  with p len 2(3,4) have sums: "0 \<le> acc + uint l * uint n"
    "acc + uint l * uint n + int (length data) * 2 ^ 95 < 2 ^ 127"
    "acc + uint l * uint n < 2 ^ 127" by linarith+
  from p sums have "i128 (uint l * uint n) = Inr (uint l * uint n)"
    "i128 (acc + uint l * uint n) = Inr (acc + uint l * uint n)"
    using i128_fits [of "uint l * uint n"] i128_fits [of "acc + uint l * uint n"] by simp_all
  moreover have "total_from (acc + uint l * uint n) data =
      Inr (acc + uint l * uint n + sum_list (map (\<lambda>(l, n). uint l * uint n) data))"
    using 2(2) sums(1,2) calculation by (intro 2(1)) auto
  ultimately show ?case by simp
qed simp

lemma histogram_total:
  assumes "length h \<le> 2 ^ 31"
  shows "total_from 0 (map (\<lambda>i. (of_nat i, h ! i)) (filled h)) =
    Inr (sum_list (map (\<lambda>i. int i * uint (h ! i)) (filled h)))"
proof -
  let ?d = "map (\<lambda>i. (of_nat i :: u64, h ! i)) (filled h)"
  have small: "uint (of_nat i :: u64) = int i \<and> int i < 2 ^ 31" if "i \<in> set (filled h)" for i
  proof -
    have "i < 2 ^ 31" using that assms by (simp add: filled_def)
    then have "int i < int (2 ^ 31)" by (simp only: of_nat_less_iff)
    then have "int i < 2 ^ 31" by simp
    then show ?thesis by (simp add: unsigned_of_nat take_bit_nat_eq_self)
  qed
  have "length (filled h) \<le> length h"
    using length_filter_le [of _ "[0..<length h]"] by (simp add: filled_def)
  with assms have "int (length ?d) \<le> 2 ^ 31" by simp
  then have "int (length ?d) * 2 ^ 95 \<le> 2 ^ 31 * 2 ^ 95" by (rule mult_right_mono) simp
  then have "0 + int (length ?d) * 2 ^ 95 < 2 ^ 127" by simp
  then have "total_from 0 ?d = Inr (0 + sum_list (map (\<lambda>(l, n). uint l * uint n) ?d))"
    using small by (intro total_from_fits) auto
  also have "map (\<lambda>(l, n). uint l * uint n) ?d = map (\<lambda>i. int i * uint (h ! i)) (filled h)"
    using small by simp
  finally show ?thesis by simp
qed

text \<open>A histogram and a map of the same latencies.\<close>

definition same_latencies :: "u64 list \<Rightarrow> (u64 \<times> u64) list \<Rightarrow> bool" where
  "same_latencies h entries \<longleftrightarrow>
     length h \<le> 2 ^ 31 \<and> distinct (map fst entries) \<and>
     set entries = (\<lambda>i. (of_nat i, h ! i)) ` set (filled h)"

lemma sorted_data_filled:
  assumes same: "same_latencies h entries"
  shows "sorted_data entries = map (\<lambda>i. (of_nat i, h ! i)) (filled h)"
proof -
  let ?rows = "map (\<lambda>i. (of_nat i :: u64, h ! i)) (filled h)"
  have d: "distinct (map fst entries)" using same by (simp add: same_latencies_def)
  have small: "i \<in> set (filled h) \<Longrightarrow> i < 2 ^ 64" for i
    using same by (auto simp: same_latencies_def filled_def)
  have mono: "of_nat i < (of_nat j :: u64)" if "i < j" "j < 2 ^ 64" for i j
    using that by (simp add: word_less_nat_alt unat_of_nat take_bit_nat_eq_self)
  have "sorted_wrt (<) (filled h)"
    unfolding filled_def by (intro sorted_wrt_filter sorted_wrt_upt)
  then have "sorted_wrt (<) (map fst ?rows)"
    unfolding map_map sorted_wrt_map by (rule sorted_wrt_mono_rel [rotated]) (use mono small in auto)
  then have "sorted (map fst ?rows)" "distinct (map fst ?rows)"
    by (simp_all only: strict_sorted_iff)
  moreover have "sorted (map fst (sorted_data entries))" "set (sorted_data entries) = set ?rows"
    using same by (simp_all add: sorted_data_def same_latencies_def)
  moreover have "distinct (map fst (sorted_data entries))"
    using d by (simp add: sorted_data_def distinct_map)
  moreover have "inj_on fst (set ?rows)"
    using calculation(2) unfolding distinct_map by blast
  ultimately show ?thesis
    by (intro map_sorted_distinct_set_unique [where f = fst]) simp_all
qed

section \<open>Running \<open>perf\<close>\<close>

text \<open>
  \<open>run_perf_report\<close> and \<open>run_perf_stat\<close> fork a process that becomes \<open>perf\<close>, attached to its parent. The
  result of \<open>fork\<close>, the parent's identifier and whether \<open>perf\<close> can be executed are parameters; a
  process ends up returning to the caller, as another program, or with an exit code.
\<close>

datatype process =
    Returns int
  | Executes string "string list"
  | Exits nat

text \<open>\<open>snprintf\<close> writes at most 31 characters and the terminating zero.\<close>

definition pidbuf :: "nat \<Rightarrow> string" where
  "pidbuf ppid = take 31 (decimal ppid)"

definition exec_perf :: "bool \<Rightarrow> string list \<Rightarrow> process" where
  "exec_perf found args = (if found then Executes ''perf'' args else Exits 127)"

definition run_perf_report :: "int \<Rightarrow> nat \<Rightarrow> bool \<Rightarrow> process" where
  "run_perf_report pid ppid found =
     (if pid = 0 then exec_perf found [''perf'', ''record'', ''-F'', ''999'', ''-g'', ''-p'', pidbuf ppid]
      else Returns pid)"

definition run_perf_stat :: "int \<Rightarrow> nat \<Rightarrow> bool \<Rightarrow> process" where
  "run_perf_stat pid ppid found =
     (if pid = 0 then exec_perf found [''perf'', ''stat'', ''-p'', pidbuf ppid] else Returns pid)"

lemma length_decimal: "n < 10 ^ Suc k \<Longrightarrow> length (decimal n) \<le> Suc k"
proof (induction k arbitrary: n)
  case 0
  then show ?case by (subst decimal.simps) simp
next
  case (Suc k)
  then have "n div 10 < 10 ^ Suc k" by (simp add: less_mult_imp_div_less mult.commute)
  with Suc.IH show ?case by (subst decimal.simps) simp
qed

text \<open>The buffer has room for every process identifier.\<close>

lemma pidbuf_whole:
  assumes "ppid < 2 ^ 31"
  shows "pidbuf ppid = decimal ppid"
proof -
  have "ppid < 10 ^ Suc 9" using assms by simp
  from length_decimal [OF this] show ?thesis by (simp add: pidbuf_def)
qed

section \<open>Properties\<close>

text \<open>
  C38. The calibration against its own interval. If the counter runs fewer than \<open>2 ^ 34\<close> cycles during
  an interval of \<open>n\<close> nanoseconds, and the calibration returns a frequency \<open>f\<close> (in Hz) that is not 0,
  then converting those cycles at \<open>f\<close> returns a number of nanoseconds that differs from \<open>n\<close> by at most
  \<open>(1 + n / f) / 2\<close>: by at most one where \<open>n \<le> f\<close>, as at 1 GHz over one second, and by more over a longer
  interval or at a lower frequency. The result is the quotient rounded to nearest, and neither 64 nor 128
  bits overflow.
\<close>

theorem calibrated_conversion:
  assumes "uint (c1 - c0) < 2 ^ 34" and "calibrate_tsc ts0 c0 ts1 c1 = Inr freq" and "freq \<noteq> 0"
  shows "\<exists>ns. cycles_to_ns (c1 - c0) freq = Inr ns \<and>
    2 * uint freq * \<bar>uint ns - uint (timespec_ns ts1 - timespec_ns ts0)\<bar>
      \<le> uint freq + uint (timespec_ns ts1 - timespec_ns ts0) \<and>
    (uint (timespec_ns ts1 - timespec_ns ts0) \<le> uint freq \<longrightarrow>
      \<bar>uint ns - uint (timespec_ns ts1 - timespec_ns ts0)\<bar> \<le> 1) \<and>
    2 * \<bar>uint ns * uint freq - uint (c1 - c0) * 1000000000\<bar> \<le> uint freq"
proof -
  let ?a = "uint (c1 - c0) * 1000000000" and ?n = "uint (timespec_ns ts1 - timespec_ns ts0)"
  let ?ns = "word_of_int (round_div ?a (uint freq)) :: u64"
  have a: "0 \<le> ?a" "?a + 1 < 2 ^ 64" using assms(1) uint_ge_0 [of "c1 - c0"] by simp_all
  have interval: "timespec_ns ts1 - timespec_ns ts0 \<noteq> 0"
    using assms(2) by (auto simp: calibrate_tsc_def Let_def)
  note n = uint_pos [OF interval] and pos = uint_pos [OF assms(3)]
  have "freq = word_of_int (round_div ?a ?n)" using assms(2) interval by (simp add: calibrate_tsc_eq)
  then have freq: "round_div ?a ?n = uint freq"
    using round_div_nonneg [OF a(1) n] round_div_le [OF a(1) n] a(2) by (simp add: uint_of_small)
  have ns: "uint ?ns = round_div ?a (uint freq)"
    using round_div_nonneg [OF a(1) pos] round_div_le [OF a(1) pos] a(2) by (intro uint_of_small) linarith+
  have "2 * uint freq * \<bar>uint ?ns - ?n\<bar> \<le> uint freq + ?n"
    using round_div_back [OF n, of ?a] pos unfolding ns freq by simp
  moreover from this have "\<bar>uint ?ns - ?n\<bar> \<le> 1" if "?n \<le> uint freq" using that pos by (rule within_one)
  moreover have "2 * \<bar>uint ?ns * uint freq - ?a\<bar> \<le> uint freq"
    using round_div_error [OF pos, of ?a] unfolding ns .
  ultimately show ?thesis using cycles_to_ns_eq [OF assms(3)] by blast
qed

definition reading :: "u64 \<Rightarrow> timespec" where
  "reading ns = \<lparr>tv_sec = 7, tv_nsec = ns\<rparr>"

text \<open>A second at 3.1 GHz, converted back to the nanosecond; 17 seconds at 1 GHz, 8 nanoseconds off.\<close>

lemma calibrated_conversion_witness:
  "(\<exists>ns. cycles_to_ns (3100000000 - 7) 3099999745 = Inr ns \<and>
    \<bar>uint ns - uint (timespec_ns \<lparr>tv_sec = 8, tv_nsec = 80\<rparr> - timespec_ns (reading 0))\<bar> \<le> 1) \<and>
   (\<exists>ns. cycles_to_ns (17000000008 - 0) 1000000000 = Inr ns \<and> \<bar>uint ns - 17000000000\<bar> \<le> 9)"
proof
  have "calibrate_tsc (reading 0) 7 \<lparr>tv_sec = 8, tv_nsec = 80\<rparr> 3100000000 = Inr 3099999745"
    by (simp add: reading_def timespec_ns_def calibrate_tsc_def Let_def)
  from calibrated_conversion [OF _ this]
  show "\<exists>ns. cycles_to_ns (3100000000 - 7) 3099999745 = Inr ns \<and>
    \<bar>uint ns - uint (timespec_ns \<lparr>tv_sec = 8, tv_nsec = 80\<rparr> - timespec_ns (reading 0))\<bar> \<le> 1"
    by (auto simp: reading_def timespec_ns_def)
next
  have "calibrate_tsc (reading 0) 0 \<lparr>tv_sec = 24, tv_nsec = 0\<rparr> 17000000008 = Inr 1000000000"
    by (simp add: reading_def timespec_ns_def calibrate_tsc_def Let_def)
  from calibrated_conversion [OF _ this]
  show "\<exists>ns. cycles_to_ns (17000000008 - 0) 1000000000 = Inr ns \<and> \<bar>uint ns - 17000000000\<bar> \<le> 9"
    by (fastforce simp: reading_def timespec_ns_def)
qed

text \<open>
  The two exports of latencies agree: an array of counters indexed by the latency and a map of
  the same latencies, iterated in any order, give the same file and the same printed number, or both
  abort when the file cannot be opened.
\<close>

lemma exports_agree:
  assumes "same_latencies h entries"
  shows "export_latency_histogram_csv_ns h opened = export_latency_distribution_csv_ns entries opened"
proof -
  have rows: "sorted_data entries = map (\<lambda>i. (of_nat i, h ! i)) (filled h)"
    by (rule sorted_data_filled [OF assms])
  have len: "length h \<le> 2 ^ 31" using assms by (simp add: same_latencies_def)
  have "unat (of_nat i :: u64) = i" if "i \<in> set (filled h)" for i
    using that len by (simp add: same_latencies_def filled_def unat_of_nat take_bit_nat_eq_self)
  then have "map (\<lambda>i. csv_line i (unat (h ! i))) (filled h) =
      map (\<lambda>(latency_ns, count). csv_line (unat latency_ns) (unat count)) (sorted_data entries)"
    unfolding rows by simp
  moreover have "length entries = length (filled h)"
    using arg_cong [OF rows, of length] by (simp add: sorted_data_def)
  ultimately show ?thesis
    by (simp only: export_latency_histogram_csv_ns_def export_latency_distribution_csv_ns_def Let_def rows
        histogram_total [OF len] rbind.simps)
qed

end
