(* ===== verification/Example_Benchmarks.thy ===== *)
theory Example_Benchmarks
  imports Handler_Correct Benchmark_Utils
begin

text \<open>
  The two handlers the parser is benchmarked with: \<open>include/benchmarks/example_benchmark.hpp\<close>, one book
  for one stock with the latency of every message that touches it, and
  \<open>include/benchmarks/example_benchmark_parsing.hpp\<close>, which takes all 22 messages and does nothing with
  them. The readings of the clock are a parameter, one per
  reading; \<open>D\<close> is the hash map of latency counts.
\<close>

section \<open>\<open>BenchmarkOrderBook\<close>\<close>

record ('m, 'd) BenchmarkOrderBook =
  target_stock_locate :: u16
  order_book :: "'m split_book"
  touched :: bool
  latency_distribution :: 'd
  total_messages :: u64
  t0 :: u64
  last_message :: bool
  record_prices :: bool
  prices :: "(u64 \<times> u32) list"
  readings :: nat

type_synonym 'd latency_map = "(u64, u64, 'd) flat_hash_map"

text \<open>\<open>perf\<close> says whether the macro \<open>PERF\<close> is defined, which leaves the recording of latencies and prices out.\<close>

definition bm_init ::
    "bool \<Rightarrow> (u64, Order, 'm) flat_hash_map \<Rightarrow> 'd latency_map \<Rightarrow> u64 \<Rightarrow> ('m, 'd) BenchmarkOrderBook" where
  "bm_init perf H D uninit =
     \<lparr>target_stock_locate = - 1, order_book = book_init split_ops H, touched = False,
      latency_distribution = hm_empty D, total_messages = 0, t0 = uninit, last_message = False,
      record_prices = False, prices = (if perf then [] else [(0, 0)]), readings = 0\<rparr>"

definition bm_should_stop :: "('m, 'd) BenchmarkOrderBook \<Rightarrow> bool" where
  "bm_should_stop b = BenchmarkOrderBook.last_message b"

definition bm_handle_before :: "bool \<Rightarrow> (nat \<Rightarrow> u64) \<Rightarrow> ('m, 'd) BenchmarkOrderBook \<Rightarrow> ('m, 'd) BenchmarkOrderBook" where
  "bm_handle_before perf ns b =
     (if perf then b
      else b\<lparr>touched := False, BenchmarkOrderBook.t0 := ns (readings b), readings := readings b + 1\<rparr>)"

text \<open>\<open>latency_distribution[latency_ns]++\<close>\<close>

definition count_latency :: "'d latency_map \<Rightarrow> u64 \<Rightarrow> 'd \<Rightarrow> 'd" where
  "count_latency D latency_ns d =
     (let d1 = hm_insert D d latency_ns 0
      in hm_assign D d1 latency_ns (the (hm_find D d1 latency_ns) + 1))"

definition bm_handle_after ::
    "bool \<Rightarrow> 'd latency_map \<Rightarrow> (nat \<Rightarrow> u64) \<Rightarrow> ('m, 'd) BenchmarkOrderBook \<Rightarrow> ('m, 'd) BenchmarkOrderBook" where
  "bm_handle_after perf D ns b =
     (let t1 = ns (readings b);
          b1 = b\<lparr>readings := readings b + 1\<rparr>;
          latency_ns = t1 - BenchmarkOrderBook.t0 b1
      in if perf then b
         else if touched b1
         then b1\<lparr>BenchmarkOrderBook.latency_distribution :=
                count_latency D latency_ns (BenchmarkOrderBook.latency_distribution b1)\<rparr>
         else b1)"

definition bm_handle_change ::
    "BestLvlChange \<Rightarrow> u64 \<Rightarrow> ('m, 'd) BenchmarkOrderBook \<Rightarrow> ('m, 'd) BenchmarkOrderBook" where
  "bm_handle_change ch ts b =
     (let b1 = b\<lparr>touched := True, BenchmarkOrderBook.total_messages := BenchmarkOrderBook.total_messages b + 1\<rparr>
      in if BenchmarkOrderBook.record_prices b1 \<and> BestLvlChange.side ch = Bid \<and> prices b1 \<noteq> [] \<and>
            BestLvlChange.price ch \<noteq> snd (last (prices b1))
         then b1\<lparr>prices := prices b1 @ [(ts, BestLvlChange.price ch)]\<rparr>
         else b1)"

definition bm_SystemEvent :: "SystemEvent \<Rightarrow> ('m, 'd) BenchmarkOrderBook \<Rightarrow> ('m, 'd) BenchmarkOrderBook" where
  "bm_SystemEvent msg b =
     (if event_code msg = CHR ''C'' then
        b\<lparr>touched := True, BenchmarkOrderBook.last_message := True,
          BenchmarkOrderBook.total_messages := BenchmarkOrderBook.total_messages b + 1\<rparr>
      else if event_code msg = CHR ''Q'' then
        b\<lparr>BenchmarkOrderBook.record_prices := True, touched := True\<rparr>
      else if event_code msg = CHR ''M'' then
        b\<lparr>BenchmarkOrderBook.record_prices := False, touched := True\<rparr>
      else b)"

definition bm_StockDirectory ::
    "StockDirectory \<Rightarrow> ('m, 'd) BenchmarkOrderBook \<Rightarrow> ('m, 'd) BenchmarkOrderBook" where
  "bm_StockDirectory msg b =
     (if StockDirectory.stock msg = ''NVDA    '' then
        b\<lparr>target_stock_locate := StockDirectory.stock_locate msg, touched := True,
          BenchmarkOrderBook.total_messages := BenchmarkOrderBook.total_messages b + 1\<rparr>
      else b)"

text \<open>The common shape of the seven order messages.\<close>

definition bm_order_message ::
    "u16 \<Rightarrow> ('m split_book \<Rightarrow> (BestLvlChange \<times> 'm split_book) result) \<Rightarrow> u64 \<Rightarrow>
       ('m, 'd) BenchmarkOrderBook \<Rightarrow> ('m, 'd) BenchmarkOrderBook result" where
  "bm_order_message l operation ts b =
     (if l = target_stock_locate b then
        rbind (operation (order_book b)) (\<lambda>(change, book).
          Inr (bm_handle_change change ts (b\<lparr>order_book := book\<rparr>)))
      else Inr b)"

fun bm_handle ::
    "(u64, Order, 'm) flat_hash_map \<Rightarrow> itch_msg \<Rightarrow> ('m, 'd) BenchmarkOrderBook \<Rightarrow>
       ('m, 'd) BenchmarkOrderBook result" where
  "bm_handle H (Msg_SystemEvent m) b = Inr (bm_SystemEvent m b)"
| "bm_handle H (Msg_StockDirectory m) b = Inr (bm_StockDirectory m b)"
| "bm_handle H (Msg_AddOrderNoMpid m) b =
     bm_order_message (AddOrderNoMpid.stock_locate m)
       (\<lambda>bk. add_order split_ops H bk (AddOrderNoMpid.order_reference_number m)
          (side_of_char (AddOrderNoMpid.buy_sell m)) (AddOrderNoMpid.shares m) (AddOrderNoMpid.price m))
       (AddOrderNoMpid.timestamp m) b"
| "bm_handle H (Msg_AddOrderMpid m) b =
     bm_order_message (AddOrderMpid.stock_locate m)
       (\<lambda>bk. add_order split_ops H bk (AddOrderMpid.order_reference_number m)
          (side_of_char (AddOrderMpid.buy_sell m)) (AddOrderMpid.shares m) (AddOrderMpid.price m))
       (AddOrderMpid.timestamp m) b"
| "bm_handle H (Msg_OrderExecuted m) b =
     bm_order_message (OrderExecuted.stock_locate m)
       (\<lambda>bk. execute_order split_ops H bk (OrderExecuted.order_reference_number m)
          (OrderExecuted.executed_shares m))
       (OrderExecuted.timestamp m) b"
| "bm_handle H (Msg_OrderExecutedPrice m) b =
     bm_order_message (OrderExecutedPrice.stock_locate m)
       (\<lambda>bk. execute_order split_ops H bk (OrderExecutedPrice.order_reference_number m)
          (OrderExecutedPrice.executed_shares m))
       (OrderExecutedPrice.timestamp m) b"
| "bm_handle H (Msg_OrderCancel m) b =
     bm_order_message (OrderCancel.stock_locate m)
       (\<lambda>bk. cancel_order split_ops H bk (OrderCancel.order_reference_number m)
          (OrderCancel.cancelled_shares m))
       (OrderCancel.timestamp m) b"
| "bm_handle H (Msg_OrderDelete m) b =
     bm_order_message (OrderDelete.stock_locate m)
       (\<lambda>bk. delete_order split_ops H bk (OrderDelete.order_reference_number m))
       (OrderDelete.timestamp m) b"
| "bm_handle H (Msg_OrderReplace m) b =
     bm_order_message (OrderReplace.stock_locate m)
       (\<lambda>bk. replace_order split_ops H bk (OrderReplace.order_reference_number m)
          (OrderReplace.new_reference_number m) (OrderReplace.shares m) (OrderReplace.price m))
       (OrderReplace.timestamp m) b"
| "bm_handle H m b = Inr b"

text \<open>The overload set is that of the production handler.\<close>

definition benchmark_ops ::
    "bool \<Rightarrow> (u64, Order, 'm) flat_hash_map \<Rightarrow> 'd latency_map \<Rightarrow> (nat \<Rightarrow> u64) \<Rightarrow>
       ('m, 'd) BenchmarkOrderBook handler_ops" where
  "benchmark_ops perf H D ns =
     \<lparr>has_handle = handler_has, handle = bm_handle H, handle_before = bm_handle_before perf ns,
      handle_after = bm_handle_after perf D ns\<rparr>"

section \<open>\<open>BenchmarkParsing\<close>\<close>

record 'd BenchmarkParsing =
  latency_distribution :: 'd
  total_messages :: u64
  t0 :: u64
  readings :: nat

definition bp_init :: "'d latency_map \<Rightarrow> u64 \<Rightarrow> 'd BenchmarkParsing" where
  "bp_init D uninit =
     \<lparr>BenchmarkParsing.latency_distribution = hm_empty D, total_messages = 0, t0 = uninit, readings = 0\<rparr>"

definition bp_handle_before :: "(nat \<Rightarrow> u64) \<Rightarrow> 'd BenchmarkParsing \<Rightarrow> 'd BenchmarkParsing" where
  "bp_handle_before ns b =
     b\<lparr>BenchmarkParsing.t0 := ns (BenchmarkParsing.readings b),
       BenchmarkParsing.readings := BenchmarkParsing.readings b + 1\<rparr>"

definition bp_handle_after :: "'d latency_map \<Rightarrow> (nat \<Rightarrow> u64) \<Rightarrow> 'd BenchmarkParsing \<Rightarrow> 'd BenchmarkParsing" where
  "bp_handle_after D ns b =
     (let t1 = ns (BenchmarkParsing.readings b);
          latency_ns = t1 - BenchmarkParsing.t0 b
      in b\<lparr>BenchmarkParsing.readings := BenchmarkParsing.readings b + 1,
           BenchmarkParsing.latency_distribution :=
             count_latency D latency_ns (BenchmarkParsing.latency_distribution b),
           BenchmarkParsing.total_messages := BenchmarkParsing.total_messages b + 1\<rparr>)"

text \<open>\<open>consume\<close> only keeps the compiler from dropping the message.\<close>

definition bp_consume :: "itch_msg \<Rightarrow> 'd BenchmarkParsing \<Rightarrow> 'd BenchmarkParsing" where
  "bp_consume m b = b"

definition parsing_ops :: "'d latency_map \<Rightarrow> (nat \<Rightarrow> u64) \<Rightarrow> 'd BenchmarkParsing handler_ops" where
  "parsing_ops D ns =
     \<lparr>has_handle = (\<lambda>_. True), handle = (\<lambda>m b. Inr (bp_consume m b)), handle_before = bp_handle_before ns,
      handle_after = bp_handle_after D ns\<rparr>"

section \<open>Counting latencies\<close>

text \<open>The map counts the latencies \<open>ls\<close>.\<close>

definition tallies :: "'d latency_map \<Rightarrow> 'd \<Rightarrow> u64 list \<Rightarrow> bool" where
  "tallies D d ls \<longleftrightarrow>
     (\<forall>n. hm_find D d n = (if n \<in> set ls then Some (of_nat (count_list ls n)) else None))"

lemma tallies_empty: "flat_hash_map_laws D \<Longrightarrow> tallies D (hm_empty D) []"
  by (simp add: tallies_def flat_hash_map_lawsD(1))

lemma count_latency_tallies:
  assumes D: "flat_hash_map_laws D" and t: "tallies D d ls"
  shows "tallies D (count_latency D x d) (ls @ [x])"
proof -
  have find: "hm_find D d n = (if n \<in> set ls then Some (of_nat (count_list ls n)) else None)" for n
    using t by (simp add: tallies_def)
  have zero: "n \<notin> set ls \<Longrightarrow> count_list ls n = 0" for n by (simp add: count_list_0_iff)
  let ?d1 = "hm_insert D d x 0"
  have d1: "hm_find D ?d1 n = (if n = x \<or> n \<in> set ls then Some (of_nat (count_list ls n)) else None)" for n
    using flat_hash_map_lawsD(2,3) [OF D, of d x 0] find zero by (cases "x \<in> set ls") auto
  then have "hm_find D (count_latency D x d) = (hm_find D ?d1)(x \<mapsto> of_nat (count_list ls x) + 1)"
    using flat_hash_map_lawsD(4) [OF D, of ?d1 x] by (simp add: count_latency_def Let_def)
  then show ?thesis by (simp add: tallies_def d1)
qed

lemma parsing_counts:
  assumes D: "flat_hash_map_laws D"
  shows "tallies D (BenchmarkParsing.latency_distribution b) ls \<Longrightarrow> 
    \<exists>b'. handle_msgs (parsing_ops D ns) ms b = Inr b' \<and>
      BenchmarkParsing.total_messages b' = BenchmarkParsing.total_messages b + of_nat (length ms) \<and>
      tallies D (BenchmarkParsing.latency_distribution b')
        (ls @ map (\<lambda>i. ns (BenchmarkParsing.readings b + 2 * i + 1) - ns (BenchmarkParsing.readings b + 2 * i))
          [0..<length ms])"
proof (induction ms arbitrary: b ls)
  case (Cons m ms)
  let ?r = "BenchmarkParsing.readings b"
  let ?b = "bp_handle_after D ns (bp_handle_before ns b)"
  have step: "handle_msg (parsing_ops D ns) m b = Inr ?b"
    by (simp add: handle_msg_def parsing_ops_def bp_consume_def)
  have b: "BenchmarkParsing.readings ?b = ?r + 2"
    "BenchmarkParsing.total_messages ?b = BenchmarkParsing.total_messages b + 1"
    "BenchmarkParsing.latency_distribution ?b =
       count_latency D (ns (?r + 1) - ns ?r) (BenchmarkParsing.latency_distribution b)"
    by (simp_all add: bp_handle_after_def bp_handle_before_def Let_def)
  have "tallies D (BenchmarkParsing.latency_distribution ?b) (ls @ [ns (?r + 1) - ns ?r])"
    unfolding b(3) by (rule count_latency_tallies [OF D Cons.prems])
  from Cons.IH [OF this] show ?case
    by (simp add: step b(1,2) upt_conv_Cons map_Suc_upt [symmetric] comp_def add.assoc del: upt_Suc)
qed simp

section \<open>What reaches the book\<close>

text \<open>
  The operations for the stock: those for the locate of the latest directory entry of NVDA, and
  before the first one those for the given locate.
\<close>

definition retarget :: "itch_msg \<Rightarrow> u16 \<Rightarrow> u16" where
  "retarget m l =
     (case m of
        Msg_StockDirectory d \<Rightarrow> if StockDirectory.stock d = ''NVDA    '' then StockDirectory.stock_locate d else l
      | _ \<Rightarrow> l)"

fun ops_for :: "u16 \<Rightarrow> itch_msg list \<Rightarrow> book_op list" where
  "ops_for l [] = []"
| "ops_for l (m # ms) =
     (case order_op m of
        None \<Rightarrow> ops_for (retarget m l) ms
      | Some (l', op) \<Rightarrow> if l' = l then op # ops_for l ms else ops_for l ms)"

lemma bm_hooks [simp]:
  "target_stock_locate (bm_handle_before perf ns b) = target_stock_locate b"
  "order_book (bm_handle_before perf ns b) = order_book b"
  "target_stock_locate (bm_handle_after perf D ns b) = target_stock_locate b"
  "order_book (bm_handle_after perf D ns b) = order_book b"
  "target_stock_locate (bm_handle_change ch ts b) = target_stock_locate b"
  "order_book (bm_handle_change ch ts b) = order_book b"
  by (simp_all add: bm_handle_before_def bm_handle_after_def bm_handle_change_def Let_def)

text \<open>A message that is an order goes to the book, if it is for the target.\<close>

lemma bm_handle_order:
  assumes "order_op m = Some (l, op)"
  shows "\<exists>ts. bm_handle H m b = bm_order_message l (book_step split_ops H op) ts b"
  using assms by (cases m) (auto simp: book_step_eta)

text \<open>One message, seen from the book: nothing, a new target, or an operation.\<close>

lemma bm_msg_order:
  assumes "order_op m = Some (l, op)"
  shows "(if l = target_stock_locate b
     then map_sum id snd (book_step split_ops H op (order_book b)) else Inr (order_book b)) =
     map_sum id order_book (handle_msg (benchmark_ops perf H D ns) m b)"
    and "handle_msg (benchmark_ops perf H D ns) m b = Inr b' \<Longrightarrow> target_stock_locate b' = target_stock_locate b"
proof -
  obtain ts where ts: "bm_handle H m (bm_handle_before perf ns b) =
      bm_order_message l (book_step split_ops H op) ts (bm_handle_before perf ns b)"
    using bm_handle_order [OF assms] by blast
  note msg = handle_msg_def benchmark_ops_def handler_handle_order(1) [OF assms] ts bm_order_message_def
  show "(if l = target_stock_locate b
     then map_sum id snd (book_step split_ops H op (order_book b)) else Inr (order_book b)) =
     map_sum id order_book (handle_msg (benchmark_ops perf H D ns) m b)"
    by (cases "book_step split_ops H op (order_book b)") (auto simp: msg)
  show "handle_msg (benchmark_ops perf H D ns) m b = Inr b' \<Longrightarrow> target_stock_locate b' = target_stock_locate b"
    by (auto simp: msg rbind_eq_Inr split: if_splits)
qed

lemma bm_msg_other:
  assumes "order_op m = None"
  shows "\<exists>b'. handle_msg (benchmark_ops perf H D ns) m b = Inr b' \<and> order_book b' = order_book b \<and>
    target_stock_locate b' = retarget m (target_stock_locate b)"
  using assms
  by (cases m) (simp_all add: handle_msg_def benchmark_ops_def bm_SystemEvent_def bm_StockDirectory_def
      retarget_def)

lemma bm_msgs_order:
  assumes op: "order_op m = Some (l, op)"
    and IH: "\<And>b. map_sum id order_book (handle_msgs (benchmark_ops perf H D ns) ms b) =
     book_run split_ops H (ops_for (target_stock_locate b) ms) (order_book b)"
  shows "map_sum id order_book (handle_msgs (benchmark_ops perf H D ns) (m # ms) b) =
     book_run split_ops H (ops_for (target_stock_locate b) (m # ms)) (order_book b)"
proof -
  note step = bm_msg_order [OF op, where perf = perf and H = H and D = D and ns = ns and b = b]
  show ?thesis
  proof (cases "handle_msg (benchmark_ops perf H D ns) m b")
    case (Inl e)
    have "l = target_stock_locate b" using step(1) unfolding Inl by (auto split: if_splits)
    moreover from this have "book_step split_ops H op (order_book b) = Inl e"
      using step(1) unfolding Inl by (cases "book_step split_ops H op (order_book b)") auto
    ultimately show ?thesis by (simp add: Inl op)
  next
    case (Inr b')
    have t: "target_stock_locate b' = target_stock_locate b" by (rule step(2) [OF Inr])
    show ?thesis
    proof (cases "l = target_stock_locate b")
      case True
      then obtain ch where "book_step split_ops H op (order_book b) = Inr (ch, order_book b')"
        using step(1) unfolding Inr by (cases "book_step split_ops H op (order_book b)") auto
      with True t IH [of b'] show ?thesis by (simp add: Inr op)
    next
      case False
      then have "order_book b' = order_book b" using step(1) unfolding Inr by simp
      with False t IH [of b'] show ?thesis by (simp add: Inr op)
    qed
  qed
qed

section \<open>Properties\<close>

text \<open>
  C39. The benchmark's book is the book of one stock: after any messages at all it is what
  \<open>OrderBook\<close> makes of the operations for the locate of NVDA, in order, and the first of them that
  aborts ends the run with its message. Before the first directory entry of NVDA the locate is 65535,
  the value \<open>-1\<close> is stored as, and orders for that locate go into the book.
\<close>

theorem benchmark_book_equivalent:
  "map_sum id order_book (handle_msgs (benchmark_ops perf H D ns) ms b) =
     book_run split_ops H (ops_for (target_stock_locate b) ms) (order_book b) \<and>
   target_stock_locate (bm_init perf H D uninit) = 65535"
proof (intro conjI)
  show "map_sum id order_book (handle_msgs (benchmark_ops perf H D ns) ms b) =
     book_run split_ops H (ops_for (target_stock_locate b) ms) (order_book b)"
  proof (induction ms arbitrary: b)
    case (Cons m ms)
    show ?case
    proof (cases "order_op m")
      case None
      then obtain b' where "handle_msg (benchmark_ops perf H D ns) m b = Inr b'" "order_book b' = order_book b"
        "target_stock_locate b' = retarget m (target_stock_locate b)"
        using bm_msg_other by blast
      with None Cons.IH [of b'] show ?thesis by simp
    next
      case (Some lop)
      with bm_msgs_order [OF _ Cons.IH] show ?thesis by (cases lop) blast
    qed
  qed simp
  show "target_stock_locate (bm_init perf H D uninit) = 65535" by (simp add: bm_init_def)
qed

end
