(* ===== verification/Ingestor.thy ===== *)
theory Ingestor
  imports Handler_Correct
begin

text \<open>
  \<open>include/ingestor.hpp\<close>: the receive loop. It polls the network card for bursts of packets, strips
  the Ethernet, IPv4, UDP and MoldUDP64 headers, and gives the payload to the parser with the
  handler, until the handler says stop. The bursts \<open>rte_eth_rx_burst\<close> delivers and the readings
  of the timer are parameters, one per call.
\<close>

section \<open>The state\<close>

text \<open>
  Of an \<open>rte_mbuf\<close>, the fields that are used; \<open>buf\<close> is the buffer from \<open>rte_pktmbuf_mtod\<close> to its
  end, which is longer than the packet. \<open>console\<close> is what has been printed.
\<close>

record rte_mbuf =
  nb_segs :: u16
  data_len :: u16
  pkt_len :: u32
  buf :: "byte list"

datatype console_line =
    Nonlinear u16 u16 u32
  | Log_Progress u64 u64 u64

record 'h Ingestor =
  handler :: 'h
  last_print :: u64
  total_size :: u64
  msgs :: u64
  pkts :: u64
  bursts_read :: nat
  console :: "console_line list"

definition ingest_init :: "(nat \<Rightarrow> u64) \<Rightarrow> 'h \<Rightarrow> 'h Ingestor" where
  "ingest_init timer h =
     \<lparr>handler = h, last_print = timer 0, total_size = 0, msgs = 0, pkts = 0, bursts_read = 0,
      console = []\<rparr>"

definition log_progress :: "u64 \<Rightarrow> u64 \<Rightarrow> u64 \<Rightarrow> 'h Ingestor \<Rightarrow> 'h Ingestor" where
  "log_progress received packets messages s =
     s\<lparr>console := console s @ [Log_Progress received packets messages]\<rparr>"

section \<open>One packet\<close>

definition sizeof_ether_hdr :: nat where "sizeof_ether_hdr = 14"
definition sizeof_ipv4_hdr :: nat where "sizeof_ipv4_hdr = 20"
definition sizeof_udp_hdr :: nat where "sizeof_udp_hdr = 8"

text \<open>The length is at offset 4 of the UDP header, after the two ports.\<close>

definition dgram_len :: nat where "dgram_len = 4"

text \<open>
  \<open>itch_len\<close> is a \<open>size_t\<close> and wraps around below 28. The parser's loop compares \<open>end - src\<close>, the
  same number as a signed \<open>ptrdiff_t\<close>: a wrapped size is negative there and the loop does not start.
\<close>

definition itch_len :: "u16 \<Rightarrow> u64" where
  "itch_len n = ucast n - of_nat sizeof_udp_hdr - 20"

definition end_minus_src :: "u64 \<Rightarrow> nat" where
  "end_minus_src len = nat (sint len)"

definition ingest_packet :: "'h handler_ops \<Rightarrow> rte_mbuf \<Rightarrow> 'h Ingestor \<Rightarrow> 'h Ingestor result" where
  "ingest_packet ops m s =
     (let s1 = (if nb_segs m \<noteq> 1
                then s\<lparr>console := console s @ [Nonlinear (nb_segs m) (data_len m) (pkt_len m)]\<rparr> else s);
          udp = sizeof_ether_hdr + sizeof_ipv4_hdr;
          p = udp + sizeof_udp_hdr + 10
      in rbind (load_be_u64 (buf m) p) (\<lambda>seq.
         rbind (load_be_u16 (buf m) (p + 8)) (\<lambda>msg_count.
         rbind (load_be_u16 (buf m) (udp + dgram_len)) (\<lambda>n.
         let s2 = s1\<lparr>msgs := msgs s1 + ucast msg_count\<rparr>;
             len = itch_len n
         in rbind (parse ops (buf m) (p + 10) (end_minus_src len) (handler s2)) (\<lambda>h.
              Inr (s2\<lparr>handler := h, total_size := total_size s2 + len\<rparr>))))))"

section \<open>Bursts and the loop\<close>

fun ingest_packets :: "'h handler_ops \<Rightarrow> rte_mbuf list \<Rightarrow> 'h Ingestor \<Rightarrow> 'h Ingestor result" where
  "ingest_packets ops [] s = Inr s"
| "ingest_packets ops (m # ms) s = rbind (ingest_packet ops m s) (ingest_packets ops ms)"

definition ingest_burst ::
    "'h handler_ops \<Rightarrow> (nat \<Rightarrow> rte_mbuf list) \<Rightarrow> (nat \<Rightarrow> u64) \<Rightarrow> u64 \<Rightarrow> 'h Ingestor \<Rightarrow> 'h Ingestor result" where
  "ingest_burst ops rx_burst timer hz s =
     (let bufs = rx_burst (bursts_read s);
          s1 = s\<lparr>pkts := pkts s + of_nat (length bufs), bursts_read := bursts_read s + 1\<rparr>
      in rbind (ingest_packets ops bufs s1) (\<lambda>s2.
           let now = timer (bursts_read s2)
           in Inr (if now - last_print s2 > hz
                   then (log_progress (total_size s2) (pkts s2) (msgs s2) s2)
                          \<lparr>pkts := 0, msgs := 0, last_print := now\<rparr>
                   else s2)))"

text \<open>The loop may poll for ever; \<open>None\<close> stands for that.\<close>

partial_function (option) ingest_messages ::
    "'h handler_ops \<Rightarrow> ('h \<Rightarrow> bool) \<Rightarrow> (nat \<Rightarrow> rte_mbuf list) \<Rightarrow> (nat \<Rightarrow> u64) \<Rightarrow> u64 \<Rightarrow> 'h Ingestor \<Rightarrow>
       'h Ingestor result option" where
  "ingest_messages ops stop rx_burst timer hz s =
     (if stop (handler s) then Some (Inr s)
      else case ingest_burst ops rx_burst timer hz s of
             Inl e \<Rightarrow> Some (Inl e)
           | Inr s' \<Rightarrow> ingest_messages ops stop rx_burst timer hz s')"

declare ingest_messages.simps [code]

section \<open>A packet that carries messages\<close>

text \<open>
  The packet an exchange sends for the messages \<open>ms\<close>: 38 bytes of headers, the length, 22 bytes to
  the end of the MoldUDP64 header, the frames, what is left of the datagram and of the buffer.
\<close>

definition carries :: "rte_mbuf \<Rightarrow> itch_msg list \<Rightarrow> bool" where
  "carries m ms \<longleftrightarrow>
     (\<exists>headers mold rest post.
        length headers = 38 \<and> length mold = 22 \<and> incomplete rest \<and>
        28 + length (concat (map frame ms) @ rest) < 2 ^ 16 \<and>
        buf m = headers @ be_bytes 2 (of_nat (28 + length (concat (map frame ms) @ rest)) :: u16) @ mold @
          concat (map frame ms) @ rest @ post)"

text \<open>What a packet leaves of the state besides the handler.\<close>

definition only_counters :: "'h Ingestor \<Rightarrow> 'h Ingestor \<Rightarrow> bool" where
  "only_counters s s' \<longleftrightarrow> last_print s' = last_print s \<and> bursts_read s' = bursts_read s"

lemma only_counters_refl [simp]: "only_counters s s"
  by (simp add: only_counters_def)

lemma only_counters_trans: "only_counters s t \<Longrightarrow> only_counters t u \<Longrightarrow> only_counters s u"
  by (simp add: only_counters_def)

text \<open>The size handed to the parser, for every length field.\<close>

lemma end_minus_src_of_nat: "n < 2 ^ 63 \<Longrightarrow> end_minus_src (of_nat n) = n"
  by (simp add: end_minus_src_def signed_of_nat signed_take_bit_int_eq_self)

lemma end_minus_src_neg: "n < 2 ^ 63 \<Longrightarrow> end_minus_src (- of_nat n) = 0"
proof -
  assume "n < 2 ^ 63"
  then have "sint (word_of_int (- int n) :: u64) = - int n"
    by (simp add: signed_of_int signed_take_bit_int_eq_self del: of_int_minus)
  then show ?thesis by (simp add: end_minus_src_def)
qed

lemma itch_len_eq:
  "itch_len n = (if unat n < 28 then - of_nat (28 - unat n) else of_nat (unat n - 28))"
  by (simp add: itch_len_def sizeof_udp_hdr_def of_nat_diff unsigned_ucast_eq)

lemma end_minus_src_itch_len: "end_minus_src (itch_len n) = unat n - 28"
proof -
  have "unat n < 2 ^ 16" using unsigned_less [of n, where 'a = nat] by simp
  then show ?thesis
    by (simp add: itch_len_eq end_minus_src_of_nat end_minus_src_neg del: of_nat_diff)
qed

text \<open>One packet, whatever it holds: the reads are in bounds, the parser gets what the length says.\<close>

lemma loads_in_headers:
  assumes "62 \<le> length b"
  shows "\<exists>seq. load_be_u64 b 52 = Inr seq" and "\<exists>count. load_be_u16 b 60 = Inr count"
    and "\<exists>n. load_be_u16 b 38 = Inr n"
  using assms by (simp_all add: load_be_u64_def load_be_u16_def rd_def)

lemma ingest_packet_eq:
  assumes len: "62 \<le> length (buf m)" and n: "load_be_u16 (buf m) 38 = Inr n"
  shows "\<exists>s'. handler s' = handler s \<and> only_counters s s' \<and> total_size s' = total_size s \<and>
    ingest_packet ops m s = rbind (parse ops (buf m) 62 (unat n - 28) (handler s)) (\<lambda>h.
      Inr (s'\<lparr>handler := h, total_size := total_size s + itch_len n\<rparr>))"
proof -
  obtain seq count where "load_be_u64 (buf m) 52 = Inr seq" "load_be_u16 (buf m) 60 = Inr count"
    using loads_in_headers [OF len] by blast
  with n show ?thesis
    by (intro exI [of _ "(if nb_segs m \<noteq> 1
                then s\<lparr>console := console s @ [Nonlinear (nb_segs m) (data_len m) (pkt_len m)]\<rparr> else s)
           \<lparr>msgs := msgs s + ucast count\<rparr>"])
      (simp add: ingest_packet_def Let_def sizeof_ether_hdr_def sizeof_ipv4_hdr_def sizeof_udp_hdr_def
        dgram_len_def end_minus_src_itch_len only_counters_def)
qed

lemma ingest_packet_carries:
  assumes m: "carries m ms" and ok: "list_all msg_ok ms"
    and h: "handle_msgs ops (map as_loaded ms) (handler s) = Inr h"
  shows "\<exists>s'. ingest_packet ops m s = Inr s' \<and> handler s' = h \<and> only_counters s s'"
proof -
  let ?fs = "concat (map frame ms)"
  obtain headers mold rest post where p: "length headers = 38" "length mold = 22" "incomplete rest"
    "28 + length (?fs @ rest) < 2 ^ 16"
    "buf m = headers @ be_bytes 2 (of_nat (28 + length (?fs @ rest)) :: u16) @ mold @ ?fs @ rest @ post"
    using m unfolding carries_def by blast
  let ?n = "of_nat (28 + length (?fs @ rest)) :: u16"
  let ?pre = "headers @ be_bytes 2 ?n @ mold"
  have pre: "length ?pre = 62" using p(1,2) by simp
  have len: "62 \<le> length (buf m)" using p(1,2) unfolding p(5) by simp
  have n: "load_be_u16 (buf m) 38 = Inr ?n"
    unfolding p(5) p(1) [symmetric] by simp
  have size: "unat ?n - 28 = length ?fs + length rest"
    using p(4) by (simp add: unat_of_nat take_bit_nat_eq_self del: of_nat_add)
  have "parse ops (?pre @ ?fs @ rest @ post) (length ?pre) (length ?fs + length rest) (handler s) = Inr h"
    using parse_loop_frames [OF ok p(3), of ops ?pre post] h by (simp only: parse_def add.assoc)
  then have "parse ops (buf m) 62 (unat ?n - 28) (handler s) = Inr h"
    unfolding size pre using p(5) by simp
  with ingest_packet_eq [OF len n, of s ops] show ?thesis
    by (auto simp: only_counters_def)
qed

section \<open>Bursts that carry messages\<close>

lemma handle_msgs_append:
  "handle_msgs ops (ms @ ns) h = rbind (handle_msgs ops ms h) (handle_msgs ops ns)"
proof (induction ms arbitrary: h)
  case (Cons m ms)
  then have "handle_msgs ops (ms @ ns) = (\<lambda>h. rbind (handle_msgs ops ms h) (handle_msgs ops ns))"
    by blast
  then show ?case by (simp add: rbind_assoc)
qed simp

lemma ingest_packets_carries:
  assumes "list_all2 carries bufs mss" and "list_all msg_ok (concat mss)"
    and "handle_msgs ops (map as_loaded (concat mss)) (handler s) = Inr h"
  shows "\<exists>s'. ingest_packets ops bufs s = Inr s' \<and> handler s' = h \<and> only_counters s s'"
  using assms
proof (induction bufs mss arbitrary: s rule: list_all2_induct)
  case (Cons m bufs ms mss)
  then obtain h1 where h1: "handle_msgs ops (map as_loaded ms) (handler s) = Inr h1"
    "handle_msgs ops (map as_loaded (concat mss)) h1 = Inr h"
    by (auto simp: handle_msgs_append rbind_eq_Inr)
  with Cons.hyps Cons.prems obtain s1 where s1: "ingest_packet ops m s = Inr s1" "handler s1 = h1"
    "only_counters s s1"
    using ingest_packet_carries [of m ms ops s h1] by auto
  with Cons.IH [of s1] Cons.prems h1(2) obtain s2 where "ingest_packets ops bufs s1 = Inr s2"
    "handler s2 = h" "only_counters s1 s2" by auto
  with s1 show ?case by (auto intro: only_counters_trans)
qed simp

lemma ingest_burst_carries:
  assumes "list_all2 carries (rx_burst (bursts_read s)) mss" and "list_all msg_ok (concat mss)"
    and "handle_msgs ops (map as_loaded (concat mss)) (handler s) = Inr h"
  shows "\<exists>s'. ingest_burst ops rx_burst timer hz s = Inr s' \<and> handler s' = h \<and>
    bursts_read s' = Suc (bursts_read s)"
proof -
  let ?s1 = "s\<lparr>pkts := pkts s + of_nat (length (rx_burst (bursts_read s))), bursts_read := bursts_read s + 1\<rparr>"
  from assms(3) have "handle_msgs ops (map as_loaded (concat mss)) (handler ?s1) = Inr h" by simp
  from ingest_packets_carries [OF assms(1,2) this] obtain s2
    where "ingest_packets ops (rx_burst (bursts_read s)) ?s1 = Inr s2" "handler s2 = h"
      "only_counters ?s1 s2" by blast
  then show ?thesis
    by (auto simp: ingest_burst_def Let_def only_counters_def log_progress_def)
qed

text \<open>
  The loop over a day: it runs through the bursts as long as the handler goes on, and returns after
  the first one that makes it stop.
\<close>

definition goes_on :: "'h handler_ops \<Rightarrow> ('h \<Rightarrow> bool) \<Rightarrow> itch_msg list list list \<Rightarrow> 'h \<Rightarrow> bool" where
  "goes_on ops stop day h \<longleftrightarrow>
     (\<forall>k < length day. \<forall>h'. handle_msgs ops (map as_loaded (concat (concat (take k day)))) h = Inr h' \<longrightarrow>
        \<not> stop h')"

lemma goes_on_Nil [simp]: "goes_on ops stop [] h"
  by (simp add: goes_on_def)

lemma goes_on_Cons:
  assumes "goes_on ops stop (mss # day) h"
  shows "\<not> stop h"
    and "handle_msgs ops (map as_loaded (concat mss)) h = Inr h1 \<Longrightarrow> goes_on ops stop day h1"
proof -
  show "\<not> stop h" using assms unfolding goes_on_def by (force dest: spec [of _ 0])
  assume h1: "handle_msgs ops (map as_loaded (concat mss)) h = Inr h1"
  have "\<not> stop h'" if "k < length day"
    and "handle_msgs ops (map as_loaded (concat (concat (take k day)))) h1 = Inr h'" for k h'
    using assms [unfolded goes_on_def, THEN spec, of "Suc k"] h1 that by (simp add: handle_msgs_append)
  then show "goes_on ops stop day h1" unfolding goes_on_def by blast
qed

lemma ingest_messages_returns:
  assumes "\<And>k. k < length day \<Longrightarrow> list_all2 carries (rx_burst (bursts_read s + k)) (day ! k)"
    and "list_all msg_ok (concat (concat day))" and "goes_on ops stop day (handler s)"
    and "handle_msgs ops (map as_loaded (concat (concat day))) (handler s) = Inr h" and "stop h"
  shows "\<exists>s'. ingest_messages ops stop rx_burst timer hz s = Some (Inr s') \<and> handler s' = h \<and>
    bursts_read s' = bursts_read s + length day"
  using assms
proof (induction day arbitrary: s)
  case Nil
  then show ?case by (subst ingest_messages.simps) simp
next
  case (Cons mss day)
  from Cons.prems(4) obtain h1 where h1: "handle_msgs ops (map as_loaded (concat mss)) (handler s) = Inr h1"
    "handle_msgs ops (map as_loaded (concat (concat day))) h1 = Inr h"
    by (auto simp: handle_msgs_append rbind_eq_Inr)
  with Cons.prems(1) [of 0] Cons.prems(2) obtain s1 where s1:
    "ingest_burst ops rx_burst timer hz s = Inr s1" "handler s1 = h1" "bursts_read s1 = Suc (bursts_read s)"
    using ingest_burst_carries [of rx_burst s mss ops h1 timer hz] by auto
  have "\<exists>s'. ingest_messages ops stop rx_burst timer hz s1 = Some (Inr s') \<and> handler s' = h \<and>
      bursts_read s' = bursts_read s1 + length day"
  proof (rule Cons.IH)
    show "list_all2 carries (rx_burst (bursts_read s1 + k)) (day ! k)" if "k < length day" for k
      using Cons.prems(1) [of "Suc k"] that s1(3) by simp
  qed (use Cons.prems(2,5) goes_on_Cons(2) [OF Cons.prems(3) h1(1)] h1(2) s1(2) in auto)
  moreover have "\<not> stop (handler s)" by (rule goes_on_Cons(1) [OF Cons.prems(3)])
  ultimately show ?case using s1 by (subst ingest_messages.simps) simp
qed

section \<open>The production handler stops at the end event\<close>

fun is_end :: "itch_msg \<Rightarrow> bool" where
  "is_end (Msg_SystemEvent e) \<longleftrightarrow> event_code e = CHR ''C''"
| "is_end m \<longleftrightarrow> False"

lemma is_end_as_loaded [simp]: "is_end (as_loaded m) = is_end m"
  by (cases m) simp_all

lemma queue_push_stop [simp]: "queue_push p m h = Inr h' \<Longrightarrow> last_message h' = last_message h"
  by (auto simp: queue_push_def split: option.splits)

lemma handle_change_stop: "handle_change ch p h = Inr h' \<Longrightarrow> last_message h' = last_message h"
  by (auto simp: handle_change_def split: if_splits)

lemma book_message_stop:
  assumes "book_message l operation after h = Inr h'" and "\<And>bk h. last_message (after bk h) = last_message h"
  shows "last_message h' = last_message h"
  using assms(1)
  by (auto simp: book_message_def get_book_queue_def rbind_eq_Inr assms(2) dest!: handle_change_stop
      split: option.splits prod.splits)

lemma stop_all_stop: "stop_all h = Inr h' \<Longrightarrow> last_message h' = last_message h"
  by (auto simp: stop_all_eq)

lemma handler_handle_stop:
  "handler_handle H m h = Inr h' \<Longrightarrow> last_message h' = (last_message h \<or> is_end m)"
  by (cases m)
    (auto simp: handle_SystemEvent_def handle_StockDirectory_def handle_AddOrderNoMpid_def
      handle_AddOrderMpid_def handle_OrderExecuted_def handle_OrderExecutedPrice_def handle_OrderCancel_def
      handle_OrderDelete_def handle_OrderReplace_def no_more_def update_max_def Let_def
      dest!: book_message_stop stop_all_stop split: if_splits option.splits)

lemma handle_msg_stop:
  assumes "handle_msg (production_ops H rdtscp) m h = Inr h'"
  shows "last_message h' = (last_message h \<or> is_end m)"
proof (cases "handler_has (msg_type m)")
  case True
  with assms have "handler_handle H m (handle_before_msg rdtscp h) = Inr h'"
    by (simp add: handle_msg_def production_ops_def)
  then show ?thesis by (auto simp: handle_before_msg_def dest!: handler_handle_stop)
next
  case False
  with assms have "h' = handle_before_msg rdtscp h" and "\<not> is_end m"
    by (cases m; simp add: handle_msg_def production_ops_def)+
  then show ?thesis by (simp add: handle_before_msg_def)
qed

lemma handle_msgs_stop:
  "handle_msgs (production_ops H rdtscp) ms h = Inr h' \<Longrightarrow>
   last_message h' = (last_message h \<or> list_ex is_end ms)"
  by (induction ms arbitrary: h) (auto simp: rbind_eq_Inr dest!: handle_msg_stop)

section \<open>A day\<close>

definition carried :: "(nat \<Rightarrow> rte_mbuf list) \<Rightarrow> itch_msg list list list \<Rightarrow> bool" where
  "carried rx_burst day \<longleftrightarrow> (\<forall>k < length day. list_all2 carries (rx_burst k) (day ! k))"

text \<open>The end event is the last message of the day, and in its last burst.\<close>

definition ends_day :: "itch_msg list list list \<Rightarrow> bool" where
  "ends_day day \<longleftrightarrow>
     day \<noteq> [] \<and> concat (last day) \<noteq> [] \<and> is_end (last (concat (concat day))) \<and>
     \<not> list_ex is_end (butlast (concat (concat day)))"

lemma ends_day_split:
  assumes "ends_day day"
  shows "\<exists>ms e. concat (concat day) = ms @ [Msg_SystemEvent (e\<lparr>event_code := CHR ''C''\<rparr>)] \<and>
    \<not> list_ex is_end ms"
proof -
  let ?ms = "concat (concat day)"
  have "?ms \<noteq> []" using assms last_in_set by (fastforce simp: ends_day_def)
  then have "?ms = butlast ?ms @ [last ?ms]" by simp
  moreover obtain e where "last ?ms = Msg_SystemEvent e" "event_code e = CHR ''C''"
    using assms by (cases "last ?ms") (auto simp: ends_day_def)
  moreover from this(2) have "e = e\<lparr>event_code := CHR ''C''\<rparr>" by simp
  ultimately show ?thesis using assms unfolding ends_day_def by metis
qed

lemma set_butlast_append: "zs \<noteq> [] \<Longrightarrow> set ys \<subseteq> set (butlast (ys @ zs))"
  by (simp add: butlast_append)

lemma ends_day_goes_on:
  assumes "ends_day day" and "\<not> last_message h"
  shows "goes_on (production_ops H rdtscp) should_stop day h"
  unfolding goes_on_def should_stop_def
proof (intro allI impI)
  fix k h'
  assume k: "k < length day"
    and h': "handle_msgs (production_ops H rdtscp) (map as_loaded (concat (concat (take k day)))) h = Inr h'"
  have "concat (concat (drop k day)) \<noteq> []"
    using assms(1) k last_in_set [of "drop k day"] by (fastforce simp: ends_day_def)
  moreover have "concat (concat day) = concat (concat (take k day)) @ concat (concat (drop k day))"
    by (metis append_take_drop_id concat_append)
  ultimately have "set (concat (concat (take k day))) \<subseteq> set (butlast (concat (concat day)))"
    using set_butlast_append by metis
  then have "\<not> list_ex is_end (concat (concat (take k day)))"
    using assms(1) unfolding ends_day_def list_ex_iff by blast
  with handle_msgs_stop [OF h'] assms(2) show "\<not> last_message h'"
    by (simp add: list_ex_iff)
qed

text \<open>Handling the day's messages, the end event included.\<close>

lemma handle_end_msg:
  assumes inv: "handler_inv H h logs" and room: "\<And>i. length (logs i) + 65536 < 2 ^ 64"
  shows "\<exists>h' logs'. handle_msg (production_ops H rdtscp) (Msg_SystemEvent (e\<lparr>event_code := CHR ''C''\<rparr>)) h =
      Inr h' \<and> handler_inv H h' logs' \<and> market_of H h' = market_of H h \<and> stopped h' logs'"
proof -
  let ?h = "(handle_before_msg rdtscp h)\<lparr>last_message := True\<rparr>"
  have "handler_inv H ?h logs" using inv by (simp add: handle_before_msg_def)
  from stop_all_stops [OF this room] show ?thesis
    by (auto simp: handle_msg_def production_ops_def handle_SystemEvent_def handle_before_msg_def)
qed

lemma handle_day_ok:
  fixes H :: "(u64, Order, 'm) flat_hash_map"
  assumes H: "flat_hash_map_laws H" and cfgs: "\<forall>cfg \<in> set cfgs. queue cfg \<noteq> None"
    and len: "length ms < 2 ^ 47"
    and v: "msgs_valid H rdtscp ms (handler_init cfgs (\<lambda>_. spmc_init zero))"
    and e: "ms = ns @ [Msg_SystemEvent (e\<lparr>event_code := CHR ''C''\<rparr>)]"
  shows "\<exists>h logs. handle_msgs (production_ops H rdtscp) ms (handler_init cfgs (\<lambda>_. spmc_init zero)) = Inr h \<and>
    market_of H h = fold (market_step (configured cfgs)) ms Map.empty \<and> best_known H h logs \<and>
    stopped h logs"
proof -
  let ?h0 = "handler_init cfgs (\<lambda>_. spmc_init zero) :: 'm Handler"
  have "msgs_valid H rdtscp ns h" if "msgs_valid H rdtscp (ns @ ns') h" for h :: "'m Handler" and ns'
    using that by (induction ns arbitrary: h) (auto split: sum.splits)
  with v e have v': "msgs_valid H rdtscp ns ?h0" by blast
  have room: "length ([] :: StrategyMsg list) + 65536 * length ns < 2 ^ 64" using len e by simp
  from handle_msgs_ok [OF H handler_init_inv [OF cfgs] v' room] obtain h logs
    where h: "handle_msgs (production_ops H rdtscp) ns ?h0 = Inr h" "handler_inv H h logs"
      "market_of H h = fold (market_step (configured cfgs)) ns Map.empty"
      "\<forall>i. length (logs i) \<le> 65536 * length ns"
    unfolding handler_init_facts by auto
  have "length (logs i) + 65536 < 2 ^ 64" for i
    using h(4) [THEN spec, of i] len e by simp
  from handle_end_msg [OF h(2) this, of rdtscp e] obtain h' logs'
    where h': "handle_msg (production_ops H rdtscp) (Msg_SystemEvent (e\<lparr>event_code := CHR ''C''\<rparr>)) h = Inr h'"
      "handler_inv H h' logs'" "market_of H h' = market_of H h" "stopped h' logs'" by blast
  have "handle_msgs (production_ops H rdtscp) ms ?h0 = Inr h'"
    using h(1) h'(1) e by (simp add: handle_msgs_append)
  moreover have "market_of H h' = fold (market_step (configured cfgs)) ms Map.empty"
    using h(3) h'(3) e by (simp add: market_step_def)
  ultimately show ?thesis using h'(4) best_known_inv [OF h'(2)] by blast
qed

text \<open>The day through the loop.\<close>

lemma ingest_day:
  fixes H :: "(u64, Order, 'm) flat_hash_map"
  assumes "flat_hash_map_laws H" and "\<forall>cfg \<in> set cfgs. queue cfg \<noteq> None"
    and "carried rx_burst day" and "ends_day day" and "list_all msg_ok (concat (concat day))"
    and "length (concat (concat day)) < 2 ^ 47"
    and "msgs_valid H rdtscp (map as_loaded (concat (concat day))) (handler_init cfgs (\<lambda>_. spmc_init zero))"
  shows "\<exists>s logs. ingest_messages (production_ops H rdtscp) should_stop rx_burst timer hz
        (ingest_init timer (handler_init cfgs (\<lambda>_. spmc_init zero))) = Some (Inr s) \<and>
      bursts_read s = length day \<and>
      market_of H (handler s) = fold (market_step (configured cfgs)) (concat (concat day)) Map.empty \<and>
      best_known H (handler s) logs \<and> stopped (handler s) logs"
proof -
  let ?h0 = "handler_init cfgs (\<lambda>_. spmc_init zero) :: 'm Handler"
  let ?s0 = "ingest_init timer ?h0"
  obtain ns e where "concat (concat day) = ns @ [Msg_SystemEvent (e\<lparr>event_code := CHR ''C''\<rparr>)]"
    using ends_day_split [OF assms(4)] by blast
  then have ms: "map as_loaded (concat (concat day)) =
      map as_loaded ns @ [Msg_SystemEvent ((e\<lparr>SystemEvent.timestamp := be48_as_loaded (SystemEvent.timestamp e)\<rparr>)\<lparr>event_code := CHR ''C''\<rparr>)]"
    by simp
  obtain h logs where h: "handle_msgs (production_ops H rdtscp) (map as_loaded (concat (concat day))) ?h0 = Inr h"
    "market_of H h = fold (market_step (configured cfgs)) (concat (concat day)) Map.empty"
    "best_known H h logs" "stopped h logs"
    using handle_day_ok [OF assms(1,2) _ assms(7) ms] assms(6) unfolding fold_market_as_loaded by auto
  have go: "goes_on (production_ops H rdtscp) should_stop day ?h0"
    by (rule ends_day_goes_on [OF assms(4)]) (simp add: handler_init_def)
  have "last_message h"
    using handle_msgs_stop [OF h(1)] unfolding ms by simp
  then obtain s where "ingest_messages (production_ops H rdtscp) should_stop rx_burst timer hz ?s0 = Some (Inr s)"
    "handler s = h" "bursts_read s = length day"
    using ingest_messages_returns [of day rx_burst ?s0 "production_ops H rdtscp" should_stop h timer hz]
      assms(3,5) go h(1) by (auto simp: carried_def ingest_init_def should_stop_def)
  with h(2-4) show ?thesis by blast
qed

section \<open>Properties\<close>

text \<open>
  C34. The receive loop ends with the day. If the card delivers, in whatever bursts and packets, the
  messages of an exchange up to the end event, the loop of \<open>ingest_messages\<close> returns right after the
  burst that brings that event; the live orders are those of the day, every queue tells its strategy
  the best levels, and every queue in use ends with a \<open>Stop\<close>.
\<close>

theorem ingest_day_returns:
  fixes H :: "(u64, Order, 'm) flat_hash_map"
  assumes "flat_hash_map_laws H" and "\<forall>cfg \<in> set cfgs. queue cfg \<noteq> None"
    and "carried rx_burst day" and "ends_day day" and "list_all msg_ok (concat (concat day))"
    and "length (concat (concat day)) < 2 ^ 47"
    and "msgs_valid H rdtscp (map as_loaded (concat (concat day))) (handler_init cfgs (\<lambda>_. spmc_init zero))"
  shows "\<exists>s logs. ingest_messages (production_ops H rdtscp) should_stop rx_burst timer hz
        (ingest_init timer (handler_init cfgs (\<lambda>_. spmc_init zero))) = Some (Inr s) \<and>
      bursts_read s = length day \<and>
      market_of H (handler s) = fold (market_step (configured cfgs)) (concat (concat day)) Map.empty \<and>
      best_known H (handler s) logs \<and> stopped (handler s) logs"
  by (rule ingest_day [OF assms])

definition sample_packet :: "itch_msg list \<Rightarrow> rte_mbuf" where
  "sample_packet ms =
     \<lparr>nb_segs = 1, data_len = of_nat (62 + length (concat (map frame ms))),
      pkt_len = of_nat (62 + length (concat (map frame ms))),
      buf = replicate 38 0 @ be_bytes 2 (of_nat (28 + length (concat (map frame ms))) :: u16) @
        replicate 22 0 @ concat (map frame ms) @ [255, 255]\<rparr>"

lemma sample_packet_carries:
  assumes "28 + length (concat (map frame ms)) < 2 ^ 16"
  shows "carries (sample_packet ms) ms"
  unfolding carries_def
  by (rule exI [of _ "replicate 38 0"], rule exI [of _ "replicate 22 0"], rule exI [of _ "[]"],
      rule exI [of _ "[255, 255]"])
    (use assms in \<open>simp add: sample_packet_def incomplete_def\<close>)

definition sample_end :: SystemEvent where
  "sample_end = \<lparr>SystemEvent.stock_locate = 0, tracking_number = 0, timestamp = 0, event_code = CHR ''C''\<rparr>"

lemma sample_end_ok: "msg_ok (Msg_SystemEvent sample_end)"
  by code_simp

definition sample_bursts :: "nat \<Rightarrow> rte_mbuf list" where
  "sample_bursts k =
     (if k = 1 then [sample_packet sample_day]
      else if k = 3 then [sample_packet [], sample_packet [Msg_SystemEvent sample_end]] else [])"

definition sample_feed :: "itch_msg list list list" where
  "sample_feed = [[], [sample_day], [], [[], [Msg_SystemEvent sample_end]]]"

lemma sample_feed_msgs: "concat (concat sample_feed) = sample_day @ [Msg_SystemEvent sample_end]"
  by (simp add: sample_feed_def)

lemma sample_carried: "carried sample_bursts sample_feed"
proof -
  have "length (concat (map frame sample_day)) \<le> 104"
    using sample_day_ok msg_size_bound [of "Msg_StockDirectory sample_directory"]
      msg_size_bound [of "Msg_AddOrderNoMpid sample_add"] by (simp add: sample_day_def length_frame)
  then have day: "carries (sample_packet sample_day) sample_day"
    by (intro sample_packet_carries) simp
  have "length (frame (Msg_SystemEvent sample_end)) \<le> 52"
    using msg_size_bound [of "Msg_SystemEvent sample_end"] by (simp add: length_frame [OF sample_end_ok])
  then have last: "carries (sample_packet [Msg_SystemEvent sample_end]) [Msg_SystemEvent sample_end]"
    by (intro sample_packet_carries) simp
  have none: "carries (sample_packet []) []"
    by (intro sample_packet_carries) simp
  have "list_all2 carries (sample_bursts k) (sample_feed ! k)" if "k = 0 \<or> k = 1 \<or> k = 2 \<or> k = 3" for k
    using that day last none by (auto simp: sample_bursts_def sample_feed_def)
  moreover have "k = 0 \<or> k = 1 \<or> k = 2 \<or> k = 3" if "k < length sample_feed" for k
    using that by (auto simp: sample_feed_def)
  ultimately show ?thesis unfolding carried_def by blast
qed

lemma msgs_valid_append:
  "msgs_valid H rdtscp (ms @ ns) h \<longleftrightarrow> msgs_valid H rdtscp ms h \<and>
     (case handle_msgs (production_ops H rdtscp) ms h of
        Inl e \<Rightarrow> True | Inr h' \<Rightarrow> msgs_valid H rdtscp ns h')"
  by (induction ms arbitrary: h) (auto split: sum.splits)

lemma ingest_day_returns_witness:
  "\<exists>s logs. ingest_messages (production_ops alist_hash_map of_nat) should_stop sample_bursts (\<lambda>k. of_nat k) 5
        (ingest_init (\<lambda>k. of_nat k) (handler_init sample_cfgs (\<lambda>_. spmc_init Stop))) = Some (Inr s) \<and>
      bursts_read s = length sample_feed \<and>
      market_of alist_hash_map (handler s) =
        fold (market_step (configured sample_cfgs)) (concat (concat sample_feed)) Map.empty \<and>
      best_known alist_hash_map (handler s) logs \<and> stopped (handler s) logs"
proof (rule ingest_day_returns [OF alist_hash_map_laws _ sample_carried])
  show "\<forall>cfg \<in> set sample_cfgs. queue cfg \<noteq> None" by (simp add: sample_cfgs_def)
  show "ends_day sample_feed"
    unfolding ends_day_def sample_feed_msgs by (simp add: sample_feed_def sample_end_def sample_day_def)
  show "list_all msg_ok (concat (concat sample_feed))"
    using sample_day_ok sample_end_ok by (simp add: sample_feed_msgs)
  show "length (concat (concat sample_feed)) < 2 ^ 47" by (simp add: sample_feed_msgs sample_day_def)
  have "msgs_valid alist_hash_map of_nat [as_loaded (Msg_SystemEvent sample_end)] h" for h
    by (simp add: msg_valid_def split: sum.split)
  then show "msgs_valid alist_hash_map of_nat (map as_loaded (concat (concat sample_feed)))
      (handler_init sample_cfgs (\<lambda>_. spmc_init Stop))"
    unfolding sample_feed_msgs map_append msgs_valid_append
    using sample_day_valid by (auto split: sum.split)
qed

text \<open>
  C36. The receive loop believes the length field of the UDP header and nothing else. What is parsed is
  the length minus 28 bytes from offset 62 on, whatever length the packet itself has, so a wrong
  field makes it parse what an earlier packet left in the buffer; below 28 nothing is parsed, but
  the unsigned size wraps around and the total of received bytes falls.
\<close>

theorem ingest_trusts_length_field:
  assumes "62 \<le> length (buf m)" and "load_be_u16 (buf m) 38 = Inr n"
  shows "map_sum id (\<lambda>s'. (handler s', total_size s')) (ingest_packet ops m s) =
    (if unat n < 28 then Inr (handler s, total_size s - of_nat (28 - unat n))
     else map_sum id (\<lambda>h. (h, total_size s + of_nat (unat n - 28)))
            (parse ops (buf m) 62 (unat n - 28) (handler s)))"
proof -
  obtain s' where s': "handler s' = handler s" "total_size s' = total_size s"
    "ingest_packet ops m s = rbind (parse ops (buf m) 62 (unat n - 28) (handler s)) (\<lambda>h.
      Inr (s'\<lparr>handler := h, total_size := total_size s + itch_len n\<rparr>))"
    using ingest_packet_eq [OF assms] by blast
  have "parse ops (buf m) 62 0 h = Inr h" for h
    unfolding parse_def by (subst parse_loop.simps) simp
  with s' show ?thesis
    by (cases "parse ops (buf m) 62 (unat n - 28) (handler s)") (auto simp: itch_len_eq simp del: of_nat_diff)
qed

text \<open>A packet without a payload whose length field claims the frames an earlier packet left.\<close>

definition stale_packet :: rte_mbuf where
  "stale_packet = (sample_packet sample_msgs)\<lparr>data_len := 62, pkt_len := 62\<rparr>"

lemma ingest_trusts_length_field_witness:
  "map_sum id (\<lambda>s'. (handler s', total_size s')) (ingest_packet collector stale_packet (ingest_init (\<lambda>k. 0) [])) =
     Inr (map as_loaded sample_msgs, of_nat (length (concat (map frame sample_msgs))))"
proof -
  let ?fs = "concat (map frame sample_msgs)"
  have "msg_size (Msg_SystemEvent sample_event) + msg_size (Msg_OrderDelete sample_delete) = 29"
    by code_simp
  then have len: "length ?fs = 35"
    using sample_msgs_ok by (simp add: sample_msgs_def length_frame)
  have b: "buf stale_packet = (replicate 38 0 @ be_bytes 2 (63 :: u16) @ replicate 22 0) @ ?fs @ [] @ [255, 255]"
    by (simp add: stale_packet_def sample_packet_def len)
  have n: "load_be_u16 (buf stale_packet) 38 = Inr 63"
    using load_be_u16_encoded [of "replicate 38 0" "63 :: u16"] by (simp add: b)
  have "parse collector (buf stale_packet) 62 35 [] = Inr (map as_loaded sample_msgs)"
    using parse_loop_frames [OF sample_msgs_ok, of "[]" collector
        "replicate 38 0 @ be_bytes 2 (63 :: u16) @ replicate 22 0" "[255, 255]" "[]"] len
    by (simp add: b parse_def incomplete_def sample_msgs_def handle_msg_def collector_def)
  then show ?thesis
    using ingest_trusts_length_field [of stale_packet 63 collector "ingest_init (\<lambda>k. 0) []"] n
    by (simp add: len b ingest_init_def)
qed

end
