(* ===== verification/Consumers.thy ===== *)
theory Consumers
  imports Ingestor Benchmark_Utils
begin

text \<open>
  The strategy threads of \<open>src/main.cpp\<close>: each reads its instrument's queue until it receives \<open>Stop\<close>
  and counts, in a histogram, the nanoseconds from the arrival of a message to its reception. The
  queue changes while a thread runs: \<open>q t\<close> is its state at the thread's attempt \<open>t\<close> to pop, which is
  taken as one step (\<open>Spmc_Threads\<close> has the interleavings inside a pop).
\<close>

section \<open>The configuration\<close>

record StrategyConsumerConfig =
  name :: string
  queue :: nat
  cpu :: int

definition add_strategy_consumers ::
    "StrategyConsumerConfig list \<Rightarrow> string \<Rightarrow> nat \<Rightarrow> int list \<Rightarrow> StrategyConsumerConfig list" where
  "add_strategy_consumers consumers prefix q cpus =
     consumers @ map (\<lambda>i. \<lparr>name = prefix @ ''_consumer_'' @ decimal (i + 1), queue = q, cpu = cpus ! i\<rparr>)
       [0..<length cpus]"

definition nvda_queue :: nat where "nvda_queue = 0"
definition aapl_queue :: nat where "aapl_queue = 1"

definition instrument_config :: "InstrumentConfig list" where
  "instrument_config =
     [\<lparr>symbol = ''NVDA'', queue = Some nvda_queue\<rparr>, \<lparr>symbol = ''AAPL'', queue = Some aapl_queue\<rparr>]"

definition consumer_configs :: "StrategyConsumerConfig list" where
  "consumer_configs =
     add_strategy_consumers (add_strategy_consumers [] ''nvidia'' nvda_queue [2]) ''apple'' aapl_queue [4, 5]"

section \<open>A strategy thread\<close>

definition MAX_LATENCY :: u64 where "MAX_LATENCY = 100000"

record strategy_thread =
  c :: Consumer
  skipped_latencies :: u64
  hist :: "u64 list"

definition thread_init :: "Consumer \<Rightarrow> strategy_thread" where
  "thread_init consumer =
     \<lparr>c = consumer, skipped_latencies = 0, hist = replicate (unat MAX_LATENCY + 1) 0\<rparr>"

definition record_latency :: "u64 \<Rightarrow> strategy_thread \<Rightarrow> strategy_thread" where
  "record_latency ns s =
     (if ns \<le> MAX_LATENCY then s\<lparr>hist := (hist s)[unat ns := hist s ! unat ns + 1]\<rparr>
      else s\<lparr>skipped_latencies := skipped_latencies s + 1\<rparr>)"

text \<open>
  The loop that waits for a message and the loop around it are one recursion over the attempts to
  pop; \<open>rdtscp t\<close> is the reading taken after attempt \<open>t\<close>. \<open>None\<close> stands for a thread that runs for
  ever.
\<close>

partial_function (option) consumer_loop ::
    "(nat \<Rightarrow> StrategyMsg SPMCQueue) \<Rightarrow> (nat \<Rightarrow> u64) \<Rightarrow> u64 \<Rightarrow> nat \<Rightarrow> strategy_thread \<Rightarrow>
       strategy_thread result option" where
  "consumer_loop q rdtscp f t s =
     (case pop (q t) (c s) of
        Inl e \<Rightarrow> Some (Inl e)
      | Inr r \<Rightarrow>
          (case fst r of
             None \<Rightarrow> consumer_loop q rdtscp f (t + 1) (s\<lparr>c := snd r\<rparr>)
           | Some msg \<Rightarrow>
               (case msg of
                  Stop \<Rightarrow> Some (Inr (s\<lparr>c := snd r\<rparr>))
                | BookUpdate u \<Rightarrow>
                    (case cycles_to_ns (rdtscp t - BookUpdateMsg.t0 u) f of
                       Inl e \<Rightarrow> Some (Inl e)
                     | Inr ns \<Rightarrow> consumer_loop q rdtscp f (t + 1) (record_latency ns (s\<lparr>c := snd r\<rparr>))))))"

declare consumer_loop.simps [code]

text \<open>The whole thread: the loop, then the number of skipped latencies printed and the file written.\<close>

definition strategy_thread_run ::
    "(nat \<Rightarrow> StrategyMsg SPMCQueue) \<Rightarrow> (nat \<Rightarrow> u64) \<Rightarrow> u64 \<Rightarrow> bool \<Rightarrow> Consumer \<Rightarrow>
       (u64 \<times> nat \<times> string \<times> int) result option" where
  "strategy_thread_run q rdtscp f opened consumer =
     map_option (\<lambda>r. rbind r (\<lambda>s. rbind (export_latency_histogram_csv_ns (hist s) opened) (\<lambda>file.
         Inr (skipped_latencies s, file))))
       (consumer_loop q rdtscp f 0 (thread_init consumer))"

section \<open>The histogram\<close>

text \<open>The latencies \<open>ls\<close> are counted: each in its bucket, the ones above 100000 together.\<close>

definition counted :: "strategy_thread \<Rightarrow> u64 list \<Rightarrow> bool" where
  "counted s ls \<longleftrightarrow>
     length (hist s) = 100001 \<and> (\<forall>n < 100001. hist s ! n = of_nat (count_list ls (of_nat n))) \<and>
     skipped_latencies s = of_nat (length (filter (\<lambda>ns. 100000 < ns) ls))"

lemma counted_init [simp]: "counted (thread_init consumer) []"
  by (simp add: counted_def thread_init_def MAX_LATENCY_def del: replicate.simps)

lemma thread_init_c [simp]: "c (thread_init consumer) = consumer"
  by (simp add: thread_init_def)

lemma counted_c [simp]: "counted (s\<lparr>c := x\<rparr>) ls = counted s ls"
  by (simp add: counted_def)

lemma record_latency_c [simp]: "c (record_latency ns s) = c s"
  by (simp add: record_latency_def)

lemma count_list_snoc: "count_list (ls @ [x]) y = (if x = y then count_list ls y + 1 else count_list ls y)"
  by simp

lemma record_latency_counted:
  assumes "counted s ls"
  shows "counted (record_latency ns s) (ls @ [ns])"
proof -
  have bucket: "unat ns = n \<longleftrightarrow> ns = of_nat n" if "n < 100001" for n
    using that by (auto simp: unat_of_nat take_bit_nat_eq_self)
  have h: "length (hist s) = 100001" "hist s ! n = of_nat (count_list ls (of_nat n))" if "n < 100001" for n
    using assms that by (auto simp: counted_def)
  show ?thesis
  proof (cases "ns \<le> 100000")
    case True
    then have "hist (record_latency ns s) ! n = of_nat (count_list (ls @ [ns]) (of_nat n))" if "n < 100001" for n
      using h [OF that] bucket [OF that] that
      by (cases "ns = of_nat n") (simp_all add: record_latency_def MAX_LATENCY_def nth_list_update)
    with True assms show ?thesis
      by (simp add: counted_def record_latency_def MAX_LATENCY_def not_less)
  next
    case False
    then have "of_nat n \<noteq> ns" if "n < 100001" for n
      using that by (auto simp: word_le_nat_alt unat_of_nat take_bit_nat_eq_self)
    with False assms show ?thesis
      by (auto simp: counted_def record_latency_def MAX_LATENCY_def)
  qed
qed

section \<open>The file of a histogram of latencies\<close>

text \<open>The latencies below \<open>n\<close> that occur in \<open>ls\<close>, ascending, and the total of all that are below \<open>n\<close>.\<close>

definition measured :: "nat \<Rightarrow> u64 list \<Rightarrow> nat list" where
  "measured n ls = filter (\<lambda>i. of_nat i \<in> set ls) [0..<n]"

lemma total_measured:
  assumes "n < 2 ^ 64"
  shows "sum_list (map (\<lambda>i. i * count_list ls (of_nat i)) (measured n ls)) =
    sum_list (map unat (filter (\<lambda>x. unat x < n) ls))"
proof -
  have "sum_list (map (\<lambda>i. i * count_list ls (of_nat i)) (measured n ls)) =
      (\<Sum>i\<in>{i \<in> {..<n}. of_nat i \<in> set ls}. i * count_list ls (of_nat i))"
    unfolding measured_def by (simp add: sum_list_distinct_conv_sum_set lessThan_atLeast0)
  also have "\<dots> = (\<Sum>i<n. i * count_list ls (of_nat i))"
    by (rule sum.mono_neutral_left) (auto simp: count_list_0_iff)
  also have "\<dots> = sum_list (map unat (filter (\<lambda>x. unat x < n) ls))"
  proof (induction ls)
    case (Cons x ls)
    have "x = of_nat i \<longleftrightarrow> i = unat x" if "i < n" for i
      using that assms by (auto simp: unat_of_nat take_bit_nat_eq_self)
    then have "(\<Sum>i<n. i * count_list (x # ls) (of_nat i)) =
        (\<Sum>i<n. i * count_list ls (of_nat i) + (if i = unat x then i else 0))"
      by (intro sum.cong) auto
    with Cons.IH show ?case by (simp add: sum.distrib)
  qed simp
  finally show ?thesis .
qed

lemma export_of_counts:
  assumes len: "length h = n" "n \<le> 2 ^ 31" and h: "\<forall>i < n. h ! i = of_nat (count_list ls (of_nat i))"
    and ls: "length ls < 2 ^ 64"
  shows "export_latency_histogram_csv_ns h opened =
    (if \<not> opened then Inl Aborted
     else Inr (length (measured n ls),
      ''latency_ns,count'' @ [CHR 0x0A] @
        concat (map (\<lambda>i. csv_line i (count_list ls (of_nat i))) (measured n ls)),
      int (sum_list (map unat (filter (\<lambda>x. unat x < n) ls)))))"
proof -
  have count: "unat (h ! i) = count_list ls (of_nat i)" if "i < n" for i
  proof -
    have "count_list ls (of_nat i) < 2 ^ 64" using count_le_length [of ls "of_nat i"] ls by linarith
    then show ?thesis using h that by (simp add: unat_of_nat take_bit_nat_eq_self)
  qed
  have "h ! i \<noteq> 0 \<longleftrightarrow> of_nat i \<in> set ls" if "i < n" for i
    using count [OF that] by (metis count_list_0_iff unat_eq_zero)
  then have filled: "filled h = measured n ls"
    unfolding filled_def measured_def len(1) by (intro filter_cong) auto
  have row: "i < n" if "i \<in> set (measured n ls)" for i using that by (simp add: measured_def)
  have n64: "n < 2 ^ 64" using len(2) by simp
  have conv: "int (sum_list (map f xs)) = sum_list (map (\<lambda>x. int (f x)) xs)" for f :: "nat \<Rightarrow> nat" and xs
    by (induction xs) simp_all
  have "int i * uint (h ! i) = int (i * count_list ls (of_nat i))" if "i < n" for i
    using count [OF that] by (simp add: uint_nat)
  then have "sum_list (map (\<lambda>i. int i * uint (h ! i)) (measured n ls)) =
      int (sum_list (map (\<lambda>i. i * count_list ls (of_nat i)) (measured n ls)))"
    using row unfolding conv by (intro arg_cong [of _ _ sum_list] map_cong) auto
  then have total: "total_from 0 (map (\<lambda>i. (of_nat i, h ! i)) (filled h)) =
      Inr (int (sum_list (map unat (filter (\<lambda>x. unat x < n) ls))))"
    using histogram_total [of h] len unfolding filled by (simp only: total_measured [OF n64])
  have "map (\<lambda>i. csv_line i (unat (h ! i))) (measured n ls) =
      map (\<lambda>i. csv_line i (count_list ls (of_nat i))) (measured n ls)"
    using row count by simp
  with total show ?thesis
    by (simp only: export_latency_histogram_csv_ns_def Let_def filled rbind.simps)
qed

section \<open>A queue that is being fed\<close>

definition feeds :: "(nat \<Rightarrow> 'a SPMCQueue) \<Rightarrow> (nat \<Rightarrow> 'a list) \<Rightarrow> bool" where
  "feeds q log \<longleftrightarrow> (\<forall>t. log_ok (q t) (log t) \<and> (\<exists>ext. log (Suc t) = log t @ ext))"

text \<open>The position of a consumer at \<open>k\<close> before attempt \<open>t\<close>, after \<open>d\<close> attempts.\<close>

fun position :: "(nat \<Rightarrow> 'a list) \<Rightarrow> nat \<Rightarrow> nat \<Rightarrow> nat \<Rightarrow> nat" where
  "position log t k 0 = k"
| "position log t k (Suc d) = position log (Suc t) (if k < length (log t) then k + 1 else k) d"

definition keeps_up :: "(nat \<Rightarrow> 'a list) \<Rightarrow> nat \<Rightarrow> nat \<Rightarrow> bool" where
  "keeps_up log t k \<longleftrightarrow> (\<forall>d. length (log (t + d)) \<le> position log t k d + ring_slots)"

lemma keeps_up_now: "keeps_up log t k \<Longrightarrow> length (log t) \<le> k + ring_slots"
  unfolding keeps_up_def by (force dest: spec [of _ 0])

lemma keeps_up_Suc: "keeps_up log t k \<Longrightarrow> keeps_up log (Suc t) (if k < length (log t) then k + 1 else k)"
  unfolding keeps_up_def by (auto dest: spec [of _ "Suc _"])

lemma feeds_prefix:
  assumes "feeds q log" and "t \<le> u"
  shows "\<exists>ext. log u = log t @ ext"
  using assms(2)
proof (induction u rule: dec_induct)
  case (step u)
  with assms(1) show ?case unfolding feeds_def by (metis append_assoc)
qed simp

lemma feeds_nth:
  assumes "feeds q log" and "k < length (log t)" and "k < length (log u)"
  shows "log t ! k = log u ! k"
  using feeds_prefix [OF assms(1), of t u] feeds_prefix [OF assms(1), of u t] assms(2,3)
  by (cases "t \<le> u") (auto simp: nth_append)

lemma feeds_length: "feeds q log \<Longrightarrow> t \<le> u \<Longrightarrow> length (log t) \<le> length (log u)"
  using feeds_prefix [of q log t u] by auto

section \<open>The thread ends\<close>

definition latency :: "(nat \<Rightarrow> u64) \<Rightarrow> u64 \<Rightarrow> nat \<Rightarrow> StrategyMsg \<Rightarrow> u64" where
  "latency rdtscp f t msg =
     (case msg of
        Stop \<Rightarrow> 0
      | BookUpdate u \<Rightarrow> (case cycles_to_ns (rdtscp t - BookUpdateMsg.t0 u) f of Inl e \<Rightarrow> 0 | Inr ns \<Rightarrow> ns))"

lemma cycles_to_ns_ok: "f \<noteq> 0 \<Longrightarrow> \<exists>ns. cycles_to_ns cycles f = Inr ns"
  by (simp add: cycles_to_ns_eq)

text \<open>One attempt of the loop, for each thing it can find.\<close>

lemma consumer_loop_wait:
  assumes "pop (q t) (c s) = Inr (None, c s)"
  shows "consumer_loop q rdtscp f t s = consumer_loop q rdtscp f (Suc t) s"
  using assms by (subst consumer_loop.simps) simp

lemma consumer_loop_stop:
  assumes "pop (q t) (c s) = Inr (Some Stop, cons)"
  shows "consumer_loop q rdtscp f t s = Some (Inr (s\<lparr>c := cons\<rparr>))"
  using assms by (subst consumer_loop.simps) simp

lemma consumer_loop_update:
  assumes "pop (q t) (c s) = Inr (Some msg, cons)" and "msg \<noteq> Stop" and "f \<noteq> 0"
  shows "consumer_loop q rdtscp f t s =
    consumer_loop q rdtscp f (Suc t) (record_latency (latency rdtscp f t msg) (s\<lparr>c := cons\<rparr>))"
proof -
  obtain u where u: "msg = BookUpdate u" using assms(2) by (cases msg) auto
  moreover obtain ns where "cycles_to_ns (rdtscp t - BookUpdateMsg.t0 u) f = Inr ns"
    using cycles_to_ns_ok [OF assms(3)] by blast
  ultimately show ?thesis
    using assms(1) by (subst consumer_loop.simps) (simp add: latency_def)
qed

definition ends_with ::
    "(nat \<Rightarrow> u64) \<Rightarrow> u64 \<Rightarrow> nat \<Rightarrow> StrategyMsg list \<Rightarrow> u64 list \<Rightarrow> strategy_thread result option \<Rightarrow> bool" where
  "ends_with rdtscp f t ms before r \<longleftrightarrow>
     (\<exists>s times. r = Some (Inr s) \<and> sorted_wrt (<) times \<and> (\<forall>u \<in> set times. t \<le> u) \<and>
        length times = length ms \<and> counted s (before @ map2 (latency rdtscp f) times ms))"

lemma ends_with_later: "ends_with rdtscp f (Suc t) ms before r \<Longrightarrow> ends_with rdtscp f t ms before r"
proof -
  have "t \<le> u" if "Suc t \<le> u" for u using that by simp
  then show "ends_with rdtscp f (Suc t) ms before r \<Longrightarrow> ?thesis" unfolding ends_with_def by blast
qed

lemma ends_with_Cons:
  assumes "ends_with rdtscp f (Suc t) ms (before @ [latency rdtscp f t m]) r"
  shows "ends_with rdtscp f t (m # ms) before r"
proof -
  obtain s times where "r = Some (Inr s)" "sorted_wrt (<) times" "\<forall>u \<in> set times. Suc t \<le> u"
    "length times = length ms" "counted s (before @ latency rdtscp f t m # map2 (latency rdtscp f) times ms)"
    using assms by (auto simp: ends_with_def)
  then show ?thesis unfolding ends_with_def
    by (intro exI [of _ s] exI [of _ "t # times"]) (auto simp: Suc_le_eq)
qed

lemma consumer_loop_ends:
  assumes f: "f \<noteq> 0" and q: "feeds q log" and T: "p < length (log T)" "log T ! p = Stop"
  shows "keeps_up log t k \<Longrightarrow> consumer_at (c s) k \<Longrightarrow> k \<le> length (log t) \<Longrightarrow> counted s before \<Longrightarrow> k \<le> p \<Longrightarrow>
    (\<forall>j. k \<le> j \<and> j < p \<longrightarrow> log T ! j \<noteq> Stop) \<Longrightarrow>
    ends_with rdtscp f t (map ((!) (log T)) [k..<p]) before (consumer_loop q rdtscp f t s)"
proof (induction "p - k + (T - t)" arbitrary: t k s before rule: less_induct)
  case less
  have ok: "log_ok (q t) (log t)" using q by (simp add: feeds_def)
  show ?case
  proof (cases "k < length (log t)")
    case False
    then have k: "k = length (log t)" using less.prems(3) by simp
    with T(1) less.prems(5) have "\<not> T \<le> t" using feeds_length [OF q, of T t] by auto
    then have "p - k + (T - Suc t) < p - k + (T - t)" by simp
    moreover have "keeps_up log (Suc t) k" using keeps_up_Suc [OF less.prems(1)] False by simp
    moreover have "k \<le> length (log (Suc t))" using feeds_length [OF q, of t "Suc t"] k by simp
    ultimately have "ends_with rdtscp f (Suc t) (map ((!) (log T)) [k..<p]) before
        (consumer_loop q rdtscp f (Suc t) s)"
      using less.prems by (intro less.hyps) auto
    moreover have "pop (q t) (c s) = Inr (None, c s)" using spmc.get_end [OF ok] less.prems(2) k by simp
    ultimately show ?thesis by (simp only: consumer_loop_wait ends_with_later)
  next
    case True
    obtain cons where cons: "pop (q t) (c s) = Inr (Some (log t ! k), cons)" "consumer_at cons (k + 1)"
      using spmc.get_next [OF ok less.prems(2) True keeps_up_now [OF less.prems(1)]] by blast
    have same: "log t ! k = log T ! k" using feeds_nth [OF q True] T(1) less.prems(5) by simp
    show ?thesis
    proof (cases "k = p")
      case True
      with cons(1) same T(2) less.prems(4) show ?thesis
        by (auto simp: consumer_loop_stop ends_with_def)
    next
      case False
      with less.prems(5,6) have k: "k < p" and "log t ! k \<noteq> Stop" by (auto simp: same)
      let ?s = "record_latency (latency rdtscp f t (log T ! k)) (s\<lparr>c := cons\<rparr>)"
      have "p - (k + 1) + (T - Suc t) < p - k + (T - t)" using k by simp
      moreover have "keeps_up log (Suc t) (k + 1)" using keeps_up_Suc [OF less.prems(1)] True by simp
      moreover have "k + 1 \<le> length (log (Suc t))" using feeds_length [OF q, of t "Suc t"] True by simp
      moreover have "counted ?s (before @ [latency rdtscp f t (log T ! k)])"
        using less.prems(4) by (intro record_latency_counted) simp
      ultimately have "ends_with rdtscp f (Suc t) (map ((!) (log T)) [k + 1..<p])
          (before @ [latency rdtscp f t (log T ! k)]) (consumer_loop q rdtscp f (Suc t) ?s)"
        using less.prems(6) cons(2) k by (intro less.hyps) auto
      moreover have "map ((!) (log T)) [k..<p] = log T ! k # map ((!) (log T)) [k + 1..<p]"
        using k by (simp add: upt_conv_Cons)
      ultimately show ?thesis
        using consumer_loop_update [of q t s, OF cons(1) \<open>log t ! k \<noteq> Stop\<close> f] by (simp only: same ends_with_Cons)
    qed
  qed
qed

text \<open>Conversely, a thread ends well only if its queue receives a \<open>Stop\<close>; without one it runs for ever.\<close>

lemma consumer_loop_needs_stop:
  "consumer_loop q rdtscp f t s = Some r \<Longrightarrow> feeds q log \<Longrightarrow> consumer_at (c s) k \<Longrightarrow> k \<le> length (log t) \<Longrightarrow>
    r = Inr s' \<Longrightarrow> \<exists>T. Stop \<in> set (log T)"
proof (induction q rdtscp f t s r arbitrary: k rule: consumer_loop.raw_induct [rotated, consumes 1])
  case (1 loop q rdtscp f t s r)
  note loop = 1(2) and feeds = 1(3) and r = 1(6)
  have ok: "log_ok (q t) (log t)" using feeds by (simp add: feeds_def)
  have more: "length (log t) \<le> length (log (t + 1))" using feeds_length [OF feeds, of t "t + 1"] by simp
  note pop = pop_cases [OF ok 1(4,5)]
  show ?case
  proof (cases "k < length (log t)")
    case False
    then have "pop (q t) (c s) = Inr (None, c s)" using pop 1(5) by simp
    then have "loop q rdtscp f (t + 1) s = Some r" using loop by simp
    from 1(1) [OF this feeds 1(4) _ r] show ?thesis using 1(5) more by simp
  next
    case True
    have got: "pop (q t) (c s) = Inr (Some (log t ! k), (c s)\<lparr>reader := reader (c s) + 1\<rparr>)"
      using pop True loop r by (cases "length (log t) \<le> k + ring_slots") auto
    show ?thesis
    proof (cases "log t ! k")
      case (BookUpdate u)
      then obtain ns where "loop q rdtscp f (t + 1)
          (record_latency ns (s\<lparr>c := (c s)\<lparr>reader := reader (c s) + 1\<rparr>\<rparr>)) = Some r"
        using loop got r by (auto split: sum.splits)
      note IH = 1(1) [OF this feeds _ _ r, of "k + 1"]
      have "consumer_at ((c s)\<lparr>reader := reader (c s) + 1\<rparr>) (k + 1)"
        using 1(4) True ok by (simp add: consumer_at_def log_ok_def add.commute)
      with IH show ?thesis using True more by simp
    next
      case Stop
      with True show ?thesis by (metis nth_mem)
    qed
  qed
qed

section \<open>Properties\<close>

definition before_stop :: "StrategyMsg list \<Rightarrow> StrategyMsg list" where
  "before_stop log = takeWhile (\<lambda>m. m \<noteq> Stop) log"

lemma before_stop_split:
  assumes "Stop \<in> set (drop k log)"
  shows "\<exists>p. k \<le> p \<and> p < length log \<and> log ! p = Stop \<and> (\<forall>j. k \<le> j \<and> j < p \<longrightarrow> log ! j \<noteq> Stop) \<and>
    before_stop (drop k log) = map ((!) log) [k..<p]"
proof -
  let ?xs = "drop k log" and ?n = "length (before_stop (drop k log))"
  have n: "?n < length ?xs" "?xs ! ?n = Stop"
    using assms nth_length_takeWhile [of "\<lambda>m. m \<noteq> Stop" ?xs]
      takeWhile_eq_all_conv [of "\<lambda>m. m \<noteq> Stop" ?xs] length_takeWhile_le [of "\<lambda>m. m \<noteq> Stop" ?xs]
    unfolding before_stop_def by (metis le_neq_implies_less takeWhile_eq_take take_all_iff order_refl)+
  have b: "before_stop ?xs = take ?n ?xs" unfolding before_stop_def by (rule takeWhile_eq_take)
  have "log ! j \<noteq> Stop" if "k \<le> j" "j < k + ?n" for j
  proof -
    have "before_stop ?xs ! (j - k) \<in> set (before_stop ?xs)" using that by (intro nth_mem) simp
    moreover have "before_stop ?xs ! (j - k) = log ! j"
      using that n(1) by (subst b) simp
    ultimately show ?thesis unfolding before_stop_def by (auto dest: set_takeWhileD)
  qed
  moreover have "before_stop ?xs = map ((!) log) [k..<k + ?n]"
    using n(1) by (subst b) (auto intro!: nth_equalityI)
  ultimately show ?thesis using n by (intro exI [of _ "k + ?n"]) auto
qed

lemma consumer_ends:
  assumes "f \<noteq> 0" and "feeds q log" and "keeps_up log 0 k" and "consumer_at consumer k"
    and "k \<le> length (log 0)" and "Stop \<in> set (drop k (log T))"
  shows "\<exists>s times. consumer_loop q rdtscp f 0 (thread_init consumer) = Some (Inr s) \<and>
    sorted_wrt (<) times \<and> length times = length (before_stop (drop k (log T))) \<and>
    counted s (map2 (latency rdtscp f) times (before_stop (drop k (log T))))"
proof -
  obtain p where p: "k \<le> p" "p < length (log T)" "log T ! p = Stop"
    "\<forall>j. k \<le> j \<and> j < p \<longrightarrow> log T ! j \<noteq> Stop" "before_stop (drop k (log T)) = map ((!) (log T)) [k..<p]"
    using before_stop_split [OF assms(6)] by blast
  have "ends_with rdtscp f 0 (map ((!) (log T)) [k..<p]) [] (consumer_loop q rdtscp f 0 (thread_init consumer))"
    using consumer_loop_ends [OF assms(1,2) p(2,3) assms(3)] assms(4,5) p(1,4)
    by simp
  then show ?thesis unfolding p(5) ends_with_def by auto
qed

lemma thread_run_counted:
  assumes loop: "consumer_loop q rdtscp f 0 (thread_init consumer) = Some (Inr s)"
    and s: "counted s ls" and ls: "length ls < 2 ^ 64"
  shows "strategy_thread_run q rdtscp f opened consumer =
    Some (if \<not> opened then Inl Aborted
      else Inr (of_nat (length (filter (\<lambda>ns. 100000 < ns) ls)), length (measured 100001 ls),
        ''latency_ns,count'' @ [CHR 0x0A] @
          concat (map (\<lambda>i. csv_line i (count_list ls (of_nat i))) (measured 100001 ls)),
        int (sum_list (map unat (filter (\<lambda>ns. ns \<le> 100000) ls)))))"
proof -
  have "(\<lambda>ns :: u64. ns \<le> 100000) = (\<lambda>ns. unat ns < 100001)"
    by (auto simp: word_le_nat_alt fun_eq_iff)
  moreover have "length (hist s) = 100001" "\<forall>n < 100001. hist s ! n = of_nat (count_list ls (of_nat n))"
    "skipped_latencies s = of_nat (length (filter (\<lambda>ns. 100000 < ns) ls))"
    using s by (simp_all add: counted_def)
  moreover note export_of_counts [OF this(1) _ this(2) ls, of opened]
  ultimately show ?thesis
    by (simp add: strategy_thread_run_def loop del: upt_rec_numeral)
qed

lemma thread_run_ends:
  assumes "f \<noteq> 0" and "feeds q log" and "keeps_up log 0 k" and "consumer_at consumer k"
    and "k \<le> length (log 0)" and "Stop \<in> set (drop k (log T))"
  shows "\<exists>times. sorted_wrt (<) times \<and> length times = length (before_stop (drop k (log T))) \<and>
    (let ls = map2 (latency rdtscp f) times (before_stop (drop k (log T))) in
     strategy_thread_run q rdtscp f opened consumer =
       Some (if \<not> opened then Inl Aborted
         else Inr (of_nat (length (filter (\<lambda>ns. 100000 < ns) ls)), length (measured 100001 ls),
           ''latency_ns,count'' @ [CHR 0x0A] @
             concat (map (\<lambda>i. csv_line i (count_list ls (of_nat i))) (measured 100001 ls)),
           int (sum_list (map unat (filter (\<lambda>ns. ns \<le> 100000) ls))))))"
proof -
  obtain s times where s: "consumer_loop q rdtscp f 0 (thread_init consumer) = Some (Inr s)"
    "sorted_wrt (<) times" "length times = length (before_stop (drop k (log T)))"
    "counted s (map2 (latency rdtscp f) times (before_stop (drop k (log T))))"
    using consumer_ends [OF assms] by blast
  have "length (log T) < 2 ^ 64" using assms(2) by (simp add: feeds_def log_ok_def)
  moreover have "length (before_stop (drop k (log T))) \<le> length (log T)"
    using length_takeWhile_le [of "\<lambda>m. m \<noteq> Stop" "drop k (log T)"] by (simp add: before_stop_def)
  ultimately have "length (map2 (latency rdtscp f) times (before_stop (drop k (log T)))) < 2 ^ 64" by simp
  from thread_run_counted [OF s(1,4) this, of opened] s(2,3) show ?thesis by (auto simp only: Let_def)
qed

text \<open>
  C35. Every strategy thread whose queue receives a \<open>Stop\<close> ends and reports what it measured. Whatever the
  pace of the handler, as long as the thread is never more than a round of the queue behind, it measures each
  update before the \<open>Stop\<close> once, in order; it prints how many latencies were above 100000 nanoseconds, and
  its file has a line for each other latency, ascending, with the number of times it was measured; the
  total is their sum. If the file cannot be opened the thread aborts.
\<close>

theorem thread_reports:
  assumes "f \<noteq> 0" and "feeds q log" and "keeps_up log 0 k" and "consumer_at consumer k"
    and "k \<le> length (log 0)" and "Stop \<in> set (drop k (log T))"
  shows "\<exists>times. sorted_wrt (<) times \<and> length times = length (before_stop (drop k (log T))) \<and>
    (let ls = map2 (latency rdtscp f) times (before_stop (drop k (log T))) in
     strategy_thread_run q rdtscp f opened consumer =
       Some (if \<not> opened then Inl Aborted
         else Inr (of_nat (length (filter (\<lambda>ns. 100000 < ns) ls)), length (measured 100001 ls),
           ''latency_ns,count'' @ [CHR 0x0A] @
             concat (map (\<lambda>i. csv_line i (count_list ls (of_nat i))) (measured 100001 ls)),
           int (sum_list (map unat (filter (\<lambda>ns. ns \<le> 100000) ls))))))"
  using assms by (rule thread_run_ends)

definition sample_update :: StrategyMsg where
  "sample_update = BookUpdate \<lparr>BookUpdateMsg.t0 = 10, qty = 100, price = 5000, side = Bid\<rparr>"

definition sample_queue :: "nat \<Rightarrow> StrategyMsg SPMCQueue" where
  "sample_queue t =
     (if t < 2 then spmc_init Stop else push (push (spmc_init Stop) sample_update) Stop)"

definition sample_log :: "nat \<Rightarrow> StrategyMsg list" where
  "sample_log t = (if t < 2 then [] else [sample_update, Stop])"

lemma sample_feeds: "feeds sample_queue sample_log"
  unfolding feeds_def
  using spmc.puts_ok [OF log_ok_init, of "[sample_update, Stop]" Stop]
  by (auto simp: sample_queue_def sample_log_def log_ok_init)

lemma thread_reports_witness:
  "\<exists>times. sorted_wrt (<) times \<and> length times = length (before_stop (drop 0 (sample_log 5))) \<and>
    (let ls = map2 (latency (\<lambda>t. of_nat t * 1000) 3000000000) times (before_stop (drop 0 (sample_log 5))) in
     strategy_thread_run sample_queue (\<lambda>t. of_nat t * 1000) 3000000000 True (make_consumer (spmc_init Stop)) =
       Some (if \<not> True then Inl Aborted
         else Inr (of_nat (length (filter (\<lambda>ns. 100000 < ns) ls)), length (measured 100001 ls),
           ''latency_ns,count'' @ [CHR 0x0A] @
             concat (map (\<lambda>i. csv_line i (count_list ls (of_nat i))) (measured 100001 ls)),
           int (sum_list (map unat (filter (\<lambda>ns. ns \<le> 100000) ls))))))"
proof (rule thread_reports [OF _ sample_feeds])
  show "consumer_at (make_consumer (spmc_init Stop :: StrategyMsg SPMCQueue)) 0"
    by (simp add: consumer_at_def make_consumer_def spmc_init_def)
  show "keeps_up sample_log 0 0"
    by (simp add: keeps_up_def sample_log_def ring_slots_def)
qed (simp_all add: sample_log_def)

end
