(* ===== verification/Main_Program.thy ===== *)
theory Main_Program
  imports Consumers
begin

text \<open>
  The whole program: the setup of the network card in \<open>src/dpdk_context.cpp\<close>, with the results of the
  calls into DPDK as parameters, and \<open>main\<close> of \<open>src/main.cpp\<close>, which sets the card up, starts the strategy
  threads, runs the receive loop to the end of the day and joins the threads.
\<close>

section \<open>The network card\<close>

text \<open>
  What the calls into DPDK and the operating system return, given their arguments; a call that writes
  through a pointer returns what it writes. Of the configurations, \<open>offloads\<close> is what the code sets, the
  defaults of the device are kept otherwise. \<open>headroom\<close> is \<open>RTE_PKTMBUF_HEADROOM\<close>.
\<close>

record queue_conf =
  defaults :: nat
  offloads :: u64

record rte_eth_dev_info =
  default_txconf :: queue_conf
  default_rxconf :: queue_conf

record rte_eth_conf =
  txmode_offloads :: u64
  rxmode_offloads :: u64

record environment =
  rte_eal_init :: "int \<Rightarrow> string list \<Rightarrow> int"
  rte_eth_dev_count_avail :: nat
  rte_socket_id :: int
  headroom :: u16
  rte_pktmbuf_pool_create :: "string \<Rightarrow> u32 \<Rightarrow> u32 \<Rightarrow> u16 \<Rightarrow> u16 \<Rightarrow> int \<Rightarrow> nat option"
  rte_eth_dev_info_get :: "u16 \<Rightarrow> int \<times> rte_eth_dev_info"
  rte_eth_dev_adjust_nb_rx_tx_desc :: "u16 \<Rightarrow> u16 \<Rightarrow> u16 \<Rightarrow> int \<times> u16 \<times> u16"
  rte_eth_dev_configure :: "u16 \<Rightarrow> u16 \<Rightarrow> u16 \<Rightarrow> rte_eth_conf \<Rightarrow> int"
  rte_eth_tx_queue_setup :: "u16 \<Rightarrow> u16 \<Rightarrow> u16 \<Rightarrow> int \<Rightarrow> queue_conf \<Rightarrow> int"
  rte_eth_rx_queue_setup :: "u16 \<Rightarrow> u16 \<Rightarrow> u16 \<Rightarrow> int \<Rightarrow> queue_conf \<Rightarrow> nat option \<Rightarrow> int"
  rte_eth_dev_start :: "u16 \<Rightarrow> int"
  pin_main :: int
  pin_consumer :: "int \<Rightarrow> int"

record DPDKContext =
  pool :: "nat option"
  port_id :: u16

definition setup_eal :: "environment \<Rightarrow> int \<times> string list \<Rightarrow> (int \<times> string list) result" where
  "setup_eal E args =
     (let (argc, argv) = args; eal_argc = rte_eal_init E argc argv
      in if eal_argc < 0 then Inl (Runtime_Error ''EAL init failed'')
         else if rte_eth_dev_count_avail E = 0 then Inl (Runtime_Error ''Specify a vdev device'')
         else Inr (argc - eal_argc, drop (nat eal_argc) argv))"

definition create_pool :: "environment \<Rightarrow> nat option" where
  "create_pool E = rte_pktmbuf_pool_create E ''mbuf_pool'' 8191 256 0 (headroom E + 2048) (rte_socket_id E)"

definition setup_mempool :: "environment \<Rightarrow> DPDKContext \<Rightarrow> DPDKContext result" where
  "setup_mempool E d =
     (let d1 = d\<lparr>pool := create_pool E\<rparr>
      in if pool d1 = None then Inl (Runtime_Error (''mempool creation failed'' @ [CHR 0x0A])) else Inr d1)"

definition throw_if :: "bool \<Rightarrow> string \<Rightarrow> unit result" where
  "throw_if b message = (if b then Inl (Runtime_Error message) else Inr ())"

definition setup_eth_device :: "environment \<Rightarrow> DPDKContext \<Rightarrow> u16 \<Rightarrow> unit result" where
  "setup_eth_device E d port =
     (let (info_result, dev_info) = rte_eth_dev_info_get E port;
          (desc_result, rx_desc, tx_desc) = rte_eth_dev_adjust_nb_rx_tx_desc E port 1024 1024;
          conf = \<lparr>txmode_offloads = 0, rxmode_offloads = 0\<rparr>;
          txconf = (default_txconf dev_info)\<lparr>offloads := 0\<rparr>;
          rxconf = (default_rxconf dev_info)\<lparr>offloads := 0\<rparr>
      in
     rbind (throw_if (info_result \<noteq> 0) ''dev info failed'') (\<lambda>_.
     rbind (throw_if (desc_result \<noteq> 0) ''adjust nb desc failed'') (\<lambda>_.
     rbind (throw_if (rte_eth_dev_configure E port 1 1 conf < 0) ''dev configure failed'') (\<lambda>_.
     rbind (throw_if (rte_eth_tx_queue_setup E port 0 tx_desc (rte_socket_id E) txconf \<noteq> 0) ''tx queue failed'') (\<lambda>_.
     rbind (throw_if (rte_eth_rx_queue_setup E port 0 rx_desc (rte_socket_id E) rxconf (pool d) \<noteq> 0)
              ''rx queue failed'') (\<lambda>_.
       throw_if (rte_eth_dev_start E port < 0) ''dev start failed''))))))"

section \<open>\<open>main\<close>\<close>

text \<open>
  Starting the threads. When a thread cannot be pinned \<open>main\<close> returns at once, and the destruction of
  the threads already started, which are joinable, terminates the process.
\<close>

fun start_consumers :: "environment \<Rightarrow> StrategyConsumerConfig list \<Rightarrow> unit result" where
  "start_consumers E [] = Inr ()"
| "start_consumers E (cfg # cfgs) =
     (if pin_consumer E (cpu cfg) \<noteq> 0 then Inl Aborted else start_consumers E cfgs)"

text \<open>
  How the threads end: an abort or an uncaught exception in any of them ends the process (which of
  several comes first is not modelled), and \<open>join\<close> does not return for a thread that runs for ever.
\<close>

fun first_error :: "'a result option list \<Rightarrow> error option" where
  "first_error [] = None"
| "first_error (Some (Inl e) # rs) = Some e"
| "first_error (r # rs) = first_error rs"

definition join_all :: "'a result option list \<Rightarrow> bool" where
  "join_all rs = list_all (\<lambda>r. case r of None \<Rightarrow> False | Some _ \<Rightarrow> True) rs"

text \<open>
  What the program meets while it runs: the two readings of the clock and of the counter, the bursts,
  the timer of the receive loop and its frequency, the readings of the counter by the handler and by
  each thread, the queue as each thread finds it at its attempts to pop, and whether its file opens.
\<close>

record run =
  clock0 :: timespec
  count0 :: u64
  clock1 :: timespec
  count1 :: u64
  rx_burst :: "nat \<Rightarrow> rte_mbuf list"
  timer :: "nat \<Rightarrow> u64"
  hz :: u64
  handler_rdtscp :: "nat \<Rightarrow> u64"
  thread_rdtscp :: "nat \<Rightarrow> nat \<Rightarrow> u64"
  thread_queue :: "nat \<Rightarrow> nat \<Rightarrow> StrategyMsg SPMCQueue"
  file_opens :: "nat \<Rightarrow> bool"

definition empty_queue :: "StrategyMsg SPMCQueue" where
  "empty_queue = spmc_init Stop"

definition consumer_results :: "run \<Rightarrow> u64 \<Rightarrow> (u64 \<times> nat \<times> string \<times> int) result option list" where
  "consumer_results R freq =
     map (\<lambda>i. strategy_thread_run (thread_queue R i) (thread_rdtscp R i) freq (file_opens R i)
            (make_consumer empty_queue))
       [0..<length consumer_configs]"

definition main_from_threads ::
    "(u64, Order, 'm) flat_hash_map \<Rightarrow> environment \<Rightarrow> run \<Rightarrow> u64 \<Rightarrow> int result option" where
  "main_from_threads H E R rdtscp_freq =
     (case start_consumers E consumer_configs of
        Inl e \<Rightarrow> Some (Inl e)
      | Inr _ \<Rightarrow>
          (case first_error (consumer_results R rdtscp_freq) of
             Some e \<Rightarrow> Some (Inl e)
           | None \<Rightarrow>
               (case ingest_messages (production_ops H (handler_rdtscp R)) should_stop (rx_burst R)
                       (timer R) (hz R)
                       (ingest_init (timer R) (handler_init instrument_config (\<lambda>_. empty_queue))) of
                  None \<Rightarrow> None
                | Some (Inl e) \<Rightarrow> Some (Inl e)
                | Some (Inr _) \<Rightarrow> if join_all (consumer_results R rdtscp_freq) then Some (Inr 0) else None)))"

text \<open>The exit code, or the error that ends the process.\<close>

definition main_program ::
    "(u64, Order, 'm) flat_hash_map \<Rightarrow> environment \<Rightarrow> run \<Rightarrow> int \<times> string list \<Rightarrow> int result option" where
  "main_program H E R args =
     (if pin_main E \<noteq> 0 then Some (Inr 1)
      else
        (case rbind (setup_eal E args) (\<lambda>a.
              rbind (setup_mempool E \<lparr>pool = None, port_id = 0\<rparr>) (\<lambda>d.
              rbind (setup_eth_device E d 0) (\<lambda>_. Inr a))) of
           Inl e \<Rightarrow> Some (Inl e)
         | Inr (argc, argv) \<Rightarrow>
             if argc \<noteq> 2 then Some (Inr 1)
             else
               (case calibrate_tsc (clock0 R) (count0 R) (clock1 R) (count1 R) of
                  Inl e \<Rightarrow> Some (Inl e)
                | Inr rdtscp_freq \<Rightarrow> main_from_threads H E R rdtscp_freq)))"

section \<open>When everything is in order\<close>

text \<open>The calls for port 0 succeed; the queues have the numbers of descriptors the device has agreed to.\<close>

definition device_ready :: "environment \<Rightarrow> bool" where
  "device_ready E \<longleftrightarrow>
     (\<exists>tx rx rx_desc tx_desc.
        rte_eth_dev_info_get E 0 = (0, \<lparr>default_txconf = tx, default_rxconf = rx\<rparr>) \<and>
        rte_eth_dev_adjust_nb_rx_tx_desc E 0 1024 1024 = (0, rx_desc, tx_desc) \<and>
        0 \<le> rte_eth_dev_configure E 0 1 1 \<lparr>txmode_offloads = 0, rxmode_offloads = 0\<rparr> \<and>
        rte_eth_tx_queue_setup E 0 0 tx_desc (rte_socket_id E) (tx\<lparr>offloads := 0\<rparr>) = 0 \<and>
        rte_eth_rx_queue_setup E 0 0 rx_desc (rte_socket_id E) (rx\<lparr>offloads := 0\<rparr>) (create_pool E) = 0 \<and>
        0 \<le> rte_eth_dev_start E 0)"

definition ready :: "environment \<Rightarrow> int \<times> string list \<Rightarrow> bool" where
  "ready E args \<longleftrightarrow>
     pin_main E = 0 \<and> 0 \<le> rte_eal_init E (fst args) (snd args) \<and> rte_eth_dev_count_avail E \<noteq> 0 \<and>
     create_pool E \<noteq> None \<and> device_ready E \<and> fst args - rte_eal_init E (fst args) (snd args) = 2 \<and>
     list_all (\<lambda>cfg. pin_consumer E (cpu cfg) = 0) consumer_configs"

lemma device_ready_setup: "device_ready E \<Longrightarrow> setup_eth_device E \<lparr>pool = create_pool E, port_id = 0\<rparr> 0 = Inr ()"
  by (auto simp: device_ready_def setup_eth_device_def throw_if_def Let_def)

text \<open>
  Every thread finds its queue growing from empty to what the handler leaves at the end, never falls
  more than a round behind, and can open its file; its instrument has had a directory entry.
\<close>

definition thread_served :: "run \<Rightarrow> 'm Handler \<Rightarrow> nat \<Rightarrow> bool" where
  "thread_served R h i \<longleftrightarrow>
     file_opens R i \<and>
     (\<exists>log T. feeds (thread_queue R i) log \<and> log 0 = [] \<and> keeps_up log 0 0 \<and>
        thread_queue R i T = queues h (StrategyConsumerConfig.queue (consumer_configs ! i)) \<and>
        StrategyConsumerConfig.queue (consumer_configs ! i) \<in> ran (locate_to_queue h))"

definition served :: "run \<Rightarrow> 'm Handler \<Rightarrow> bool" where
  "served R h \<longleftrightarrow> (\<forall>i < length consumer_configs. thread_served R h i)"

lemma start_consumers_ready: "list_all (\<lambda>cfg. pin_consumer E (cpu cfg) = 0) cfgs \<Longrightarrow> start_consumers E cfgs = Inr ()"
  by (induction cfgs) simp_all

text \<open>A queue determines the length of its log and the last entry.\<close>

lemma of_nat_length: "log_ok q log \<Longrightarrow> unat (of_nat (length log) :: u64) = length log"
  by (simp add: log_ok_def unat_of_nat take_bit_nat_eq_self)

lemma log_ok_end:
  assumes "log_ok q log" and "log \<noteq> []"
  shows "last log = data q ((length log - 1) mod ring_slots)"
proof -
  have "length log - 1 < length log" "length log \<le> length log - 1 + ring_slots"
    using assms(2) by (simp_all add: ring_slots_def)
  then have "data q ((length log - 1) mod ring_slots) = log ! (length log - 1)"
    using assms(1) unfolding log_ok_def by blast
  then show ?thesis using assms(2) by (simp add: last_conv_nth)
qed

lemma log_ok_last:
  assumes "log_ok q log" and "log_ok q log'" and "log \<noteq> []"
  shows "log' \<noteq> [] \<and> last log' = last log"
proof -
  have "(of_nat (length log) :: u64) = of_nat (length log')" using assms(1,2) by (simp add: log_ok_def)
  then have len: "length log = length log'"
    using of_nat_length [OF assms(1)] of_nat_length [OF assms(2)] by metis
  with assms(3) have "log' \<noteq> []" by auto
  with len log_ok_end [OF assms(1,3)] log_ok_end [OF assms(2)] show ?thesis by simp
qed

lemma thread_ends:
  assumes "f \<noteq> 0" and "thread_served R h i" and "stopped h logs"
  shows "\<exists>out. strategy_thread_run (thread_queue R i) rdtscp f (file_opens R i) (make_consumer empty_queue) =
    Some (Inr out)"
proof -
  let ?q = "StrategyConsumerConfig.queue (consumer_configs ! i)"
  obtain log T where log: "feeds (thread_queue R i) log" "log 0 = []" "keeps_up log 0 0"
    "thread_queue R i T = queues h ?q" "?q \<in> ran (locate_to_queue h)"
    using assms(2) by (auto simp: thread_served_def)
  have "log_ok (queues h ?q) (logs ?q)" "logs ?q \<noteq> []" "last (logs ?q) = Stop"
    using assms(3) log(5) by (auto simp: stopped_def)
  moreover have "log_ok (queues h ?q) (log T)" using log(1,4) unfolding feeds_def by metis
  ultimately have "log T \<noteq> []" "last (log T) = Stop" using log_ok_last by metis+
  then have "Stop \<in> set (drop 0 (log T))" by (metis drop0 last_in_set)
  moreover have "consumer_at (make_consumer empty_queue) 0"
    by (simp add: consumer_at_def make_consumer_def empty_queue_def spmc_init_def)
  moreover have "file_opens R i" using assms(2) by (simp add: thread_served_def)
  ultimately show ?thesis
    using thread_run_ends [OF assms(1) log(1,3), of "make_consumer empty_queue" T rdtscp "file_opens R i"]
    unfolding Let_def by auto
qed

lemma first_error_None:
  "\<forall>r \<in> set rs. \<exists>x. r = Some (Inr x) \<Longrightarrow> first_error rs = None \<and> join_all rs"
  by (induction rs) (auto simp: join_all_def)

section \<open>The end of \<open>main\<close>\<close>

lemma main_ends:
  fixes H :: "(u64, Order, 'm) flat_hash_map"
  assumes ready: "ready E args" and f: "calibrate_tsc (clock0 R) (count0 R) (clock1 R) (count1 R) = Inr f" "f \<noteq> 0"
    and ing: "ingest_messages (production_ops H (handler_rdtscp R)) should_stop (rx_burst R) (timer R) (hz R)
      (ingest_init (timer R) (handler_init instrument_config (\<lambda>_. empty_queue))) = Some (Inr s)"
    and served: "served R (handler s)" and stopped: "stopped (handler s) logs"
  shows "main_program H E R args = Some (Inr 0)"
proof -
  have "\<exists>out. strategy_thread_run (thread_queue R i) (thread_rdtscp R i) f (file_opens R i)
      (make_consumer empty_queue) = Some (Inr out)" if "i < length consumer_configs" for i
    using served that by (intro thread_ends [OF f(2) _ stopped]) (simp add: served_def)
  then have "\<forall>r \<in> set (consumer_results R f). \<exists>out. r = Some (Inr out)"
    unfolding consumer_results_def by simp
  from first_error_None [OF this]
  have threads: "first_error (consumer_results R f) = None" "join_all (consumer_results R f)" by simp_all
  obtain argc argv p where args: "args = (argc, argv)" and p: "create_pool E = Some p"
    using ready by (cases args) (auto simp: ready_def)
  have device: "setup_eth_device E \<lparr>pool = Some p, port_id = 0\<rparr> 0 = Inr ()"
    using ready device_ready_setup [of E] p by (simp add: ready_def)
  have "main_program H E R args = main_from_threads H E R f"
    using ready f(1) p device by (simp add: main_program_def ready_def args setup_eal_def setup_mempool_def)
  also have "\<dots> = Some (Inr 0)"
    using ready ing threads by (simp add: main_from_threads_def ready_def start_consumers_ready)
  finally show ?thesis .
qed

section \<open>Properties\<close>

text \<open>
  C40. The program runs through a trading day and exits with the code 0, provided that
  \<^item> the setup succeeds (threads pinned, the calls of DPDK successful, one argument left) and the calibration
    of the counter returns a frequency that is not 0;
  \<^item> the card delivers the packets of a day of fewer than \<open>2 ^ 47\<close> messages, each well-formed and in order
    for the books, the end event the last one and only then;
  \<^item> and, with the state the receive loop leaves, for every strategy thread: its output file opens, its
    instrument has had its directory entry, and its queue, as the thread sees it, grows by pushes from
    empty to what the handler leaves, never more than a round ahead of the thread.

  Then the receive loop returns, every thread ends, and so does \<open>main\<close>.
\<close>

theorem main_returns_zero:
  fixes H :: "(u64, Order, 'm) flat_hash_map"
  assumes "flat_hash_map_laws H" and "ready E args"
    and "calibrate_tsc (clock0 R) (count0 R) (clock1 R) (count1 R) = Inr f" and "f \<noteq> 0"
    and "carried (rx_burst R) day" and "ends_day day" and "list_all msg_ok (concat (concat day))"
    and "length (concat (concat day)) < 2 ^ 47"
    and "msgs_valid H (handler_rdtscp R) (map as_loaded (concat (concat day)))
      (handler_init instrument_config (\<lambda>_. empty_queue))"
    and "\<forall>s. ingest_messages (production_ops H (handler_rdtscp R)) should_stop (rx_burst R) (timer R) (hz R)
        (ingest_init (timer R) (handler_init instrument_config (\<lambda>_. empty_queue))) = Some (Inr s) \<longrightarrow>
      served R (handler s)"
  shows "main_program H E R args = Some (Inr 0)"
proof -
  have "\<forall>cfg \<in> set instrument_config. InstrumentConfig.queue cfg \<noteq> None"
    by (simp add: instrument_config_def)
  from ingest_day [OF assms(1) this assms(5-8), of "handler_rdtscp R" Stop] assms(9) obtain s logs where
    "ingest_messages (production_ops H (handler_rdtscp R)) should_stop (rx_burst R) (timer R) (hz R)
        (ingest_init (timer R) (handler_init instrument_config (\<lambda>_. empty_queue))) = Some (Inr s)"
    "stopped (handler s) logs"
    unfolding empty_queue_def by blast
  with assms(2-4,10) show ?thesis by (intro main_ends) auto
qed

text \<open>A day of two directory entries and the end event.\<close>

definition main_directory :: "u16 \<Rightarrow> string \<Rightarrow> StockDirectory" where
  "main_directory l str = StockDirectory_uninit\<lparr>StockDirectory.stock_locate := l, StockDirectory.stock := str,
     StockDirectory.issue_sub_type := ''Z ''\<rparr>"

definition main_morning :: "itch_msg list" where
  "main_morning =
     [Msg_StockDirectory (main_directory 7 ''NVDA    ''), Msg_StockDirectory (main_directory 9 ''AAPL    '')]"

definition main_day :: "itch_msg list list list" where
  "main_day = [[main_morning], [[Msg_SystemEvent sample_end]]]"

definition main_bursts :: "nat \<Rightarrow> rte_mbuf list" where
  "main_bursts k =
     (if k = 0 then [sample_packet main_morning]
      else if k = 1 then [sample_packet [Msg_SystemEvent sample_end]] else [])"

definition main_environment :: environment where
  "main_environment =
     \<lparr>rte_eal_init = (\<lambda>argc argv. 3), rte_eth_dev_count_avail = 1, rte_socket_id = 0, headroom = 128,
      rte_pktmbuf_pool_create = (\<lambda>name n cache priv size socket. Some 1),
      rte_eth_dev_info_get = (\<lambda>port. (0, \<lparr>default_txconf = \<lparr>defaults = 1, offloads = 2\<rparr>,
        default_rxconf = \<lparr>defaults = 3, offloads = 4\<rparr>\<rparr>)),
      rte_eth_dev_adjust_nb_rx_tx_desc = (\<lambda>port rx tx. (0, min rx 512, tx)),
      rte_eth_dev_configure = (\<lambda>port rx tx conf. 0),
      rte_eth_tx_queue_setup = (\<lambda>port q desc socket conf. 0),
      rte_eth_rx_queue_setup = (\<lambda>port q desc socket conf p. if p = None then - 22 else 0),
      rte_eth_dev_start = (\<lambda>port. 0), pin_main = 0, pin_consumer = (\<lambda>_. 0)\<rparr>"

definition main_run :: run where
  "main_run =
     \<lparr>clock0 = reading 0, count0 = 7, clock1 = \<lparr>tv_sec = 8, tv_nsec = 80\<rparr>, count1 = 3100000000,
      rx_burst = main_bursts, timer = of_nat, hz = 5, handler_rdtscp = of_nat,
      thread_rdtscp = (\<lambda>i t. of_nat t), 
      thread_queue = (\<lambda>i t. if t = 0 then empty_queue else push empty_queue Stop),
      file_opens = (\<lambda>_. True)\<rparr>"

lemma main_day_msgs: "concat (concat main_day) = main_morning @ [Msg_SystemEvent sample_end]"
  by (simp add: main_day_def)

lemma main_morning_ok: "list_all msg_ok main_morning"
  by code_simp

lemma main_carried: "carried main_bursts main_day"
proof -
  have "length (concat (map frame main_morning)) \<le> 104"
    using main_morning_ok msg_size_bound [of "Msg_StockDirectory (main_directory 7 ''NVDA    '')"]
      msg_size_bound [of "Msg_StockDirectory (main_directory 9 ''AAPL    '')"]
    by (simp add: main_morning_def length_frame)
  then have morning: "carries (sample_packet main_morning) main_morning"
    by (intro sample_packet_carries) simp
  have "length (frame (Msg_SystemEvent sample_end)) \<le> 52"
    using msg_size_bound [of "Msg_SystemEvent sample_end"] by (simp add: length_frame [OF sample_end_ok])
  then have evening: "carries (sample_packet [Msg_SystemEvent sample_end]) [Msg_SystemEvent sample_end]"
    by (intro sample_packet_carries) simp
  have "list_all2 carries (main_bursts k) (main_day ! k)" if "k = 0 \<or> k = 1" for k
    using that morning evening by (auto simp: main_bursts_def main_day_def)
  moreover have "k = 0 \<or> k = 1" if "k < length main_day" for k
    using that by (auto simp: main_day_def)
  ultimately show ?thesis unfolding carried_def by blast
qed

lemma main_symbols: "pad_symbol ''NVDA'' = ''NVDA    ''" "pad_symbol ''AAPL'' = ''AAPL    ''"
  by code_simp+

lemma distinct_locates: "distinct all_locates"
  unfolding all_locates_def distinct_map
proof (intro conjI inj_onI distinct_upt)
  fix x y assume xy: "x \<in> set [0..<65536]" "y \<in> set [0..<65536]" and eq: "(of_nat x :: u16) = of_nat y"
  have "unat (of_nat z :: u16) = z" if "z \<in> set [0..<65536]" for z
  proof -
    from that have "z < 65536" by (simp only: set_upt atLeastLessThan_iff)
    then show ?thesis by (simp add: unat_of_nat take_bit_nat_eq_self)
  qed
  from this [OF xy(1)] this [OF xy(2)] show "x = y" unfolding eq by (rule trans [OF sym])
qed

lemma stops_for_one:
  assumes "locate_to_queue h l = Some i" and "\<And>k. locate_to_queue h k = Some i \<Longrightarrow> k = l"
  shows "stops_for h all_locates i = 1"
proof -
  have "stops_for h all_locates i = card ({k. locate_to_queue h k = Some i} \<inter> set all_locates)"
    unfolding stops_for_def by (rule distinct_length_filter [OF distinct_locates])
  also have "{k. locate_to_queue h k = Some i} \<inter> set all_locates = {l}"
    using assms all_locates_all by blast
  finally show ?thesis by simp
qed

lemma main_morning_handled:
  "\<exists>h. handle_msgs (production_ops alist_hash_map clk) (map as_loaded main_morning)
       (handler_init instrument_config (\<lambda>_. empty_queue)) = Inr h \<and>
     locate_to_queue h = [7 \<mapsto> 0, 9 \<mapsto> 1] \<and> queues h = (\<lambda>_. empty_queue)"
  by (simp add: main_morning_def main_directory_def handle_msg_def production_ops_def
      handle_StockDirectory_def handler_init_def instrument_config_def nvda_queue_def aapl_queue_def
      emplace_instrument_def main_symbols handle_before_msg_def Let_def)

lemma main_morning_valid:
  "msgs_valid alist_hash_map clk (map as_loaded main_morning)
     (handler_init instrument_config (\<lambda>_. empty_queue))"
  by (simp add: main_morning_def main_directory_def msg_valid_def handle_msg_def production_ops_def
      handle_StockDirectory_def handler_init_def instrument_config_def nvda_queue_def aapl_queue_def
      emplace_instrument_def main_symbols handle_before_msg_def Let_def split: sum.split)

lemma main_day_handled:
  "\<exists>h. handle_msgs (production_ops alist_hash_map clk) (map as_loaded (concat (concat main_day)))
       (handler_init instrument_config (\<lambda>_. empty_queue)) = Inr h \<and>
     last_message h \<and> locate_to_queue h = [7 \<mapsto> 0, 9 \<mapsto> 1] \<and>
     queues h 0 = push empty_queue Stop \<and> queues h 1 = push empty_queue Stop"
proof -
  obtain h where h: "handle_msgs (production_ops alist_hash_map clk) (map as_loaded main_morning)
       (handler_init instrument_config (\<lambda>_. empty_queue)) = Inr h"
    "locate_to_queue h = [7 \<mapsto> 0, 9 \<mapsto> 1]" "queues h = (\<lambda>_. empty_queue)"
    using main_morning_handled by blast
  let ?h1 = "(handle_before_msg clk h)\<lparr>last_message := True\<rparr>"
  let ?h2 = "?h1\<lparr>queues := \<lambda>i. foldl push (queues ?h1 i) (replicate (stops_for ?h1 all_locates i) Stop)\<rparr>"
  have end_msg: "handle_msg (production_ops alist_hash_map clk) (as_loaded (Msg_SystemEvent sample_end)) h = Inr ?h2"
    by (simp add: handle_msg_def production_ops_def handle_SystemEvent_def sample_end_def stop_all_eq)
  have l: "locate_to_queue ?h1 = [7 \<mapsto> 0, 9 \<mapsto> 1]" "queues ?h1 = (\<lambda>_. empty_queue)"
    using h(2,3) by (simp_all add: handle_before_msg_def)
  have "stops_for ?h1 all_locates 0 = 1"
    by (rule stops_for_one [of _ 7]) (auto simp: l split: if_splits)
  moreover have "stops_for ?h1 all_locates 1 = 1"
    by (rule stops_for_one [of _ 9]) (auto simp: l split: if_splits)
  ultimately have "queues ?h2 0 = push empty_queue Stop" "queues ?h2 1 = push empty_queue Stop"
    using l(2) by simp_all
  moreover have "handle_msgs (production_ops alist_hash_map clk) (map as_loaded (concat (concat main_day)))
       (handler_init instrument_config (\<lambda>_. empty_queue)) = Inr ?h2"
    unfolding main_day_msgs using h(1) end_msg by (simp add: handle_msgs_append)
  moreover have "locate_to_queue ?h2 = [7 \<mapsto> 0, 9 \<mapsto> 1]" "last_message ?h2"
    using l(1) by simp_all
  ultimately show ?thesis by blast
qed

lemma main_ends_day: "ends_day main_day"
  unfolding ends_day_def main_day_msgs
  by (simp add: main_day_def sample_end_def main_morning_def)

lemma main_msgs_valid:
  "msgs_valid alist_hash_map clk (map as_loaded (concat (concat main_day)))
     (handler_init instrument_config (\<lambda>_. empty_queue))"
proof -
  have "msgs_valid alist_hash_map clk [as_loaded (Msg_SystemEvent sample_end)] h" for h
    by (simp add: msg_valid_def split: sum.split)
  then show ?thesis
    unfolding main_day_msgs map_append msgs_valid_append
    using main_morning_valid by (auto split: sum.split)
qed

lemma main_queue_grows:
  "feeds (\<lambda>t. if t = 0 then empty_queue else push empty_queue Stop) (\<lambda>t. if t = 0 then [] else [Stop])"
  using push_log_ok [OF log_ok_init, of Stop Stop]
  by (simp add: feeds_def empty_queue_def log_ok_init)

lemma main_served:
  assumes "locate_to_queue h = [7 \<mapsto> 0, 9 \<mapsto> 1]" and "queues h 0 = push empty_queue Stop"
    and "queues h 1 = push empty_queue Stop"
  shows "served main_run h"
proof -
  have "locate_to_queue h 7 = Some 0" "locate_to_queue h 9 = Some 1" using assms(1) by simp_all
  then have ran: "0 \<in> ran (locate_to_queue h)" "1 \<in> ran (locate_to_queue h)" by (blast intro: ranI)+
  have "keeps_up (\<lambda>t. if t = 0 then [] else [Stop]) 0 0"
    by (simp add: keeps_up_def ring_slots_def)
  moreover have "StrategyConsumerConfig.queue (consumer_configs ! i) \<in> {0, 1}"
    if "i < length consumer_configs" for i
    using that by (auto simp: consumer_configs_def add_strategy_consumers_def nvda_queue_def aapl_queue_def
        nth_append nth_Cons' split: if_splits)
  ultimately have "queues h (StrategyConsumerConfig.queue (consumer_configs ! i)) = push empty_queue Stop \<and>
      StrategyConsumerConfig.queue (consumer_configs ! i) \<in> ran (locate_to_queue h) \<and>
      keeps_up (\<lambda>t. if t = 0 then [] else [Stop]) 0 0"
    if "i < length consumer_configs" for i
    using that assms(2,3) ran by (metis insertE singletonD)
  then have "thread_served main_run h i" if "i < length consumer_configs" for i
    using that main_queue_grows unfolding thread_served_def
    by (intro conjI exI [of _ "\<lambda>t. if t = 0 then [] else [Stop]"] exI [of _ 1]) (simp_all add: main_run_def)
  then show ?thesis unfolding served_def by blast
qed

lemma main_ingest_state:
  assumes "ingest_messages (production_ops alist_hash_map (handler_rdtscp main_run)) should_stop (rx_burst main_run)
      (timer main_run) (hz main_run)
      (ingest_init (timer main_run) (handler_init instrument_config (\<lambda>_. empty_queue))) = Some (Inr s)"
  shows "served main_run (handler s)"
proof -
  obtain h where h: "handle_msgs (production_ops alist_hash_map (handler_rdtscp main_run))
      (map as_loaded (concat (concat main_day))) (handler_init instrument_config (\<lambda>_. empty_queue)) = Inr h"
    "last_message h" "locate_to_queue h = [7 \<mapsto> 0, 9 \<mapsto> 1]" "queues h 0 = push empty_queue Stop"
    "queues h 1 = push empty_queue Stop"
    using main_day_handled by blast
  let ?s0 = "ingest_init (timer main_run) (handler_init instrument_config (\<lambda>_. empty_queue))"
  have go: "goes_on (production_ops alist_hash_map (handler_rdtscp main_run)) should_stop main_day (handler ?s0)"
    by (rule ends_day_goes_on [OF main_ends_day]) (simp add: handler_init_def ingest_init_def)
  have ok: "list_all msg_ok (concat (concat main_day))"
    using main_morning_ok sample_end_ok by (simp add: main_day_msgs)
  have bursts: "list_all2 carries (rx_burst main_run (bursts_read ?s0 + k)) (main_day ! k)"
    if "k < length main_day" for k
    using main_carried that by (simp add: carried_def main_run_def ingest_init_def)
  have s0: "handler ?s0 = handler_init instrument_config (\<lambda>_. empty_queue)" by (simp add: ingest_init_def)
  have "should_stop h" using h(2) by (simp add: should_stop_def)
  from ingest_messages_returns [OF bursts ok go, unfolded s0, OF _ h(1) this]
  obtain s' where s': "ingest_messages (production_ops alist_hash_map (handler_rdtscp main_run)) should_stop
      (rx_burst main_run) (timer main_run) (hz main_run) ?s0 = Some (Inr s')" "handler s' = h"
    by blast
  have "s = s'" using assms s'(1) by simp
  with main_served [of h] h(3-5) s'(2) show ?thesis by simp
qed

theorem main_returns_zero_witness:
  "main_program alist_hash_map main_environment main_run (5, [''engine'', ''-l'', ''0'', ''nvda.csv'', ''aapl.csv'']) =
     Some (Inr 0)"
proof (rule main_returns_zero)
  show "ready main_environment (5, [''engine'', ''-l'', ''0'', ''nvda.csv'', ''aapl.csv''])"
    by (simp add: ready_def device_ready_def create_pool_def main_environment_def consumer_configs_def
        add_strategy_consumers_def)
  show "calibrate_tsc (clock0 main_run) (count0 main_run) (clock1 main_run) (count1 main_run) = Inr 3099999745"
    by (simp add: main_run_def reading_def timespec_ns_def calibrate_tsc_def Let_def)
  show "carried (rx_burst main_run) main_day" using main_carried by (simp add: main_run_def)
  show "ends_day main_day" by (rule main_ends_day)
  show "list_all msg_ok (concat (concat main_day))"
    using main_morning_ok sample_end_ok by (simp add: main_day_msgs)
  show "length (concat (concat main_day)) < 2 ^ 47" by (simp add: main_day_msgs main_morning_def)
qed (rule alist_hash_map_laws main_msgs_valid | simp | use main_ingest_state in blast)+

end
