(* ===== verification/Spec2Isabelle.thy ===== *)
theory Spec2Isabelle
  imports Parser_Correct Book_Correct Spsc_Threads Spmc_Tso Handler_Correct
    Single_Book Levels_Agree Map_Levels
    Decoded Example_Benchmarks Main_Program
begin

text \<open>
  Verification of the ITCH ingestion engine, a program that receives NASDAQ ITCH 5.0 market data from a
  network card, keeps the order books of the instruments it subscribes to and broadcasts every change of
  a best bid or ask to strategy threads. Paths below are relative to the repository's root.

  \<^bold>\<open>How the program works.\<close> \<open>main\<close> (\<open>src/main.cpp\<close>) sets up the card (\<open>src/dpdk_context.cpp\<close>), calibrates
  the time stamp counter (\<open>src/benchmarks/benchmark_utils.cpp\<close>), starts the strategy threads and runs
  \<open>Ingestor::ingest_messages\<close> (\<open>include/ingestor.hpp\<close>). That loop strips the headers of every packet and
  gives the payload to \<open>ItchParser::parse\<close> (\<open>include/itch_parser.hpp\<close>), which walks over the length-prefixed
  frames, dispatches on the type byte and calls the matching \<open>handle\<close> of the handler
  (\<open>include/handler.hpp\<close>). The handler finds the book and the queue of the instrument by its locate code,
  lets the book (\<open>include/order_book.hpp\<close>, over a level container of \<open>include/levels\<close>) carry out the
  operation and pushes the best level it changed into the instrument's queue (\<open>include/spmc_queue.hpp\<close>).
  A strategy thread pops the updates and counts their latencies until the handler, at the end event of the
  day, pushes \<open>Stop\<close>; then the receive loop returns and \<open>main\<close> joins the threads.

  \<^bold>\<open>Conventions.\<close> A C++ integer is a word of its width (\<open>u16\<close>, \<open>u32\<close>, \<open>u64\<close>), so sums wrap around as they do
  there; \<open>size_t\<close> values that index memory are \<open>nat\<close>. A struct is a record with the member names of the
  source, an \<open>enum class\<close> a datatype. An operation that can stop the program returns \<open>error + 'a\<close>: \<open>UNEXPECTED\<close>
  and \<open>std::abort\<close>, exceptions, divisions by zero and accesses outside an object are values of \<open>error\<close>
  (\<open>Prelude\<close>). Memory is a list of bytes, and a read past its end is an error, never an unspecified value. A loop
  that ends is a \<open>fun\<close> or a \<open>function\<close> with its measure; one that may poll for ever (\<open>ingest_messages\<close>,
  \<open>consumer_loop\<close>, and the searches of \<open>MapLevels\<close> before they are proved to end) is a
  \<open>partial_function (option)\<close> whose \<open>None\<close> means that it does not return.
  Nothing is run with fuel.
\<close>

text \<open>
  \<^bold>\<open>The theories and the code they model.\<close>

  \<^item> \<open>Prelude\<close>: machine types, \<open>error\<close> and its bind \<open>rbind\<close>, lists and bytes.
  \<^item> \<open>Wire\<close>: \<open>load_be\<close> in its five widths, \<open>Field\<close>, \<open>OffsetAt\<close> and \<open>parse_impl\<close> of \<open>itch_parser.hpp\<close>, with an
    encoder written as a reference. \<open>Messages\<close>: the 22 message structs and their layouts, and their sum
    \<open>itch_msg\<close>. \<open>Parser\<close>: \<open>make_dispatch\<close>, \<open>bad_type\<close>, \<open>dispatch\<close>, \<open>parse\<close>, over a record of handler
    operations. \<open>Parser_Correct\<close>: framing, bounds and errors. \<open>Decoded\<close>: what a parsed message is on arbitrary bytes.
  \<^item> \<open>Order_Shared\<close>: \<open>order_book_shared.hpp\<close>. \<open>Order_Book\<close>: \<open>order_book.hpp\<close> over any level container and any hash
    map, and the abstract book, a finite map of live orders. \<open>Book_Correct\<close>: the refinement of the one by the
    other. \<open>Single_Book\<close>: \<open>single_strat_order_book.hpp\<close>, the book that pushes into its own queue.
  \<^item> \<open>Absl\<close>: the behaviour of \<open>absl::flat_hash_map\<close> as operations with laws, and an association list that has it.
  \<^item> \<open>Search\<close>: \<open>std::lower_bound\<close>. \<open>Levels_Spec\<close>: the depth of one side, a map from prices to
    quantities, and the contract \<open>best_levels\<close> the book relies on. \<open>Split_Levels\<close>:
    \<open>levels/vector_levels_b_search_split.hpp\<close>, the container of the production handler.
  \<^item> \<open>Level_Stores\<close>: the contracts of the other containers. \<open>Vector_Levels\<close>: \<open>vector_level_b_search.hpp\<close>,
    \<open>vector_level.hpp\<close>. \<open>Array_Levels\<close>: \<open>array_level_binary_search.hpp\<close>, \<open>array_level.hpp\<close>.
    \<open>Flat_Array_Levels\<close>: \<open>array_levels_v2.hpp\<close>. \<open>Price_Map\<close>: \<open>hash_map.hpp\<close>. \<open>Heap_Levels\<close>: \<open>heap_level.hpp\<close>,
    \<open>heap_levels_custom_map.hpp\<close>. \<open>Map_Levels\<close>: \<open>map_level.hpp\<close>, \<open>hybrid_vector_map.hpp\<close>.
    \<open>BTree_Levels\<close>: \<open>btree_level.hpp\<close>. \<open>Levels_Agree\<close>: the containers against each other.
  \<^item> \<open>Ring\<close>: indices of the ring buffers. \<open>Spsc\<close>, \<open>Spmc\<close>: \<open>spsc_queue.hpp\<close> and \<open>spmc_queue.hpp\<close> as operations.
    \<open>Spsc_Threads\<close>, \<open>Spmc_Threads\<close>: the same code as threads, one step per access to shared memory. \<open>Spmc_Tso\<close>:
    the SPMC queue with the store buffer of an x86 processor.
  \<^item> \<open>Handler\<close>: \<open>handler.hpp\<close>. \<open>Handler_Correct\<close>: its refinement of an abstract handler that
    keeps only live orders, and the end of the day.
  \<^item> \<open>Ingestor\<close>: \<open>ingestor.hpp\<close>. \<open>Consumers\<close>: the strategy threads of \<open>main.cpp\<close>. \<open>Benchmark_Utils\<close>:
    \<open>benchmarks/benchmark_utils.hpp\<close> and \<open>.cpp\<close>. \<open>Example_Benchmarks\<close>: \<open>benchmarks/example_benchmark.hpp\<close> and
    \<open>example_benchmark_parsing.hpp\<close>. \<open>Main_Program\<close>: \<open>dpdk_context.cpp\<close> and \<open>main\<close>.
\<close>

text \<open>
  \<^bold>\<open>Interfaces.\<close> \<open>best_levels\<close> is what \<open>OrderBook\<close> asks of a container (add and remove keep the depth and report the
  best level truly); the book is verified inside it and \<open>split_lv\<close> interprets it. \<open>depth_store\<close>,
  \<open>checked_store\<close>, \<open>level_store\<close> and \<open>total_store\<close> are what the other containers keep of it (with a
  capacity or a range of prices, without a report); \<open>vb\<close>, \<open>vl\<close>, \<open>ab\<close>, \<open>al\<close>, \<open>v2\<close>, \<open>hc\<close> and their \<open>_checked\<close>
  companions interpret them, and \<open>best_levels\<close> is a sublocale. \<open>bounded_queue\<close> and \<open>broadcast_queue\<close> are the
  contracts of the two queues, interpreted by \<open>spsc\<close> and \<open>spmc\<close>. The containers over third-party maps take
  those maps as parameters with laws, so their lemmas carry the laws as premises.

  \<^bold>\<open>What is shown.\<close>

  \<^item> Parsing: encoding then parsing gives the message back, apart from the time stamp, whose load is wrong; the
    parser delivers exactly the framed messages, in order; the dispatch table is right entry by entry; with 49
    readable bytes after the payload (the longest layout), ASCII type bytes and a handler that stays in bounds, no
    read leaves the memory; and short frames, unknown types and type bytes from 128 up do what the code does with them.
  \<^item> Books: every operation in order keeps both sides equal to the sums over the live orders. Its report, when
    there is one, is the best level of its side after the operation, and the other side's has not moved; it may
    repeat a best level that has not changed (\<open>split_add_repeats_best\<close>: an insertion just below the best). Without a
    report neither best level has moved. An operation aborts exactly when it names an unknown order or too much
    quantity; duplicate identifiers break the book. For the single-strategy book the same holds, with one
    entry of its queue per report, apart from two kinds of replace: one that keeps the identifier loses the
    order, and one whose insertion moves the elements of the table reads through a dangling reference.
  \<^item> Containers: each refines the depth of a side within its capacity, eight of them agree on every stream they
    can all take, and the deviations of the rest are stated and proved.
  \<^item> Queues: sequential refinement of a bounded list and of a broadcast log, at every value of the wrapping 64-bit
    counters; under every interleaving, with the other thread's index seen late (SPSC), values come out in order, none lost, doubled or torn, no slot is
    written while it is read (SPSC), and a consumer less than a round behind never aborts (SPMC). With a store
    buffer between the producer and the memory every state is still one of these interleavings, and a call that is
    not interrupted does what the operation does at once (SPMC).
  \<^item> The handler and the program: after any stream of messages in order the queues tell each strategy the best levels
    of the live orders; the end event stops exactly the queues in use; the receive loop returns with that
    event; every thread whose instrument has had its directory entry and that keeps up with its queue ends, and
    reports every latency it measured if its output file opens; and when all of them do, \<open>main\<close> returns 0.

  \<^bold>\<open>Bounds.\<close> A ring has \<open>131072 = 2 ^ 17\<close> slots. The results on whole days assume fewer than \<open>2 ^ 47\<close> messages: none
  appends more than \<open>2 ^ 16\<close> values to a queue (an order one report, the end event a \<open>Stop\<close> per locate at most), so a
  queue takes fewer than \<open>2 ^ 64\<close> values, the range of its counters. \<open>array_level.hpp\<close> holds 3000 levels,
  \<open>array_levels_v2.hpp\<close> prices below 2000000, \<open>hash_map.hpp\<close> eight keys in each of 1024 buckets.
\<close>

text \<open>
  \<^bold>\<open>Parameters.\<close> \<open>absl::flat_hash_map\<close> and \<open>absl::btree_map\<close> are operations with the laws their documentation gives; the
  calls into DPDK and the operating system, the packets the card delivers, the clocks and the time stamp counter are
  arguments of the definitions that use them. The strategy threads meet the handler through the queue: what a
  thread finds at each attempt to pop is an argument, about which \<open>feeds\<close> says that it grows by pushes.

  \<^bold>\<open>Not modelled.\<close> The conversion of a total to a floating-point number of seconds, which is only printed;
  reorderings by the compiler in the SPMC queue, which the source excludes by assumption; destructors of trivial
  types; capacities reserved in vectors; the fields of DPDK configurations that keep their defaults; the plots under
  \<open>analysis\<close> and the build files.
\<close>

end
